(* ===== verification/Prelude.thy ===== *)
theory Prelude
  imports Main "HOL-Library.Word"
begin

text \<open>
  The shared vocabulary of the development: the machine integers of the Rust sources as words of
  their width, the parsers' error type, the result type, the integer operations of the Rust
  standard library that the sources call (\<open>checked_add\<close>, \<open>saturating_sub\<close>, \<open>to_le_bytes\<close> and
  their kin), and the lemmas on lists and words that several components need.

  A \<open>usize\<close> that is the length of a buffer, or an index into one, is a \<^typ>\<open>nat\<close>; every other
  integer keeps its width. A Rust \<open>[u8; N]\<close> is a byte list, and the well-formedness predicate of
  the structure that holds it fixes its length.
\<close>

unbundle bit_operations_syntax

section \<open>Types\<close>

type_synonym u8 = "8 word"
type_synonym u16 = "16 word"
type_synonym u32 = "32 word"
type_synonym u64 = "64 word"
type_synonym bytes = "u8 list"
type_synonym hash = "u8 list"

text \<open>\<open>wrkz_primitives::Error\<close>, the error type of the parsers, and \<open>Result\<close>.\<close>

datatype error =
    Truncated
  | TrailingBytes nat
  | BadVarint
  | Malformed string

text \<open>Where the code would panic instead of returning.\<close>

datatype panic = DivideByZero

type_synonym 'a result = "error + 'a"

text \<open>The facts the component proofs hand to the simplifier as a group.\<close>

named_theorems codec_simps \<open>byte-level encoders and decoders\<close>
named_theorems arith_simps \<open>the Rust integer operations, read as arithmetic on nat\<close>

section \<open>Integer operations of the Rust standard library\<close>

definition checked_add :: "'a::len word \<Rightarrow> 'a word \<Rightarrow> 'a word option" where
  "checked_add a b = (if unat a + unat b < 2 ^ LENGTH('a) then Some (a + b) else None)"

definition checked_sub :: "'a::len word \<Rightarrow> 'a word \<Rightarrow> 'a word option" where
  "checked_sub a b = (if b \<le> a then Some (a - b) else None)"

definition div_ceil :: "'a::len word \<Rightarrow> 'a word \<Rightarrow> 'a word" where
  "div_ceil a b = (if a mod b > 0 then a div b + 1 else a div b)"

definition saturating_sub :: "'a::len word \<Rightarrow> 'a word \<Rightarrow> 'a word" where
  "saturating_sub a b = (if b \<le> a then a - b else 0)"

definition saturating_add :: "'a::len word \<Rightarrow> 'a word \<Rightarrow> 'a word" where
  "saturating_add a b = (if unat a + unat b < 2 ^ LENGTH('a) then a + b else - 1)"

definition saturating_mul :: "'a::len word \<Rightarrow> 'a word \<Rightarrow> 'a word" where
  "saturating_mul a b = (if unat a * unat b < 2 ^ LENGTH('a) then a * b else - 1)"

lemma unat_add_small: "unat a + unat b < 2 ^ LENGTH('a) \<Longrightarrow> unat (a + b) = unat a + unat b"
  for a b :: "'a::len word"
  by (simp add: unat_word_ariths)

lemma unat_max_word [simp]: "unat (- 1 :: 'a::len word) = 2 ^ LENGTH('a) - 1"
  by (simp add: unsigned_minus_1_eq_mask mask_eq_exp_minus_1)

lemma checked_add_Some [arith_simps]:
  "checked_add a b = Some c \<longleftrightarrow> unat a + unat b < 2 ^ LENGTH('a) \<and> unat c = unat a + unat b"
  for a b c :: "'a::len word"
  by (auto simp: checked_add_def unat_add_small word_unat_eq_iff)

lemma checked_add_None [arith_simps]:
  "checked_add a b = None \<longleftrightarrow> 2 ^ LENGTH('a) \<le> unat a + unat b" for a b :: "'a::len word"
  by (simp add: checked_add_def not_less)

lemma checked_sub_Some [arith_simps]:
  "checked_sub a b = Some c \<longleftrightarrow> unat b \<le> unat a \<and> unat c = unat a - unat b"
  for a b c :: "'a::len word"
  by (auto simp: checked_sub_def word_le_nat_alt unat_sub word_unat_eq_iff)

lemma checked_sub_None [arith_simps]:
  "checked_sub a b = None \<longleftrightarrow> unat a < unat b" for a b :: "'a::len word"
  by (simp add: checked_sub_def word_le_nat_alt not_le)

lemma unat_saturating_sub [arith_simps]: "unat (saturating_sub a b) = unat a - unat b"
  by (auto simp: saturating_sub_def word_le_nat_alt unat_sub)

lemma unat_saturating_add [arith_simps]:
  "unat (saturating_add a b) = min (unat a + unat b) (2 ^ LENGTH('a) - 1)" for a b :: "'a::len word"
  by (auto simp: saturating_add_def unat_add_small)

lemma unat_saturating_mul [arith_simps]:
  "unat (saturating_mul a b) = min (unat a * unat b) (2 ^ LENGTH('a) - 1)" for a b :: "'a::len word"
  by (auto simp: saturating_mul_def unat_word_ariths)

lemma unat_drop_bit [arith_simps]: "unat (drop_bit n w) = unat w div 2 ^ n"
  unfolding unat_drop_bit_eq by (rule drop_bit_eq_div)

lemma unat_u64_less [simp]: "unat (v :: u64) < 18446744073709551616"
  using unsigned_less [of v] by simp

lemma unat_u32_less [simp]: "unat (v :: u32) < 4294967296"
  using unsigned_less [of v] by simp

lemma unat_u16_less [simp]: "unat (v :: u16) < 65536"
  using unsigned_less [of v] by simp

lemma unat_u8_less [simp]: "unat (v :: u8) < 256"
  using unsigned_less [of v] by simp

lemma unat_of_nat_less: "n < 2 ^ LENGTH('a) \<Longrightarrow> unat (of_nat n :: 'a::len word) = n"
  by (simp add: unat_of_nat)

lemma unat_less_exp_take_bit: "unat w < 2 ^ k \<longleftrightarrow> take_bit k w = w" for w :: "'a::len word"
  by (simp add: word_unat_eq_iff unsigned_take_bit_eq take_bit_nat_eq_self_iff)

lemma bit_imp_less: "bit w n \<Longrightarrow> unat w < 2 ^ k \<Longrightarrow> n < k" for w :: "'a::len word"
  unfolding unat_less_exp_take_bit by (metis bit_take_bit_iff)

lemma unat_ucast_up [simp]:
  assumes "LENGTH('a) \<le> LENGTH('b)"
  shows "unat (ucast (w :: 'a::len word) :: 'b::len word) = unat w"
proof -
  have "unat w < 2 ^ LENGTH('a)" by simp
  also have "\<dots> \<le> 2 ^ LENGTH('b)" using assms by (simp add: power_increasing)
  finally show ?thesis by (simp add: unsigned_ucast_eq take_bit_nat_eq_self)
qed

section \<open>Little-endian bytes\<close>

text \<open>
  \<open>to_le n w\<close> is the first \<open>n\<close> bytes of \<open>w.to_le_bytes()\<close>, and \<open>from_le\<close> is
  \<open>from_le_bytes\<close> at the width of its result.
\<close>

primrec to_le :: "nat \<Rightarrow> 'a::len word \<Rightarrow> bytes" where
  "to_le 0 w = []"
| "to_le (Suc n) w = ucast w # to_le n (drop_bit 8 w)"

primrec from_le :: "bytes \<Rightarrow> 'a::len word" where
  "from_le [] = 0"
| "from_le (b # bs) = ucast b OR push_bit 8 (from_le bs)"

lemma length_to_le [simp]: "length (to_le n w) = n"
  by (induction n arbitrary: w) auto

lemma bit_from_le:
  "bit (from_le bs :: 'a::len word) i \<longleftrightarrow>
     i < LENGTH('a) \<and> i div 8 < length bs \<and> bit (bs ! (i div 8)) (i mod 8)"
proof (induction bs arbitrary: i)
  case Nil
  then show ?case by simp
next
  case (Cons b bs)
  show ?case
  proof (cases "i < 8")
    case True
    then show ?thesis by (auto simp: bit_simps)
  next
    case False
    then have i: "i div 8 = Suc ((i - 8) div 8)" "i mod 8 = (i - 8) mod 8"
      by (simp_all add: le_div_geq le_mod_geq)
    from False have "\<not> bit b i"
      using bit_imp_le_length [of b i] by auto
    with False i Cons.IH [of "i - 8"] show ?thesis
      by (auto simp: bit_simps)
  qed
qed

lemma nth_to_le: "k < n \<Longrightarrow> to_le n w ! k = ucast (drop_bit (8 * k) w)"
  by (induction n arbitrary: w k) (auto simp: nth_Cons algebra_simps split: nat.splits)

lemma from_le_to_le [simp, codec_simps]:
  "LENGTH('a) \<le> 8 * n \<Longrightarrow> from_le (to_le n w) = (w :: 'a::len word)"
proof (rule bit_word_eqI)
  fix i
  assume "LENGTH('a) \<le> 8 * n" and i: "i < LENGTH('a)"
  then have "i div 8 < n" by linarith
  with i show "bit (from_le (to_le n w) :: 'a word) i = bit w i"
    by (simp add: bit_from_le nth_to_le bit_simps)
qed

lemma to_le_from_le [simp, codec_simps]:
  assumes "8 * length bs \<le> LENGTH('a)"
  shows "to_le (length bs) (from_le bs :: 'a::len word) = bs"
proof (rule nth_equalityI)
  fix k
  assume "k < length (to_le (length bs) (from_le bs :: 'a word))"
  then have k: "k < length bs" by simp
  have "bit (ucast (drop_bit (8 * k) (from_le bs :: 'a word)) :: u8) i = bit (bs ! k) i"
    if "i < 8" for i
  proof -
    from that k assms have "8 * k + i < LENGTH('a)" by linarith
    moreover from that have "(8 * k + i) div 8 = k" "(8 * k + i) mod 8 = i" by simp_all
    ultimately show ?thesis using that k by (simp add: bit_simps bit_from_le)
  qed
  then have "ucast (drop_bit (8 * k) (from_le bs :: 'a word)) = bs ! k"
    by (intro bit_word_eqI) simp
  with k show "to_le (length bs) (from_le bs :: 'a word) ! k = bs ! k"
    by (simp add: nth_to_le)
qed simp

lemma sorted_map_unat [simp]: "sorted_wrt (<) (map unat xs) \<longleftrightarrow> sorted_wrt (<) xs"
  for xs :: "'a::len word list"
  by (induction xs) (auto simp: word_less_nat_alt)

lemma ceil_div:
  fixes n b :: nat
  assumes "0 < b"
  shows "(n + b - 1) div b = (if n mod b = 0 then n div b else n div b + 1)"
proof -
  define q r where "q = n div b" and "r = n mod b"
  have n: "n = q * b + r" and r: "r < b" using assms by (simp_all add: q_def r_def)
  show ?thesis
  proof (cases "r = 0")
    case True
    have "n + b - 1 = (b - 1) + q * b" using assms True n by simp
    also have "\<dots> div b = q" using assms by (subst div_mult_self1) auto
    finally show ?thesis using True by (simp add: q_def r_def)
  next
    case False
    have "n + b - 1 = (r - 1) + (q + 1) * b" using False n by simp
    also have "\<dots> div b = q + 1" using assms r by (subst div_mult_self1) auto
    finally show ?thesis using False by (simp add: q_def r_def)
  qed
qed

lemma unat_div_ceil:
  fixes b :: "'a::len word"
  assumes "n < 2 ^ LENGTH('a)" and "0 < b"
  shows "unat (div_ceil (of_nat n) b) = (n + unat b - 1) div unat b"
proof -
  have u: "unat (of_nat n :: 'a word) = n" using assms(1) by (rule unat_of_nat_less)
  have b: "0 < unat b" using assms(2) by (simp add: word_less_nat_alt)
  have "unat (of_nat n div b + 1) = n div unat b + 1" if "n mod unat b \<noteq> 0"
  proof -
    from b that have "unat b \<noteq> 1" "n \<noteq> 0" by (auto intro: ccontr)
    with b have "n div unat b < n" by (intro div_less_dividend) auto
    with assms(1) have "unat (of_nat n div b) + unat (1::'a word) < 2 ^ LENGTH('a)"
      by (simp add: unat_div u)
    from unat_add_small [OF this] show ?thesis by (simp add: unat_div u)
  qed
  then show ?thesis
    unfolding ceil_div [OF b] by (simp add: div_ceil_def word_less_nat_alt unat_mod unat_div u)
qed

end
