(* ===== verification/Constants.thy ===== *)
theory Constants
  imports Prelude
begin

text \<open>
  The network parameters of \<open>constants.rs\<close> that the modelled code uses, under their own names, and
  the functions of a height or a block version defined beside them. A parameter that only one or two functions
  read is an abbreviation for its value; \<open>const_defs\<close> collects the values of the others.
\<close>

named_theorems const_defs

section \<open>Parameters\<close>

definition CRYPTONOTE_PUBLIC_ADDRESS_BASE58_PREFIX :: u64 where [const_defs]: "CRYPTONOTE_PUBLIC_ADDRESS_BASE58_PREFIX = 999730"
definition MONEY_SUPPLY :: u64 where [const_defs]: "MONEY_SUPPLY = 50000000000000"
abbreviation (input) EMISSION_SPEED_FACTOR :: u32 where "EMISSION_SPEED_FACTOR \<equiv> 22"
definition GENESIS_BLOCK_REWARD :: u64 where [const_defs]: "GENESIS_BLOCK_REWARD = MONEY_SUPPLY * 3 div 100"
abbreviation (input) FIXED_REWARD_V1 :: u64 where "FIXED_REWARD_V1 \<equiv> 1000000"
abbreviation (input) FIXED_REWARD_V1_HEIGHT :: u64 where "FIXED_REWARD_V1_HEIGHT \<equiv> 1500000"
definition CRYPTONOTE_MINED_MONEY_UNLOCK_WINDOW :: u64 where [const_defs]: "CRYPTONOTE_MINED_MONEY_UNLOCK_WINDOW = 40"
definition CRYPTONOTE_REWARD_BLOCKS_WINDOW :: nat where [const_defs]: "CRYPTONOTE_REWARD_BLOCKS_WINDOW = 100"
abbreviation (input) CRYPTONOTE_BLOCK_GRANTED_FULL_REWARD_ZONE :: nat where "CRYPTONOTE_BLOCK_GRANTED_FULL_REWARD_ZONE \<equiv> 100000"
abbreviation (input) CRYPTONOTE_BLOCK_GRANTED_FULL_REWARD_ZONE_V2 :: nat where "CRYPTONOTE_BLOCK_GRANTED_FULL_REWARD_ZONE_V2 \<equiv> 20000"
abbreviation (input) CRYPTONOTE_BLOCK_GRANTED_FULL_REWARD_ZONE_V1 :: nat where "CRYPTONOTE_BLOCK_GRANTED_FULL_REWARD_ZONE_V1 \<equiv> 10000"
abbreviation (input) CRYPTONOTE_COINBASE_BLOB_RESERVED_SIZE :: nat where "CRYPTONOTE_COINBASE_BLOB_RESERVED_SIZE \<equiv> 600"
abbreviation (input) UPGRADE_HEIGHT_V2 :: u64 where "UPGRADE_HEIGHT_V2 \<equiv> 1"
abbreviation (input) UPGRADE_HEIGHT_V3 :: u64 where "UPGRADE_HEIGHT_V3 \<equiv> 2"
abbreviation (input) UPGRADE_HEIGHT_V4 :: u64 where "UPGRADE_HEIGHT_V4 \<equiv> 3"
abbreviation (input) UPGRADE_HEIGHT_V5 :: u64 where "UPGRADE_HEIGHT_V5 \<equiv> 302400"
abbreviation (input) UPGRADE_HEIGHT_V6 :: u64 where "UPGRADE_HEIGHT_V6 \<equiv> 600000"
abbreviation (input) UPGRADE_HEIGHT_V7 :: u64 where "UPGRADE_HEIGHT_V7 \<equiv> 1000000"
definition DIFFICULTY_TARGET :: u64 where [const_defs]: "DIFFICULTY_TARGET = 60"
definition ZAWY_DIFFICULTY_BLOCK_INDEX :: u64 where [const_defs]: "ZAWY_DIFFICULTY_BLOCK_INDEX = 20160"
abbreviation (input) ZAWY_DIFFICULTY_DIFFICULTY_BLOCK_VERSION :: u8 where "ZAWY_DIFFICULTY_DIFFICULTY_BLOCK_VERSION \<equiv> 3"
definition LWMA_2_DIFFICULTY_BLOCK_INDEX :: u64 where [const_defs]: "LWMA_2_DIFFICULTY_BLOCK_INDEX = 100000"
abbreviation (input) LWMA_2_DIFFICULTY_BLOCK_INDEX_V2 :: u64 where "LWMA_2_DIFFICULTY_BLOCK_INDEX_V2 \<equiv> 100000"
definition LWMA_2_DIFFICULTY_BLOCK_INDEX_V3 :: u64 where [const_defs]: "LWMA_2_DIFFICULTY_BLOCK_INDEX_V3 = 128800"
abbreviation (input) DIFFICULTY_WINDOW :: nat where "DIFFICULTY_WINDOW \<equiv> 17"
abbreviation (input) DIFFICULTY_WINDOW_V1 :: nat where "DIFFICULTY_WINDOW_V1 \<equiv> 2880"
abbreviation (input) DIFFICULTY_WINDOW_V2 :: nat where "DIFFICULTY_WINDOW_V2 \<equiv> 2880"
definition DIFFICULTY_WINDOW_V3 :: nat where [const_defs]: "DIFFICULTY_WINDOW_V3 = 60"
abbreviation (input) DIFFICULTY_BLOCKS_COUNT_V3 :: nat where "DIFFICULTY_BLOCKS_COUNT_V3 \<equiv> 61"
abbreviation (input) DIFFICULTY_CUT :: nat where "DIFFICULTY_CUT \<equiv> 0"
abbreviation (input) DIFFICULTY_CUT_V1 :: nat where "DIFFICULTY_CUT_V1 \<equiv> 60"
abbreviation (input) DIFFICULTY_CUT_V2 :: nat where "DIFFICULTY_CUT_V2 \<equiv> 60"
abbreviation (input) DIFFICULTY_LAG :: nat where "DIFFICULTY_LAG \<equiv> 0"
abbreviation (input) DIFFICULTY_LAG_V1 :: nat where "DIFFICULTY_LAG_V1 \<equiv> 15"
abbreviation (input) DIFFICULTY_LAG_V2 :: nat where "DIFFICULTY_LAG_V2 \<equiv> 15"
abbreviation (input) CRYPTONOTE_BLOCK_FUTURE_TIME_LIMIT :: u64 where "CRYPTONOTE_BLOCK_FUTURE_TIME_LIMIT \<equiv> 7200"
abbreviation (input) CRYPTONOTE_BLOCK_FUTURE_TIME_LIMIT_V3 :: u64 where "CRYPTONOTE_BLOCK_FUTURE_TIME_LIMIT_V3 \<equiv> 3 * DIFFICULTY_TARGET"
abbreviation (input) CRYPTONOTE_BLOCK_FUTURE_TIME_LIMIT_V4 :: u64 where "CRYPTONOTE_BLOCK_FUTURE_TIME_LIMIT_V4 \<equiv> 6 * DIFFICULTY_TARGET"
abbreviation (input) BLOCKCHAIN_TIMESTAMP_CHECK_WINDOW :: nat where "BLOCKCHAIN_TIMESTAMP_CHECK_WINDOW \<equiv> 60"
abbreviation (input) BLOCKCHAIN_TIMESTAMP_CHECK_WINDOW_V3 :: nat where "BLOCKCHAIN_TIMESTAMP_CHECK_WINDOW_V3 \<equiv> 11"
abbreviation (input) CRYPTONOTE_MAX_BLOCK_NUMBER :: u64 where "CRYPTONOTE_MAX_BLOCK_NUMBER \<equiv> 500000000"
abbreviation (input) MAX_BLOCK_SIZE_INITIAL :: u64 where "MAX_BLOCK_SIZE_INITIAL \<equiv> 100000"
abbreviation (input) MAX_BLOCK_SIZE_GROWTH_SPEED_NUMERATOR :: u64 where "MAX_BLOCK_SIZE_GROWTH_SPEED_NUMERATOR \<equiv> 100 * 1024"
abbreviation (input) MAX_BLOCK_SIZE_GROWTH_SPEED_DENOMINATOR :: u64 where "MAX_BLOCK_SIZE_GROWTH_SPEED_DENOMINATOR \<equiv> 365 * 24 * 60 * 60 div DIFFICULTY_TARGET"
abbreviation (input) MAX_EXTRA_SIZE_V2 :: nat where "MAX_EXTRA_SIZE_V2 \<equiv> 1024"
definition MAX_EXTRA_SIZE_V2_HEIGHT :: u64 where [const_defs]: "MAX_EXTRA_SIZE_V2_HEIGHT = 543000"
abbreviation (input) BLOCK_BLOB_SHUFFLE_CHECK_HEIGHT :: u64 where "BLOCK_BLOB_SHUFFLE_CHECK_HEIGHT \<equiv> 600000"
definition TRANSACTION_SIGNATURE_COUNT_VALIDATION_HEIGHT :: u64 where [const_defs]: "TRANSACTION_SIGNATURE_COUNT_VALIDATION_HEIGHT = 543000"
abbreviation (input) TRANSACTION_INPUT_BLOCKTIME_VALIDATION_HEIGHT :: u64 where "TRANSACTION_INPUT_BLOCKTIME_VALIDATION_HEIGHT \<equiv> 600000"
abbreviation (input) MINIMUM_FEE :: u64 where "MINIMUM_FEE \<equiv> 5"
abbreviation (input) MINIMUM_FEE_V1 :: u64 where "MINIMUM_FEE_V1 \<equiv> 50000"
definition MINIMUM_FEE_V1_HEIGHT :: u64 where [const_defs]: "MINIMUM_FEE_V1_HEIGHT = 678500"
abbreviation (input) FEE_PER_BYTE_CHUNK_SIZE :: u64 where "FEE_PER_BYTE_CHUNK_SIZE \<equiv> 256"
abbreviation (input) FEE_PER_BYTE_CHUNK_SIZE_V2 :: u64 where "FEE_PER_BYTE_CHUNK_SIZE_V2 \<equiv> 128"
definition MINIMUM_FEE_PER_BYTE_V1_HEIGHT :: u64 where [const_defs]: "MINIMUM_FEE_PER_BYTE_V1_HEIGHT = 832000"
abbreviation (input) MINIMUM_FEE_PER_BYTE_V2_HEIGHT :: u64 where "MINIMUM_FEE_PER_BYTE_V2_HEIGHT \<equiv> 1500000"
definition FUSION_FEE_V1_HEIGHT :: u64 where [const_defs]: "FUSION_FEE_V1_HEIGHT = 864864"
definition FUSION_FEE_V1 :: u64 where [const_defs]: "FUSION_FEE_V1 = 10000"
definition FUSION_ZERO_FEE_V2_HEIGHT :: u64 where [const_defs]: "FUSION_ZERO_FEE_V2_HEIGHT = 1123000"
abbreviation (input) MINIMUM_MIXIN_V1 :: u64 where "MINIMUM_MIXIN_V1 \<equiv> 0"
abbreviation (input) MAXIMUM_MIXIN_V1 :: u64 where "MAXIMUM_MIXIN_V1 \<equiv> 30"
definition MINIMUM_MIXIN_V2 :: u64 where [const_defs]: "MINIMUM_MIXIN_V2 = 3"
abbreviation (input) MAXIMUM_MIXIN_V2 :: u64 where "MAXIMUM_MIXIN_V2 \<equiv> 7"
abbreviation (input) MINIMUM_MIXIN_V3 :: u64 where "MINIMUM_MIXIN_V3 \<equiv> 0"
abbreviation (input) MAXIMUM_MIXIN_V3 :: u64 where "MAXIMUM_MIXIN_V3 \<equiv> 7"
abbreviation (input) MINIMUM_MIXIN_V4 :: u64 where "MINIMUM_MIXIN_V4 \<equiv> 1"
abbreviation (input) MAXIMUM_MIXIN_V4 :: u64 where "MAXIMUM_MIXIN_V4 \<equiv> 3"
abbreviation (input) MINIMUM_MIXIN_V5 :: u64 where "MINIMUM_MIXIN_V5 \<equiv> 1"
abbreviation (input) MAXIMUM_MIXIN_V5 :: u64 where "MAXIMUM_MIXIN_V5 \<equiv> 1"
abbreviation (input) MINIMUM_MIXIN_V6 :: u64 where "MINIMUM_MIXIN_V6 \<equiv> 1"
abbreviation (input) MAXIMUM_MIXIN_V6 :: u64 where "MAXIMUM_MIXIN_V6 \<equiv> 7"
abbreviation (input) MIXIN_LIMITS_V1_HEIGHT :: u64 where "MIXIN_LIMITS_V1_HEIGHT \<equiv> 10000"
definition MIXIN_LIMITS_V2_HEIGHT :: u64 where [const_defs]: "MIXIN_LIMITS_V2_HEIGHT = 302400"
abbreviation (input) MIXIN_LIMITS_V3_HEIGHT :: u64 where "MIXIN_LIMITS_V3_HEIGHT \<equiv> 430000"
abbreviation (input) MIXIN_LIMITS_V4_HEIGHT :: u64 where "MIXIN_LIMITS_V4_HEIGHT \<equiv> 658500"
abbreviation (input) MIXIN_LIMITS_V5_HEIGHT :: u64 where "MIXIN_LIMITS_V5_HEIGHT \<equiv> 1000000"
definition MIXIN_LIMITS_V6_HEIGHT :: u64 where [const_defs]: "MIXIN_LIMITS_V6_HEIGHT = 4300000"
abbreviation (input) DEFAULT_MIXIN_V0 :: u64 where "DEFAULT_MIXIN_V0 \<equiv> 3"
abbreviation (input) DEFAULT_MIXIN_V1 :: u64 where "DEFAULT_MIXIN_V1 \<equiv> MINIMUM_MIXIN_V2"
abbreviation (input) DEFAULT_MIXIN_V2 :: u64 where "DEFAULT_MIXIN_V2 \<equiv> MINIMUM_MIXIN_V2"
abbreviation (input) DEFAULT_MIXIN_V3 :: u64 where "DEFAULT_MIXIN_V3 \<equiv> MINIMUM_MIXIN_V2"
abbreviation (input) DEFAULT_MIXIN_V4 :: u64 where "DEFAULT_MIXIN_V4 \<equiv> MAXIMUM_MIXIN_V4"
abbreviation (input) DEFAULT_MIXIN_V5 :: u64 where "DEFAULT_MIXIN_V5 \<equiv> MAXIMUM_MIXIN_V5"
abbreviation (input) DEFAULT_MIXIN_V6 :: u64 where "DEFAULT_MIXIN_V6 \<equiv> MAXIMUM_MIXIN_V6"
abbreviation (input) UNLOCK_TIME_HEIGHT :: u64 where "UNLOCK_TIME_HEIGHT \<equiv> 1200000"
abbreviation (input) UNLOCK_TIME_HEIGHT_V2 :: u64 where "UNLOCK_TIME_HEIGHT_V2 \<equiv> 1500000"
abbreviation (input) MINIMUM_UNLOCK_TIME_BLOCKS :: u64 where "MINIMUM_UNLOCK_TIME_BLOCKS \<equiv> 15"
abbreviation (input) CRYPTONOTE_LOCKED_TX_ALLOWED_DELTA_BLOCKS :: u64 where "CRYPTONOTE_LOCKED_TX_ALLOWED_DELTA_BLOCKS \<equiv> 1"
abbreviation (input) CRYPTONOTE_LOCKED_TX_ALLOWED_DELTA_SECONDS :: u64 where "CRYPTONOTE_LOCKED_TX_ALLOWED_DELTA_SECONDS \<equiv> DIFFICULTY_TARGET * CRYPTONOTE_LOCKED_TX_ALLOWED_DELTA_BLOCKS"
abbreviation (input) DEFAULT_DUST_THRESHOLD :: u64 where "DEFAULT_DUST_THRESHOLD \<equiv> 10"
abbreviation (input) DEFAULT_DUST_THRESHOLD_V2 :: u64 where "DEFAULT_DUST_THRESHOLD_V2 \<equiv> 0"
abbreviation (input) DUST_THRESHOLD_V2_HEIGHT :: u64 where "DUST_THRESHOLD_V2_HEIGHT \<equiv> MIXIN_LIMITS_V2_HEIGHT"
abbreviation (input) FUSION_DUST_THRESHOLD_HEIGHT_V2 :: u64 where "FUSION_DUST_THRESHOLD_HEIGHT_V2 \<equiv> 400000"
abbreviation (input) MAX_OUTPUT_SIZE_NODE :: u64 where "MAX_OUTPUT_SIZE_NODE \<equiv> 12500000000000"
definition MAX_OUTPUT_SIZE_HEIGHT :: u64 where [const_defs]: "MAX_OUTPUT_SIZE_HEIGHT = 800000"
abbreviation (input) FUSION_TX_MAX_POOL_COUNT :: nat where "FUSION_TX_MAX_POOL_COUNT \<equiv> 60"
abbreviation (input) CRYPTONOTE_MEMPOOL_MAX_SIZE_BYTES :: nat where "CRYPTONOTE_MEMPOOL_MAX_SIZE_BYTES \<equiv> 64 * 1024 * 1024"
abbreviation (input) CRYPTONOTE_MEMPOOL_EVICT_TO_PERCENT :: nat where "CRYPTONOTE_MEMPOOL_EVICT_TO_PERCENT \<equiv> 90"
abbreviation (input) CRYPTONOTE_MEMPOOL_TX_LIVETIME :: u64 where "CRYPTONOTE_MEMPOOL_TX_LIVETIME \<equiv> 60 * 60 * 24"
abbreviation (input) NORMAL_TX_MAX_OUTPUT_COUNT_V1 :: nat where "NORMAL_TX_MAX_OUTPUT_COUNT_V1 \<equiv> 90"
abbreviation (input) NORMAL_TX_MAX_OUTPUT_COUNT_V1_HEIGHT :: u64 where "NORMAL_TX_MAX_OUTPUT_COUNT_V1_HEIGHT \<equiv> 777777"
abbreviation (input) FUSION_TX_MAX_SIZE :: nat where "FUSION_TX_MAX_SIZE \<equiv> CRYPTONOTE_BLOCK_GRANTED_FULL_REWARD_ZONE * 30 div 100"
abbreviation (input) FUSION_TX_MIN_INPUT_COUNT :: nat where "FUSION_TX_MIN_INPUT_COUNT \<equiv> 12"
abbreviation (input) FUSION_TX_MIN_IN_OUT_COUNT_RATIO :: nat where "FUSION_TX_MIN_IN_OUT_COUNT_RATIO \<equiv> 4"
definition TRANSACTION_POW_HEIGHT :: u64 where [const_defs]: "TRANSACTION_POW_HEIGHT = 1123000"
abbreviation (input) TRANSACTION_POW_DIFFICULTY :: u64 where "TRANSACTION_POW_DIFFICULTY \<equiv> 20000"
abbreviation (input) FUSION_TRANSACTION_POW_DIFFICULTY :: u64 where "FUSION_TRANSACTION_POW_DIFFICULTY \<equiv> 60000"
abbreviation (input) TRANSACTION_POW_HEIGHT_DYN_V1 :: u64 where "TRANSACTION_POW_HEIGHT_DYN_V1 \<equiv> 1200000"
abbreviation (input) TRANSACTION_POW_DIFFICULTY_DYN_V1 :: u64 where "TRANSACTION_POW_DIFFICULTY_DYN_V1 \<equiv> 40000"
abbreviation (input) MULTIPLIER_TRANSACTION_POW_DIFFICULTY_PER_IO_V1 :: u64 where "MULTIPLIER_TRANSACTION_POW_DIFFICULTY_PER_IO_V1 \<equiv> 1000"
abbreviation (input) MULTIPLIER_TRANSACTION_POW_DIFFICULTY_FACTORED_OUT_V1 :: u64 where "MULTIPLIER_TRANSACTION_POW_DIFFICULTY_FACTORED_OUT_V1 \<equiv> 4"
abbreviation (input) FUSION_TRANSACTION_POW_DIFFICULTY_V2 :: u64 where "FUSION_TRANSACTION_POW_DIFFICULTY_V2 \<equiv> 320000"
abbreviation (input) TRANSACTION_POW_PASS_WITH_FEE_HEIGHT :: u64 where "TRANSACTION_POW_PASS_WITH_FEE_HEIGHT \<equiv> 1500000"
abbreviation (input) TRANSACTION_POW_PASS_WITH_FEE :: u64 where "TRANSACTION_POW_PASS_WITH_FEE \<equiv> 10000"
definition CRYPTONOTE_MAX_ALT_BLOCK_DEPTH :: u64 where [const_defs]: "CRYPTONOTE_MAX_ALT_BLOCK_DEPTH = 180"
definition CRYPTONOTE_MAX_ALT_CHAIN_COUNT :: nat where [const_defs]: "CRYPTONOTE_MAX_ALT_CHAIN_COUNT = 50"
definition CRYPTONOTE_MAX_ALT_BLOCK_COUNT :: nat where [const_defs]: "CRYPTONOTE_MAX_ALT_BLOCK_COUNT = 100"
definition UPGRADE_HEIGHTS :: "(u8 \<times> u64) list" where [const_defs]:
  "UPGRADE_HEIGHTS =
     [(2, UPGRADE_HEIGHT_V2), (3, UPGRADE_HEIGHT_V3), (4, UPGRADE_HEIGHT_V4), (5, UPGRADE_HEIGHT_V5),
      (6, UPGRADE_HEIGHT_V6), (7, UPGRADE_HEIGHT_V7)]"

section \<open>Rules by height and by version\<close>

fun major_version_loop :: "(u8 \<times> u64) list \<Rightarrow> u64 \<Rightarrow> u8" where
  "major_version_loop [] index = 1"
| "major_version_loop ((version, height) # rest) index =
     (if height < index then version else major_version_loop rest index)"

definition block_major_version_for_index :: "u64 \<Rightarrow> u8" where
  "block_major_version_for_index index = major_version_loop (rev UPGRADE_HEIGHTS) index"

definition full_reward_zone :: "u8 \<Rightarrow> nat" where
  "full_reward_zone major_version =
     (if major_version \<ge> 3 then CRYPTONOTE_BLOCK_GRANTED_FULL_REWARD_ZONE
      else if major_version = 2 then CRYPTONOTE_BLOCK_GRANTED_FULL_REWARD_ZONE_V2
      else CRYPTONOTE_BLOCK_GRANTED_FULL_REWARD_ZONE_V1)"

definition block_future_time_limit :: "u64 \<Rightarrow> u64" where
  "block_future_time_limit index =
     (if index \<ge> LWMA_2_DIFFICULTY_BLOCK_INDEX_V3 then CRYPTONOTE_BLOCK_FUTURE_TIME_LIMIT_V4
      else if index \<ge> LWMA_2_DIFFICULTY_BLOCK_INDEX then CRYPTONOTE_BLOCK_FUTURE_TIME_LIMIT_V3
      else CRYPTONOTE_BLOCK_FUTURE_TIME_LIMIT)"

definition timestamp_check_window :: "u64 \<Rightarrow> nat" where
  "timestamp_check_window index =
     (if index \<ge> LWMA_2_DIFFICULTY_BLOCK_INDEX_V3 then BLOCKCHAIN_TIMESTAMP_CHECK_WINDOW_V3
      else BLOCKCHAIN_TIMESTAMP_CHECK_WINDOW)"

definition difficulty_window :: "u8 \<Rightarrow> nat" where
  "difficulty_window major_version =
     (if major_version \<ge> 3 then DIFFICULTY_WINDOW
      else if major_version = 2 then DIFFICULTY_WINDOW_V2 else DIFFICULTY_WINDOW_V1)"

definition difficulty_cut :: "u8 \<Rightarrow> nat" where
  "difficulty_cut major_version =
     (if major_version \<ge> 3 then DIFFICULTY_CUT
      else if major_version = 2 then DIFFICULTY_CUT_V2 else DIFFICULTY_CUT_V1)"

definition difficulty_lag :: "u8 \<Rightarrow> nat" where
  "difficulty_lag major_version =
     (if major_version \<ge> 3 then DIFFICULTY_LAG
      else if major_version = 2 then DIFFICULTY_LAG_V2 else DIFFICULTY_LAG_V1)"

definition difficulty_blocks_count :: "u8 \<Rightarrow> u64 \<Rightarrow> nat" where
  "difficulty_blocks_count major_version parent_index =
     (if parent_index \<ge> LWMA_2_DIFFICULTY_BLOCK_INDEX then DIFFICULTY_BLOCKS_COUNT_V3
      else difficulty_window major_version + difficulty_lag major_version)"

definition max_block_cumulative_size :: "u64 \<Rightarrow> u64" where
  "max_block_cumulative_size height =
     MAX_BLOCK_SIZE_INITIAL +
     height * MAX_BLOCK_SIZE_GROWTH_SPEED_NUMERATOR div MAX_BLOCK_SIZE_GROWTH_SPEED_DENOMINATOR"

definition default_fusion_dust_threshold :: "u64 \<Rightarrow> u64" where
  "default_fusion_dust_threshold height =
     (if height \<ge> FUSION_DUST_THRESHOLD_HEIGHT_V2 then DEFAULT_DUST_THRESHOLD_V2
      else DEFAULT_DUST_THRESHOLD)"

definition transaction_pow_difficulty :: "u64 \<Rightarrow> bool \<Rightarrow> u64 \<Rightarrow> u64 \<Rightarrow> u64 option" where
  "transaction_pow_difficulty h is_fusion inputs outputs =
     (if h < TRANSACTION_POW_HEIGHT then None
      else Some
        (if h \<le> TRANSACTION_POW_HEIGHT_DYN_V1 then
           if is_fusion then FUSION_TRANSACTION_POW_DIFFICULTY else TRANSACTION_POW_DIFFICULTY
         else if is_fusion then FUSION_TRANSACTION_POW_DIFFICULTY_V2
         else saturating_add TRANSACTION_POW_DIFFICULTY_DYN_V1
           (saturating_mul
             (saturating_add inputs
               (saturating_mul outputs MULTIPLIER_TRANSACTION_POW_DIFFICULTY_FACTORED_OUT_V1))
             MULTIPLIER_TRANSACTION_POW_DIFFICULTY_PER_IO_V1)))"

text \<open>
  \<open>is_pretty_amount\<close> strips the trailing zeros of a non-zero amount; the loop would not end on zero,
  which its caller excludes, and is cut off there.
\<close>

function strip_zeros :: "u64 \<Rightarrow> u64" where
  "strip_zeros a = (if a \<noteq> 0 \<and> a mod 10 = 0 then strip_zeros (a div 10) else a)"
  by pat_completeness auto
termination
  by (relation "measure unat") (simp_all add: unat_div word_gt_0 word_less_nat_alt unat_gt_0)

declare strip_zeros.simps [simp del]

definition is_pretty_amount :: "u64 \<Rightarrow> bool" where
  "is_pretty_amount amount =
     (if amount = 0 \<or> amount > 9000000000000000000 then False else strip_zeros amount < 10)"

primrec pretty_loop :: "nat \<Rightarrow> u64 \<Rightarrow> u64 list \<Rightarrow> u64 list" where
  "pretty_loop 0 order out = out"
| "pretty_loop (Suc n) order out =
     pretty_loop n (order * 10) (out @ map (\<lambda>d. d * order) [1, 2, 3, 4, 5, 6, 7, 8, 9])"

definition pretty_amounts :: "u64 list" where
  "pretty_amounts = pretty_loop 19 1 []"

section \<open>Pretty amounts\<close>

lemma strip_zeros_digit:
  assumes "a \<noteq> 0"
  shows "strip_zeros a < 10 \<longleftrightarrow> (\<exists>d k. 0 < d \<and> d < 10 \<and> unat a = d * 10 ^ k)"
  using assms
proof (induction a rule: strip_zeros.induct)
  case (1 a)
  show ?case
  proof (cases "a mod 10 = 0")
    case True
    then have m: "unat a mod 10 = 0" by (simp add: word_unat_eq_iff unat_mod)
    with 1(2) have nz: "a div 10 \<noteq> 0" by (auto simp: word_unat_eq_iff unat_div)
    have "(\<exists>k. unat a = d * 10 ^ k) \<longleftrightarrow> (\<exists>k. unat a div 10 = d * 10 ^ k)" if "0 < d" "d < 10" for d
    proof
      assume "\<exists>k. unat a = d * 10 ^ k"
      then obtain k where "unat a = d * 10 ^ k" ..
      with m that show "\<exists>k. unat a div 10 = d * 10 ^ k" by (cases k) auto
    next
      assume "\<exists>k. unat a div 10 = d * 10 ^ k"
      then obtain k where "unat a div 10 = d * 10 ^ k" ..
      with m have "unat a = d * 10 ^ Suc k" by auto
      then show "\<exists>k. unat a = d * 10 ^ k" ..
    qed
    then have "(\<exists>d k. 0 < d \<and> d < 10 \<and> unat (a div 10) = d * 10 ^ k) \<longleftrightarrow>
        (\<exists>d k. 0 < d \<and> d < 10 \<and> unat a = d * 10 ^ k)"
      by (simp add: unat_div) blast
    with 1(1) [OF _ nz] 1(2) True show ?thesis
      by (simp add: strip_zeros.simps [of a])
  next
    case False
    then have m: "unat a mod 10 \<noteq> 0" by (simp add: word_unat_eq_iff unat_mod)
    have "a < 10 \<longleftrightarrow> (\<exists>d k. 0 < d \<and> d < 10 \<and> unat a = d * 10 ^ k)"
    proof
      assume "a < 10"
      then show "\<exists>d k. 0 < d \<and> d < 10 \<and> unat a = d * 10 ^ k"
        using 1(2) by (intro exI [of _ "unat a"] exI [of _ 0]) (simp add: word_less_nat_alt unat_gt_0)
    next
      assume "\<exists>d k. 0 < d \<and> d < 10 \<and> unat a = d * 10 ^ k"
      then obtain d k where "d < 10" "unat a = d * 10 ^ k" by blast
      with m show "a < 10" by (cases k) (auto simp: word_less_nat_alt)
    qed
    with False show ?thesis by (simp add: strip_zeros.simps [of a])
  qed
qed

lemma pretty_loop_eq:
  "pretty_loop n order out = out @ concat (map (\<lambda>k. map (\<lambda>d. of_nat d * (order * 10 ^ k)) [1..<10]) [0..<n])"
proof (induction n arbitrary: order out)
  case (Suc n)
  have digits: "map (\<lambda>d. d * order) [1, 2, 3, 4, 5, 6, 7, 8, 9] = map (\<lambda>d. of_nat d * order) [1..<10]"
    by (simp add: upt_rec)
  have "map (\<lambda>k. map (\<lambda>d. of_nat d * (order * 10 * 10 ^ k)) [1..<10]) [0..<n] =
      map (\<lambda>k. map (\<lambda>d. of_nat d * (order * 10 ^ k)) [1..<10]) [1..<Suc n]"
    by (simp add: map_Suc_upt [symmetric] comp_def mult.assoc del: upt_Suc)
  then show ?case
    by (simp only: pretty_loop.simps Suc digits upt_conv_Cons [of 0 "Suc n"]) simp
qed simp

lemma unat_pretty: "d < 10 \<Longrightarrow> k < 19 \<Longrightarrow> unat (of_nat d * 10 ^ k :: u64) = d * 10 ^ k"
proof -
  assume "d < 10" "k < 19"
  then have "d * 10 ^ k \<le> 9 * 10 ^ 18"
    by (intro mult_mono power_increasing) auto
  then have "unat (of_nat (d * 10 ^ k) :: u64) = d * 10 ^ k" by (intro unat_of_nat_less) simp
  then show ?thesis by simp
qed

lemma unat_pretty_amounts:
  "map unat pretty_amounts = concat (map (\<lambda>k. map (\<lambda>d. d * 10 ^ k) [1..<10]) [0..<19])"
  unfolding pretty_amounts_def pretty_loop_eq
  by (auto simp: map_concat unat_pretty simp del: upt_Suc intro!: arg_cong [of _ _ concat])

lemma in_digit_table:
  "x \<in> set (concat (map (\<lambda>k. map (\<lambda>d. d * 10 ^ k) [1..<10]) [0..<n])) \<longleftrightarrow>
     (\<exists>d k. 0 < d \<and> d < 10 \<and> k < n \<and> x = d * 10 ^ k)" for x :: nat
  unfolding set_concat set_map image_image UN_iff set_upt image_iff Bex_def atLeastLessThan_iff
  by (metis One_nat_def Suc_le_eq le0)

lemma digit_table_sorted:
  "sorted_wrt (<) (concat (map (\<lambda>k. map (\<lambda>d. d * 10 ^ k) [1..<10]) [0..<n]))"
  "x \<in> set (concat (map (\<lambda>k. map (\<lambda>d. d * 10 ^ k) [1..<10]) [0..<n])) \<Longrightarrow> x < 10 ^ n" for x :: nat
proof -
  have less: "x < 10 ^ n" if "x \<in> set (concat (map (\<lambda>k. map (\<lambda>d. d * 10 ^ k) [1..<10]) [0..<n]))" for x n :: nat
  proof -
    from that obtain d k where "d < 10" "k < n" "x = d * 10 ^ k"
      unfolding in_digit_table by blast
    then have "x < 10 ^ Suc k" "(10::nat) ^ Suc k \<le> 10 ^ n"
      by (simp, intro power_increasing) auto
    then show ?thesis by (rule less_le_trans)
  qed
  then show "x \<in> set (concat (map (\<lambda>k. map (\<lambda>d. d * 10 ^ k) [1..<10]) [0..<n])) \<Longrightarrow> x < 10 ^ n" .
  show "sorted_wrt (<) (concat (map (\<lambda>k. map (\<lambda>d. d * 10 ^ k) [1..<10]) [0..<n]))"
  proof (induction n)
    case (Suc n)
    have "sorted_wrt (<) (map (\<lambda>d. d * 10 ^ n) [1..<10])" by (simp add: sorted_wrt_map)
    moreover have "10 ^ n \<le> y" if "y \<in> set (map (\<lambda>d. d * 10 ^ n) [1..<10])" for y :: nat using that by auto
    ultimately show ?case
      unfolding upt_Suc_append [OF le0] map_append concat_append sorted_wrt_append
      using Suc less_le_trans [OF less [of _ n]] by (simp del: upt_Suc set_concat)
  qed simp
qed

lemma in_pretty_amounts:
  "a \<in> set pretty_amounts \<longleftrightarrow> (\<exists>d k. 0 < d \<and> d < 10 \<and> k < 19 \<and> unat a = d * 10 ^ k)"
proof -
  have "a \<in> set pretty_amounts \<longleftrightarrow> unat a \<in> set (map unat pretty_amounts)"
    by (auto dest: word_unat_eq_iff [THEN iffD2])
  then show ?thesis unfolding unat_pretty_amounts in_digit_table .
qed

text \<open>\<open>is_pretty_amount\<close> is membership in the table \<open>pretty_amounts\<close>, whose 171 entries ascend strictly.\<close>

theorem pretty_amounts_table:
  "(is_pretty_amount a \<longleftrightarrow> a \<in> set pretty_amounts) \<and> sorted_wrt (<) pretty_amounts \<and>
   length pretty_amounts = 171"
proof (intro conjI)
  show "sorted_wrt (<) pretty_amounts"
    using digit_table_sorted(1) [of 19] unfolding unat_pretty_amounts [symmetric] sorted_map_unat .
  have "length pretty_amounts = length (map unat pretty_amounts)" by simp
  also have "\<dots> = 171" unfolding unat_pretty_amounts by (simp add: length_concat comp_def sum_list_triv del: upt_Suc)
  finally show "length pretty_amounts = 171" .
  show "is_pretty_amount a \<longleftrightarrow> a \<in> set pretty_amounts"
  proof (cases "a = 0 \<or> a > 9000000000000000000")
    case True
    have "\<not> (0 < d \<and> d < 10 \<and> k < 19 \<and> unat a = d * 10 ^ k)" for d k
    proof
      assume *: "0 < d \<and> d < 10 \<and> k < 19 \<and> unat a = d * 10 ^ k"
      then have "d * 10 ^ k \<le> 9 * 10 ^ 18" by (intro mult_mono power_increasing) auto
      with * True show False by (auto simp: word_less_nat_alt)
    qed
    with True show ?thesis unfolding in_pretty_amounts by (auto simp: is_pretty_amount_def)
  next
    case False
    have "k < 19" if "0 < d" "unat a = d * 10 ^ k" for d k
    proof (rule ccontr)
      assume "\<not> k < 19"
      then have "1 * 10 ^ 19 \<le> d * (10::nat) ^ k" using that(1) by (intro mult_mono power_increasing) auto
      with that(2) False show False by (simp add: word_less_nat_alt)
    qed
    with False strip_zeros_digit [of a] show ?thesis
      unfolding in_pretty_amounts by (auto simp: is_pretty_amount_def)
  qed
qed

section \<open>Transaction proof of work\<close>

text \<open>A transaction owes proof of work exactly from height 1,123,000 on; above 1,200,000 a normal
  transaction owes 40,000 plus 1,000 for every input and 4,000 for every output, saturated at the
  largest 64-bit value in place of wrapping to a small one.\<close>

theorem transaction_pow_difficulty_value:
  "map_option unat (transaction_pow_difficulty h is_fusion inputs outputs) =
     (if unat h < 1123000 then None
      else if unat h \<le> 1200000 then Some (if is_fusion then 60000 else 20000)
      else Some (if is_fusion then 320000
        else min (40000 + 1000 * (unat inputs + 4 * unat outputs)) (2 ^ 64 - 1)))"
  by (simp add: transaction_pow_difficulty_def const_defs arith_simps word_less_nat_alt word_le_nat_alt min_def)

end
