(* ===== verification/Windows.thy ===== *)
theory Windows
  imports Constants "HOL-Library.Product_Lexorder"
begin

text \<open>
  The slices of the chain a windowed replay covers (\<open>wrkz-chain/src/windows.rs\<close>): the windows around
  every height where a rule changes, the random sample, and the merge that makes one run of windows that
  touch. \<open>dedup\<close> of the code is \<open>remdups_adj\<close>.
\<close>

section \<open>Windows\<close>

record window =
  win_start :: u32
  win_end :: u32

definition FORK_HEIGHTS :: "u64 list" where
  "FORK_HEIGHTS =
     [1, 40000, 100000, 302400, 430000, 543000, 600000, 678500, 777777, 832000, 864864, 1000000, 1123000,
      1200000, 1500000, 1800000, 2500000, 2800000, 3500000, 3800000, 4300000, 4500000]"

definition LAST_CHECKPOINT_HEIGHT :: u64 where "LAST_CHECKPOINT_HEIGHT = 4188000"

definition fork_heights :: "u64 list" where
  "fork_heights = remdups_adj (sort (map snd UPGRADE_HEIGHTS @ FORK_HEIGHTS @
     [MIXIN_LIMITS_V1_HEIGHT, MIXIN_LIMITS_V2_HEIGHT, MIXIN_LIMITS_V3_HEIGHT, MIXIN_LIMITS_V4_HEIGHT,
      MIXIN_LIMITS_V5_HEIGHT, MIXIN_LIMITS_V6_HEIGHT,
      MINIMUM_FEE_V1_HEIGHT, MINIMUM_FEE_V1_HEIGHT + 1, MINIMUM_FEE_PER_BYTE_V1_HEIGHT,
      MINIMUM_FEE_PER_BYTE_V2_HEIGHT,
      ZAWY_DIFFICULTY_BLOCK_INDEX, LWMA_2_DIFFICULTY_BLOCK_INDEX, LWMA_2_DIFFICULTY_BLOCK_INDEX_V3,
      TRANSACTION_SIGNATURE_COUNT_VALIDATION_HEIGHT, MAX_EXTRA_SIZE_V2_HEIGHT,
      MAX_EXTRA_SIZE_V2_HEIGHT + CRYPTONOTE_MINED_MONEY_UNLOCK_WINDOW, BLOCK_BLOB_SHUFFLE_CHECK_HEIGHT,
      TRANSACTION_INPUT_BLOCKTIME_VALIDATION_HEIGHT, NORMAL_TX_MAX_OUTPUT_COUNT_V1_HEIGHT, MAX_OUTPUT_SIZE_HEIGHT,
      DUST_THRESHOLD_V2_HEIGHT, FUSION_DUST_THRESHOLD_HEIGHT_V2, FUSION_FEE_V1_HEIGHT, FUSION_ZERO_FEE_V2_HEIGHT,
      TRANSACTION_POW_HEIGHT, TRANSACTION_POW_HEIGHT_DYN_V1, TRANSACTION_POW_PASS_WITH_FEE_HEIGHT,
      FIXED_REWARD_V1_HEIGHT, UNLOCK_TIME_HEIGHT, UNLOCK_TIME_HEIGHT_V2, LAST_CHECKPOINT_HEIGHT]))"

definition around :: "u64 \<Rightarrow> u32 \<Rightarrow> u32 \<Rightarrow> window option" where
  "around height wnd tip =
     (let w = ucast (max wnd 1) :: u64;
          s = max (saturating_sub height (w - 1)) 1;
          e = min (saturating_add height w) (ucast tip)
      in if s > e \<or> s > ucast tip then None else Some \<lparr>win_start = ucast s, win_end = ucast e\<rparr>)"

text \<open>The loop of \<open>merge\<close>; the last window pushed is the head of the reversed output.\<close>

fun merge_loop :: "window list \<Rightarrow> window list \<Rightarrow> window list" where
  "merge_loop out [] = rev out"
| "merge_loop out (w # ws) =
     (case out of
        l # out' \<Rightarrow>
          if win_start w \<le> saturating_add (win_end l) 1 then
            merge_loop (l\<lparr>win_end := max (win_end l) (win_end w)\<rparr> # out') ws
          else merge_loop (w # out) ws
      | [] \<Rightarrow> merge_loop (w # out) ws)"

definition merge_windows :: "window list \<Rightarrow> window list" where
  "merge_windows ws = merge_loop [] (sort_key (\<lambda>w. (win_start w, win_end w)) ws)"

definition fork_windows :: "u32 \<Rightarrow> u32 \<Rightarrow> window list" where
  "fork_windows wnd tip = merge_windows (List.map_filter (\<lambda>h. around h wnd tip) fork_heights)"

text \<open>SplitMix64: the value and the advanced state.\<close>

definition splitmix64 :: "u64 \<Rightarrow> u64 \<times> u64" where
  "splitmix64 state =
     (let state = state + 0x9E3779B97F4A7C15;
          z = state;
          z = (z XOR drop_bit 30 z) * 0xBF58476D1CE4E5B9;
          z = (z XOR drop_bit 27 z) * 0x94D049BB133111EB
      in (z XOR drop_bit 31 z, state))"

primrec sample_loop :: "nat \<Rightarrow> u64 \<Rightarrow> u32 \<Rightarrow> u32 \<Rightarrow> u64 \<Rightarrow> window list \<Rightarrow> window list" where
  "sample_loop 0 span wnd tip state picked = picked"
| "sample_loop (Suc n) span wnd tip state picked =
     (let (r, state) = splitmix64 state;
          s = 1 + ucast (r mod span) :: u32;
          e = ucast (min (ucast s + ucast wnd - 1) (ucast tip) :: u64)
      in sample_loop n span wnd tip state (picked @ [\<lparr>win_start = s, win_end = e\<rparr>]))"

definition sample_windows :: "u32 \<Rightarrow> u32 \<Rightarrow> u64 \<Rightarrow> u32 \<Rightarrow> window list" where
  "sample_windows cnt wnd seed tip =
     (let wnd = max wnd 1 in
      if tip < 1 then []
      else
        let highest_start = max (saturating_sub (ucast tip + 1) (ucast wnd)) 1
        in merge_windows (sample_loop (unat cnt) highest_start wnd tip seed []))"

section \<open>What a list of windows covers\<close>

definition indexes :: "window \<Rightarrow> nat set" where
  "indexes w = {unat (win_start w)..unat (win_end w)}"

definition covered :: "window list \<Rightarrow> nat set" where
  "covered ws = (\<Union>w\<in>set ws. indexes w)"

definition window_ok :: "window \<Rightarrow> bool" where
  "window_ok w \<longleftrightarrow> win_start w \<le> win_end w"

text \<open>Ascending, none empty, and between two neighbours at least one index is missing.\<close>

definition separated :: "window list \<Rightarrow> bool" where
  "separated ws \<longleftrightarrow> list_all window_ok ws \<and>
     sorted_wrt (\<lambda>v w. unat (win_end v) + 1 < unat (win_start w)) ws"

lemma covered_simps [simp]:
  "covered [] = {}" "covered (w # ws) = indexes w \<union> covered ws" "covered (vs @ ws) = covered vs \<union> covered ws"
  "covered (rev ws) = covered ws"
  by (auto simp: covered_def)

lemma touches_iff:
  "win_start w \<le> saturating_add (win_end l) 1 \<longleftrightarrow> unat (win_start w) \<le> unat (win_end l) + 1"
proof -
  have b: "unat (win_start w) \<le> 4294967295" using unat_u32_less [of "win_start w"] by linarith
  show ?thesis using b by (auto simp: word_le_nat_alt arith_simps min_def)
qed

lemma indexes_join:
  assumes "window_ok l" "window_ok w" "win_start l \<le> win_start w" "unat (win_start w) \<le> unat (win_end l) + 1"
  shows "indexes (l\<lparr>win_end := max (win_end l) (win_end w)\<rparr>) = indexes l \<union> indexes w"
  using assms by (auto simp: indexes_def window_ok_def word_le_nat_alt max_def)

lemma merge_loop_correct:
  assumes "sorted_wrt (\<lambda>v w. win_start v \<le> win_start w) (rev out @ ws)" "list_all window_ok ws"
    "separated (rev out)"
  shows "covered (merge_loop out ws) = covered out \<union> covered ws \<and> separated (merge_loop out ws)"
  using assms
proof (induction out ws rule: merge_loop.induct)
  case (2 out w ws)
  show ?case
  proof (cases out)
    case Nil
    then show ?thesis using 2 by (simp add: separated_def)
  next
    case (Cons l out')
    have lw: "win_start l \<le> win_start w" and ok: "window_ok l" "window_ok w"
      using 2(4,5,6) Cons by (simp_all add: sorted_wrt_append separated_def)
    show ?thesis
    proof (cases "unat (win_start w) \<le> unat (win_end l) + 1")
      case True
      let ?l = "l\<lparr>win_end := max (win_end l) (win_end w)\<rparr>"
      have "sorted_wrt (\<lambda>v w. win_start v \<le> win_start w) (rev (?l # out') @ ws)"
        using 2(4) Cons by (simp add: sorted_wrt_append)
      moreover have "separated (rev (?l # out'))"
        using 2(6) Cons ok by (auto simp: separated_def sorted_wrt_append window_ok_def max_def)
      ultimately show ?thesis
        using 2(2) [OF Cons] 2(5) True Cons indexes_join [OF ok lw True] by (auto simp: touches_iff)
    next
      case False
      have "separated (rev (w # out))"
        using 2(4,6) Cons ok False
        by (auto simp: separated_def sorted_wrt_append word_le_nat_alt)
      then show ?thesis
        using 2(3) [OF Cons] 2(4,5) False Cons by (auto simp: touches_iff)
    qed
  qed
qed simp

lemma merge_windows_correct:
  assumes "list_all window_ok ws"
  shows "covered (merge_windows ws) = covered ws" "separated (merge_windows ws)"
proof -
  let ?s = "sort_key (\<lambda>w. (win_start w, win_end w)) ws"
  have "sorted (map (\<lambda>w. (win_start w, win_end w)) ?s)" by simp
  then have "sorted_wrt (\<lambda>v w. win_start v \<le> win_start w) ?s"
    unfolding sorted_map by (rule sorted_wrt_mono_rel [rotated]) (auto simp: less_eq_prod_def)
  moreover have "list_all window_ok ?s" using assms by (simp add: list_all_iff)
  moreover have "covered ?s = covered ws" by (simp add: covered_def)
  ultimately show "covered (merge_windows ws) = covered ws" "separated (merge_windows ws)"
    using merge_loop_correct [of "[]" ?s] by (simp_all add: merge_windows_def separated_def)
qed


lemma unat_max_min: "unat (max a b) = max (unat a) (unat b)" "unat (min a b) = min (unat a) (unat b)"
  for a b :: "'a::len word"
  by (auto simp: max_def min_def word_le_nat_alt)

lemma min_min_le: "(t :: nat) \<le> m \<Longrightarrow> min (min x m) t = min x t"
  by simp

text \<open>The indexes within \<open>wnd\<close> blocks of a height, on the two sides, that the chain has.\<close>

definition near :: "u64 \<Rightarrow> u32 \<Rightarrow> u32 \<Rightarrow> nat set" where
  "near h wnd tip = {i. unat h < i + max (unat wnd) 1 \<and> i \<le> unat h + max (unat wnd) 1 \<and> 1 \<le> i \<and> i \<le> unat tip}"

lemma around_correct:
  "case around h wnd tip of None \<Rightarrow> near h wnd tip = {} | Some v \<Rightarrow> window_ok v \<and> indexes v = near h wnd tip"
proof -
  let ?w = "ucast (max wnd 1) :: u64" and ?W = "max (unat wnd) 1"
  let ?s = "max (saturating_sub h (?w - 1)) 1" and ?e = "min (saturating_add h ?w) (ucast tip)"
  have W: "unat ?w = ?W" by (simp add: unat_max_min)
  then have "unat (?w - 1) = ?W - 1"
    by (subst unat_sub) (simp_all add: word_le_nat_alt)
  then have s: "unat ?s = max (unat h - (?W - 1)) 1" by (simp add: unat_max_min arith_simps)
  have t: "unat tip < 4294967296" by simp
  then have e: "unat ?e = min (unat h + ?W) (unat tip)"
    using min_min_le [of "unat tip" 18446744073709551615 "unat h + ?W"] less_imp_le [OF less_le_trans [OF t]]
    by (simp add: unat_max_min arith_simps W)
  have le: "unat ?e \<le> unat tip" unfolding e by simp
  have near: "near h wnd tip = {unat ?s..unat ?e}"
    unfolding s e by (auto simp: near_def)
  have cast: "unat (ucast x :: u32) = unat x" if "unat x \<le> unat tip" for x :: u64
    using le_less_trans [OF that t] by (simp add: unsigned_ucast_eq take_bit_nat_eq_self)
  show ?thesis
  proof (cases "?s > ?e \<or> ?s > ucast tip")
    case True
    then have "unat ?e < unat ?s"
      unfolding word_less_nat_alt using le_less_trans [OF le] by (elim disjE) simp_all
    then show ?thesis using True near by (simp add: around_def Let_def)
  next
    case False
    then have "unat ?s \<le> unat ?e" "unat ?e \<le> unat tip" "unat ?s \<le> unat tip"
      unfolding word_less_nat_alt not_less de_Morgan_disj using le by simp_all
    with False near cast show ?thesis
      by (simp add: around_def Let_def window_ok_def indexes_def word_le_nat_alt)
  qed
qed

lemma covered_map_filter_around:
  "covered (List.map_filter (\<lambda>h. around h wnd tip) hs) = (\<Union>h\<in>set hs. near h wnd tip)"
proof (induction hs)
  case (Cons h hs)
  then show ?case
    using around_correct [of h wnd tip] by (cases "around h wnd tip") (simp_all add: map_filter_simps)
qed (simp add: map_filter_simps)

lemma window_ok_map_filter_around: "list_all window_ok (List.map_filter (\<lambda>h. around h wnd tip) hs)"
proof (induction hs)
  case (Cons h hs)
  then show ?case
    using around_correct [of h wnd tip] by (cases "around h wnd tip") (simp_all add: map_filter_simps)
qed (simp add: map_filter_simps)

text \<open>C35: the fork windows hold exactly the blocks of the chain, genesis apart, within the window of a height
  where a rule changes, on both sides of it, so the last block under every old rule and the first under the
  new one are replayed; they ascend, and between two of them a block is missing, so no block is replayed
  twice.\<close>

theorem fork_windows_exact:
  "covered (fork_windows wnd tip) = (\<Union>h\<in>set fork_heights. near h wnd tip) \<and> separated (fork_windows wnd tip)"
proof -
  let ?ws = "List.map_filter (\<lambda>h. around h wnd tip) fork_heights"
  have "list_all window_ok ?ws" by (rule window_ok_map_filter_around)
  from merge_windows_correct [OF this] show ?thesis
    unfolding fork_windows_def covered_map_filter_around by (intro conjI)
qed

section \<open>The random sample\<close>

lemma sample_loop_ok:
  assumes "1 \<le> unat span" "unat span \<le> unat tip" "1 \<le> unat wnd" "list_all (\<lambda>w. window_ok w \<and> indexes w \<subseteq> {1..unat tip}) picked"
  shows "list_all (\<lambda>w. window_ok w \<and> indexes w \<subseteq> {1..unat tip}) (sample_loop n span wnd tip state picked)"
  using assms(4)
proof (induction n arbitrary: state picked)
  case (Suc n)
  obtain r st where r: "splitmix64 state = (r, st)" by fastforce
  let ?s = "1 + ucast (r mod span) :: u32"
  let ?e = "ucast (min (ucast ?s + ucast wnd - 1) (ucast tip) :: u64) :: u32"
  have t: "unat tip < 4294967296" by simp
  have "unat r mod unat span < unat span" using assms(1) by simp
  then have m: "unat r mod unat span < unat tip" using assms(2) by linarith
  have "unat (ucast (r mod span) :: u32) = unat r mod unat span"
    using less_trans [OF m t] by (simp add: unsigned_ucast_eq take_bit_nat_eq_self unat_mod)
  then have s: "unat ?s = Suc (unat r mod unat span)"
    using le_less_trans [OF Suc_leI [OF m] t] by (simp add: unat_word_ariths)
  have w: "unat wnd < 4294967296" by simp
  have "unat (ucast ?s + ucast wnd - 1 :: u64) = unat ?s + unat wnd - 1"
    using t w s m assms(3) by (subst unat_sub) (simp_all add: word_le_nat_alt unat_word_ariths del: unat_u32_less)
  then have "unat (min (ucast ?s + ucast wnd - 1) (ucast tip) :: u64) = min (unat ?s + unat wnd - 1) (unat tip)"
    by (simp add: unat_max_min)
  moreover have "min (unat ?s + unat wnd - 1) (unat tip) < 4294967296" using t by linarith
  ultimately have e: "unat ?e = min (unat ?s + unat wnd - 1) (unat tip)"
    by (simp add: unsigned_ucast_eq take_bit_nat_eq_self)
  have "window_ok \<lparr>win_start = ?s, win_end = ?e\<rparr> \<and> indexes \<lparr>win_start = ?s, win_end = ?e\<rparr> \<subseteq> {1..unat tip}"
    using m assms(3) unfolding window_ok_def indexes_def word_le_nat_alt by (simp only: e s window.simps) auto
  then show ?case
    using Suc.prems by (simp only: sample_loop.simps r Let_def prod.case) (rule Suc.IH, simp)
qed simp


text \<open>Whatever the seed, the sample stays within the chain, genesis apart, and replays no block twice.\<close>

lemma sample_windows_ok:
  "covered (sample_windows cnt wnd seed tip) \<subseteq> {1..unat tip} \<and> separated (sample_windows cnt wnd seed tip)"
proof (cases "tip < 1")
  case True
  then show ?thesis by (simp add: sample_windows_def separated_def)
next
  case False
  let ?w = "max wnd 1" and ?h = "max (saturating_sub (ucast tip + 1) (ucast (max wnd 1))) 1 :: u64"
  let ?p = "sample_loop (unat cnt) ?h ?w tip seed []"
  have tip: "1 \<le> unat tip" using False by (simp add: word_less_nat_alt)
  have t: "unat tip < 4294967296" by simp
  have "unat (ucast tip + 1 :: u64) = unat tip + 1"
    using less_trans [OF t, of 18446744073709551615] by (simp add: unat_word_ariths)
  then have h: "unat ?h = max (unat tip + 1 - max (unat wnd) 1) 1"
    by (simp only: unat_max_min arith_simps unat_ucast_up) (simp add: unat_max_min)
  have "list_all (\<lambda>w. window_ok w \<and> indexes w \<subseteq> {1..unat tip}) ?p"
    by (rule sample_loop_ok) (use h tip in \<open>simp_all add: unat_max_min\<close>)
  then have "list_all window_ok ?p" and "covered ?p \<subseteq> {1..unat tip}"
    by (auto simp: list_all_iff covered_def)
  with merge_windows_correct [of ?p] show ?thesis
    using False by (simp add: sample_windows_def Let_def)
qed

end
