(* ===== verification/Fees_Mixins.thy ===== *)
theory Fees_Mixins
  imports Constants
begin

text \<open>
  The fee rules of \<open>fees.rs\<close> and the mixin tiers of \<open>mixins.rs\<close>. The fee per byte is an IEEE double
  in the code; a non-negative double is modelled by a mantissa and a binary exponent, and a product
  is the exact product rounded to 53 bits, half to even.
\<close>

section \<open>Doubles\<close>

type_synonym f64 = "nat \<times> int"

fun bit_length :: "nat \<Rightarrow> nat" where
  "bit_length m = (if m = 0 then 0 else Suc (bit_length (m div 2)))"

declare bit_length.simps [simp del]

definition f64_round :: "f64 \<Rightarrow> f64" where
  "f64_round x =
     (case x of (m, e) \<Rightarrow>
        if m < 2 ^ 53 then (m, e)
        else let k = bit_length m - 53; q = m div 2 ^ k; r = m mod 2 ^ k
          in (if 2 ^ k < 2 * r \<or> 2 * r = 2 ^ k \<and> odd q then q + 1 else q, e + int k))"

definition f64_mul :: "f64 \<Rightarrow> f64 \<Rightarrow> f64" where
  "f64_mul x y = f64_round (fst x * fst y, snd x + snd y)"

definition f64_of_u64 :: "u64 \<Rightarrow> f64" where
  "f64_of_u64 v = f64_round (unat v, 0)"

text \<open>\<open>as u64\<close> truncates and saturates.\<close>

definition f64_floor :: "f64 \<Rightarrow> nat" where
  "f64_floor x = (if snd x \<ge> 0 then fst x * 2 ^ nat (snd x) else fst x div 2 ^ nat (- snd x))"

definition u64_of_f64 :: "f64 \<Rightarrow> u64" where
  "u64_of_f64 x = of_nat (min (f64_floor x) (2 ^ 64 - 1))"

text \<open>\<open>>\<close> compares the two mantissas at the smaller exponent.\<close>

definition f64_greater :: "f64 \<Rightarrow> f64 \<Rightarrow> bool" where
  "f64_greater x y = (let e = min (snd x) (snd y)
     in fst x * 2 ^ nat (snd x - e) > fst y * 2 ^ nat (snd y - e))"

section \<open>Fee rules\<close>

definition MINIMUM_FEE_PER_BYTE_V1 :: f64 where "MINIMUM_FEE_PER_BYTE_V1 = (500, - 8)"
definition MINIMUM_FEE_PER_BYTE_V2 :: f64 where "MINIMUM_FEE_PER_BYTE_V2 = (10, - 7)"

definition transaction_fee :: "nat \<Rightarrow> u64 \<Rightarrow> f64 \<Rightarrow> u64" where
  "transaction_fee tx_size h fee_per_byte =
     (if h \<le> MINIMUM_FEE_V1_HEIGHT + 1 then MINIMUM_FEE
      else if h < MINIMUM_FEE_PER_BYTE_V1_HEIGHT then MINIMUM_FEE_V1
      else if h < MINIMUM_FEE_PER_BYTE_V2_HEIGHT then
        let chunks = div_ceil (of_nat tx_size) FEE_PER_BYTE_CHUNK_SIZE
        in u64_of_f64 (f64_mul (f64_mul (f64_of_u64 chunks) fee_per_byte) (f64_of_u64 FEE_PER_BYTE_CHUNK_SIZE))
      else
        let chunks = div_ceil (of_nat tx_size) FEE_PER_BYTE_CHUNK_SIZE_V2
        in u64_of_f64 (f64_mul (f64_mul (f64_of_u64 chunks) fee_per_byte) (f64_of_u64 FEE_PER_BYTE_CHUNK_SIZE_V2)))"

definition minimum_transaction_fee :: "nat \<Rightarrow> u64 \<Rightarrow> u64" where
  "minimum_transaction_fee tx_size h =
     (let rate = (if f64_greater (f64_of_u64 h) MINIMUM_FEE_PER_BYTE_V1 then MINIMUM_FEE_PER_BYTE_V2
                  else MINIMUM_FEE_PER_BYTE_V1)
      in transaction_fee tx_size h rate)"

definition required_minimum_fee :: "nat \<Rightarrow> u64 \<Rightarrow> u64" where
  "required_minimum_fee tx_size h =
     (if h \<ge> MINIMUM_FEE_PER_BYTE_V1_HEIGHT then minimum_transaction_fee tx_size h
      else if h > MINIMUM_FEE_V1_HEIGHT + 1 then MINIMUM_FEE_V1
      else MINIMUM_FEE)"

definition is_valid_normal_fee :: "u64 \<Rightarrow> nat \<Rightarrow> u64 \<Rightarrow> bool" where
  "is_valid_normal_fee tx_fee tx_size h \<longleftrightarrow> tx_fee \<noteq> 0 \<and> tx_fee \<ge> required_minimum_fee tx_size h"

definition is_valid_fusion_fee :: "u64 \<Rightarrow> u64 \<Rightarrow> bool" where
  "is_valid_fusion_fee tx_fee h =
     (if FUSION_FEE_V1_HEIGHT \<le> h \<and> h < FUSION_ZERO_FEE_V2_HEIGHT then tx_fee \<ge> FUSION_FEE_V1 else True)"

definition wallet_max_tx_size :: "u64 \<Rightarrow> u64" where
  "wallet_max_tx_size height =
     min (max_block_cumulative_size height) 125000 - of_nat CRYPTONOTE_COINBASE_BLOB_RESERVED_SIZE"

section \<open>Mixin tiers\<close>

record mixin_range =
  mixin_min :: u64
  mixin_max :: u64
  mixin_default :: u64

definition mixin_allowable_range :: "u64 \<Rightarrow> mixin_range" where
  "mixin_allowable_range height =
     (if height \<ge> MIXIN_LIMITS_V6_HEIGHT then
        \<lparr>mixin_min = MINIMUM_MIXIN_V6, mixin_max = MAXIMUM_MIXIN_V6, mixin_default = DEFAULT_MIXIN_V6\<rparr>
      else if height \<ge> MIXIN_LIMITS_V5_HEIGHT then
        \<lparr>mixin_min = MINIMUM_MIXIN_V5, mixin_max = MAXIMUM_MIXIN_V5, mixin_default = DEFAULT_MIXIN_V5\<rparr>
      else if height \<ge> MIXIN_LIMITS_V4_HEIGHT then
        \<lparr>mixin_min = MINIMUM_MIXIN_V4, mixin_max = MAXIMUM_MIXIN_V4, mixin_default = DEFAULT_MIXIN_V4\<rparr>
      else if height \<ge> MIXIN_LIMITS_V3_HEIGHT then
        \<lparr>mixin_min = MINIMUM_MIXIN_V3, mixin_max = MAXIMUM_MIXIN_V3, mixin_default = DEFAULT_MIXIN_V3\<rparr>
      else if height \<ge> MIXIN_LIMITS_V2_HEIGHT then
        \<lparr>mixin_min = MINIMUM_MIXIN_V2, mixin_max = MAXIMUM_MIXIN_V2, mixin_default = DEFAULT_MIXIN_V2\<rparr>
      else if height \<ge> MIXIN_LIMITS_V1_HEIGHT then
        \<lparr>mixin_min = MINIMUM_MIXIN_V1, mixin_max = MAXIMUM_MIXIN_V1, mixin_default = DEFAULT_MIXIN_V1\<rparr>
      else \<lparr>mixin_min = 0, mixin_max = - 1, mixin_default = DEFAULT_MIXIN_V0\<rparr>)"

datatype mixin_error =
  TooLarge u64 u64
| TooSmall u64 u64

definition ring_bounds :: "nat list \<Rightarrow> u64 \<times> u64" where
  "ring_bounds ring_sizes =
     fold (\<lambda>r (largest_ring, smallest_ring).
             let r = of_nat r in
             (if r > largest_ring then r else largest_ring, if r < smallest_ring then r else smallest_ring))
       ring_sizes (1, - 1)"

definition validate_ring_sizes :: "nat list \<Rightarrow> u64 \<Rightarrow> mixin_error + unit" where
  "validate_ring_sizes ring_sizes height =
     (let range = mixin_allowable_range height;
          (largest_ring, smallest_ring) = ring_bounds ring_sizes;
          have_key_input = (ring_sizes \<noteq> []);
          smallest_ring =
            (if \<not> have_key_input \<or> smallest_ring < 1 then if have_key_input then 1 else largest_ring
             else smallest_ring);
          largest_mixin = largest_ring - 1;
          smallest_mixin = (if height \<ge> MIXIN_LIMITS_V6_HEIGHT then smallest_ring - 1 else largest_mixin)
      in if largest_mixin > mixin_max range then Inl (TooLarge largest_mixin (mixin_max range))
         else if smallest_mixin < mixin_min range then Inl (TooSmall smallest_mixin (mixin_min range))
         else Inr ())"

section \<open>The fee schedule\<close>

lemma bit_length_le: "m \<noteq> 0 \<Longrightarrow> 2 ^ (bit_length m - 1) \<le> m"
proof (induction m rule: bit_length.induct)
  case (1 m)
  show ?case
  proof (cases "m div 2 = 0")
    case True
    with 1(2) show ?thesis by (simp add: bit_length.simps [of m] bit_length.simps [of 0])
  next
    case False
    then have pos: "0 < bit_length (m div 2)" by (subst bit_length.simps) simp
    from 1 False have "2 * 2 ^ (bit_length (m div 2) - 1) \<le> m" by simp
    with pos 1(2) show ?thesis by (simp add: bit_length.simps [of m] flip: power_Suc)
  qed
qed

lemma f64_round_exact [simp]: "m < 2 ^ 53 \<Longrightarrow> f64_round (m, e) = (m, e)"
  by (simp add: f64_round_def)

lemma f64_round_large: "2 ^ 53 \<le> m \<Longrightarrow> \<exists>q k. f64_round (m, e) = (q, e + int k) \<and> 2 ^ 52 \<le> q"
proof -
  assume m: "2 ^ 53 \<le> m"
  let ?k = "bit_length m - 53"
  have "2 ^ 52 \<le> m div 2 ^ ?k"
  proof (cases "53 \<le> bit_length m")
    case True
    then have "52 + ?k = bit_length m - 1" by simp
    then have "(2::nat) ^ 52 * 2 ^ ?k = 2 ^ (bit_length m - 1)" by (simp only: flip: power_add)
    also have "\<dots> \<le> m" using m by (intro bit_length_le) auto
    finally show ?thesis by (simp add: less_eq_div_iff_mult_less_eq)
  qed (use m in auto)
  with m show ?thesis by (auto simp: f64_round_def Let_def)
qed

lemma f64_height: "2 \<le> h \<Longrightarrow> f64_greater (f64_of_u64 h) MINIMUM_FEE_PER_BYTE_V1"
proof (cases "unat h < 2 ^ 53")
  case True
  assume "2 \<le> h"
  with True show ?thesis
    by (simp add: f64_of_u64_def f64_greater_def MINIMUM_FEE_PER_BYTE_V1_def word_le_nat_alt)
next
  case False
  then obtain q k where "f64_of_u64 h = (q, int k)" "2 ^ 52 \<le> q"
    using f64_round_large [of "unat h" 0] by (auto simp: f64_of_u64_def)
  moreover have "500 < q * 2 ^ nat (int k + 8)" if "2 ^ 52 \<le> q"
    using that mult_le_mono [of 501 q 1 "2 ^ nat (int k + 8)"] by simp
  ultimately show ?thesis
    by (simp add: f64_greater_def MINIMUM_FEE_PER_BYTE_V1_def)
qed

lemma f64_fee:
  assumes "unat c < 2 ^ 40"
  shows "unat (u64_of_f64 (f64_mul (f64_mul (f64_of_u64 c) (10, - 7)) (f64_of_u64 256))) = 20 * unat c"
    and "unat (u64_of_f64 (f64_mul (f64_mul (f64_of_u64 c) (10, - 7)) (f64_of_u64 128))) = 10 * unat c"
proof -
  have "u64_of_f64 (f64_mul (f64_mul (f64_of_u64 c) (10, - 7)) (f64_of_u64 256)) = of_nat (20 * unat c)"
      "u64_of_f64 (f64_mul (f64_mul (f64_of_u64 c) (10, - 7)) (f64_of_u64 128)) = of_nat (10 * unat c)"
    using assms by (simp_all add: f64_of_u64_def f64_mul_def u64_of_f64_def f64_floor_def)
  moreover have "20 * unat c < 2 ^ LENGTH(64)" "10 * unat c < 2 ^ LENGTH(64)" using assms by simp_all
  ultimately show
    "unat (u64_of_f64 (f64_mul (f64_mul (f64_of_u64 c) (10, - 7)) (f64_of_u64 256))) = 20 * unat c"
    "unat (u64_of_f64 (f64_mul (f64_mul (f64_of_u64 c) (10, - 7)) (f64_of_u64 128))) = 10 * unat c"
    by (simp_all only: unat_of_nat_less)
qed

text \<open>C30: the minimum fee of a normal transaction, in whole numbers although the code multiplies
  doubles: 5 up to height 678,501, 50,000 below 832,000, then 20 per started 256 bytes and from
  1,500,000 on 10 per started 128 bytes.\<close>

theorem required_minimum_fee_schedule:
  assumes "tx_size < 2 ^ 46"
  shows "unat (required_minimum_fee tx_size h) =
    (if unat h \<le> 678501 then 5 else if unat h < 832000 then 50000
     else if unat h < 1500000 then 20 * ((tx_size + 255) div 256)
     else 10 * ((tx_size + 127) div 128))"
proof -
  let ?c = "\<lambda>b. div_ceil (of_nat tx_size) b :: u64"
  have c: "unat (?c 256) = (tx_size + 255) div 256" "unat (?c 128) = (tx_size + 127) div 128"
    using assms by (simp_all add: unat_div_ceil)
  then have small: "unat (?c 256) < 2 ^ 40" "unat (?c 128) < 2 ^ 40" using assms by auto
  have h: "f64_greater (f64_of_u64 h) MINIMUM_FEE_PER_BYTE_V1" if "832000 \<le> unat h"
    using that by (intro f64_height) (simp add: word_le_nat_alt)
  show ?thesis
    using h c small f64_fee
    by (simp add: required_minimum_fee_def minimum_transaction_fee_def transaction_fee_def const_defs
        MINIMUM_FEE_PER_BYTE_V2_def word_le_nat_alt word_less_nat_alt)
qed

theorem required_minimum_fee_schedule_witness:
  "unat (required_minimum_fee 1025 1000000) = 100 \<and> unat (required_minimum_fee 1025 2000000) = 90"
  using required_minimum_fee_schedule [of 1025 1000000] required_minimum_fee_schedule [of 1025 2000000] by simp

section \<open>Sizes and mixins\<close>

text \<open>The size limit a wallet builds to: the subtraction never wraps, even where the growth term does.\<close>

lemma wallet_max_tx_size_bounds:
  "99400 \<le> unat (wallet_max_tx_size height)" "unat (wallet_max_tx_size height) \<le> 124400"
proof -
  let ?g = "height * MAX_BLOCK_SIZE_GROWTH_SPEED_NUMERATOR div MAX_BLOCK_SIZE_GROWTH_SPEED_DENOMINATOR"
  have "unat ?g \<le> (2 ^ 64 - 1) div 525600"
    using less_imp_le_nat [OF unat_u64_less [of "height * 102400"]]
    by (simp add: unat_div const_defs div_le_mono [THEN order_trans])
  then have "unat (max_block_cumulative_size height) = 100000 + unat ?g"
    by (simp add: max_block_cumulative_size_def unat_add_small const_defs)
  then have "100000 \<le> unat (min (max_block_cumulative_size height) 125000)"
      "unat (min (max_block_cumulative_size height) 125000) \<le> 125000"
    by (auto simp: min_def word_le_nat_alt)
  then show "99400 \<le> unat (wallet_max_tx_size height)" "unat (wallet_max_tx_size height) \<le> 124400"
    by (simp_all add: wallet_max_tx_size_def unat_sub word_le_nat_alt const_defs)
qed

lemma ring_bounds_fold:
  assumes "\<forall>r\<in>set rs. r < 2 ^ 64"
  shows "fold (\<lambda>r (l, s). let r = of_nat r in (if r > l then r else l, if r < s then r else s)) rs (l, s) =
    (of_nat (Max (insert (unat l) (set rs))), of_nat (Min (insert (unat s) (set rs))) :: u64)"
  using assms
proof (induction rs arbitrary: l s)
  case (Cons r rs)
  have r: "unat (of_nat r :: u64) = r" using Cons.prems by (intro unat_of_nat_less) simp
  have *: "max (unat l) (Max (insert r X)) = Max (insert (max (unat l) r) X)"
    "min (unat s) (Min (insert r X)) = Min (insert (min (unat s) r) X)" if "finite X" for X
    using that by (cases "X = {}"; simp add: max.assoc min.assoc)+
  have "unat (if of_nat r > l then of_nat r else l) = max (unat l) r"
      "unat (if of_nat r < s then of_nat r else s) = min (unat s) r"
    by (auto simp: word_less_nat_alt r)
  with Cons show ?case by (simp add: Let_def *)
qed simp

lemma ring_bounds_eq:
  assumes "\<forall>r\<in>set rs. r < 2 ^ 64"
  shows "unat (fst (ring_bounds rs)) = Max (insert 1 (set rs))"
    and "unat (snd (ring_bounds rs)) = Min (insert (2 ^ 64 - 1) (set rs))"
proof -
  have "Max (insert 1 (set rs)) < 2 ^ LENGTH(64)" "Min (insert (2 ^ 64 - 1) (set rs)) < 2 ^ LENGTH(64)"
    using assms by (simp_all add: Min_less_iff)
  from this [THEN unat_of_nat_less]
  show "unat (fst (ring_bounds rs)) = Max (insert 1 (set rs))"
      "unat (snd (ring_bounds rs)) = Min (insert (2 ^ 64 - 1) (set rs))"
    unfolding ring_bounds_def ring_bounds_fold [OF assms] by simp_all
qed

text \<open>C31: from height 4,300,000 a transaction passes the mixin rule exactly when it has a key input
  and every ring has two to eight members; between 1,000,000 and there, exactly when no ring has
  more than two members and at least one has two.\<close>

theorem validate_ring_sizes_rule:
  assumes "list_all (\<lambda>r. r < 2 ^ 64) rs" and "1000000 \<le> unat h"
  shows "validate_ring_sizes rs h = Inr () \<longleftrightarrow>
    (if 4300000 \<le> unat h then rs \<noteq> [] \<and> list_all (\<lambda>r. 2 \<le> r \<and> r \<le> 8) rs
     else 2 \<in> set rs \<and> list_all (\<lambda>r. r \<le> 2) rs)"
proof -
  obtain l s where ls: "ring_bounds rs = (l, s)" by fastforce
  have "\<forall>r\<in>set rs. r < 2 ^ 64" using assms(1) by (simp add: list_all_iff)
  note b = ring_bounds_eq [OF this, unfolded ls fst_conv snd_conv]
  have l: "1 \<le> unat l" "unat (l - 1) = unat l - 1" 
    using b(1) by (simp_all add: unat_sub word_le_nat_alt)
  have s: "unat (s - 1) = unat s - 1" if "1 \<le> unat s" using that by (simp add: unat_sub word_le_nat_alt)
  have le: "unat l \<le> k \<longleftrightarrow> (\<forall>r\<in>set rs. r \<le> k)" if "1 \<le> k" for k
    using that by (simp add: b(1))
  have ge: "2 \<le> unat l \<longleftrightarrow> (\<exists>r\<in>set rs. 2 \<le> r)"
    by (simp add: b(1) Max_ge_iff)
  have min: "2 \<le> unat s \<longleftrightarrow> (\<forall>r\<in>set rs. 2 \<le> r)"
    by (simp add: b(2))
  show ?thesis
  proof (cases "4300000 \<le> unat h")
    case True
    then have range: "mixin_allowable_range h = \<lparr>mixin_min = 1, mixin_max = 7, mixin_default = 7\<rparr>"
        "h \<ge> MIXIN_LIMITS_V6_HEIGHT"
      by (simp_all add: mixin_allowable_range_def const_defs word_le_nat_alt)
    show ?thesis
    proof (cases "rs = []")
      case empty: True
      then have "l = 1" using b(1) by (simp add: word_unat_eq_iff)
      then show ?thesis
        using True empty ls by (simp add: validate_ring_sizes_def range Let_def)
    next
      case False
      show ?thesis
        using True l s le [of 8] min False
        by (cases "unat s = 0")
           (auto simp: validate_ring_sizes_def ls range word_less_nat_alt Let_def list_all_iff)
    qed
  next
    case False
    then have range: "mixin_allowable_range h = \<lparr>mixin_min = 1, mixin_max = 1, mixin_default = 1\<rparr>"
        "\<not> h \<ge> MIXIN_LIMITS_V6_HEIGHT"
      using assms(2) by (simp_all add: mixin_allowable_range_def const_defs word_le_nat_alt)
    show ?thesis
      using False l le [of 2] ge
      by (auto simp: validate_ring_sizes_def ls range word_less_nat_alt Let_def list_all_iff)
  qed
qed

theorem validate_ring_sizes_rule_witness:
  "validate_ring_sizes [2, 8, 3] 4300000 = Inr () \<and> validate_ring_sizes [2, 1] 4299999 = Inr () \<and>
   validate_ring_sizes [2, 1] 4300000 \<noteq> Inr ()"
  using validate_ring_sizes_rule [of "[2, 8, 3]" 4300000] validate_ring_sizes_rule [of "[2, 1]" 4299999]
    validate_ring_sizes_rule [of "[2, 1]" 4300000] by simp

end
