(* ===== verification/Difficulty.thy ===== *)
theory Difficulty
  imports Fees_Mixins "HOL-Library.Signed_Division"
begin

text \<open>
  The difficulty algorithms of \<open>difficulty.rs\<close>. An \<open>i64\<close> is an \<open>int\<close> whose operations are reduced by
  \<open>i64_wrap\<close> wherever the code can wrap; \<open>/\<close> is division truncated toward zero. The one panic of the
  code, a division whose wrapped divisor is zero, is \<open>Inl DivideByZero\<close>.
\<close>

section \<open>Signed 64-bit arithmetic\<close>

definition i64_wrap :: "int \<Rightarrow> int" where
  "i64_wrap x = signed_take_bit 63 x"

definition i64_MAX :: int where "i64_MAX = 2 ^ 63 - 1"

definition clamp :: "int \<Rightarrow> int \<Rightarrow> int \<Rightarrow> int" where
  "clamp x low high = (if x < low then low else if x > high then high else x)"

section \<open>LWMA-2\<close>

definition lwma_step :: "u64 list \<Rightarrow> int \<Rightarrow> int \<Rightarrow> nat \<Rightarrow> int \<times> int \<Rightarrow> int \<times> int" where
  "lwma_step timestamps clamp_low clamp_high i = (\<lambda>(l, sum_3_st).
     let st = i64_wrap (sint (timestamps ! i) - sint (timestamps ! (i - 1)));
         st = clamp st clamp_low clamp_high
     in (i64_wrap (l + i64_wrap (st * int i)),
         if int i > int DIFFICULTY_WINDOW_V3 - 3 then i64_wrap (sum_3_st + st) else sum_3_st))"

definition lwma_common ::
  "u64 list \<Rightarrow> u64 list \<Rightarrow> int \<Rightarrow> int \<Rightarrow> int \<Rightarrow> int \<Rightarrow> panic + (int \<times> int \<times> int) option" where
  "lwma_common timestamps cum clamp_low clamp_high band_low band_high =
     (let t = sint DIFFICULTY_TARGET;
          n = DIFFICULTY_WINDOW_V3;
          (l, sum_3_st) = fold (lwma_step timestamps clamp_low clamp_high) [1..<n + 1] (0, 0)
      in if l = 0 then Inr None
         else
           let total = sint (cum ! n - cum ! 0);
               scaled = i64_wrap (i64_wrap (i64_wrap (total * t) * (int n + 1)) * 99);
               divisor = i64_wrap (100 * 2 * l)
           in if divisor = 0 then Inl DivideByZero
              else
                let next_d = scaled sdiv divisor;
                    prev_d = sint (cum ! n - cum ! (n - 1));
                    low = i64_wrap (prev_d * band_low) sdiv 100;
                    high = i64_wrap (prev_d * band_high) sdiv 100
                in Inr (Some (max low (min next_d high), prev_d, sum_3_st)))"

definition windows_long_enough :: "u64 list \<Rightarrow> u64 list \<Rightarrow> bool" where
  "windows_long_enough timestamps cum =
     (let need = DIFFICULTY_WINDOW_V3 + 1 in length timestamps \<ge> need \<and> length cum \<ge> need)"

text \<open>The tail the three versions share: \<open>?\<close> on the window, the adjustment and the cast to \<open>u64\<close>.\<close>

definition lwma_finish ::
  "panic + (int \<times> int \<times> int) option \<Rightarrow> (int \<Rightarrow> int \<Rightarrow> int) \<Rightarrow> panic + u64 option" where
  "lwma_finish common adjust =
     (case common of Inl p \<Rightarrow> Inl p | Inr None \<Rightarrow> Inr None
      | Inr (Some (next_d, prev_d, sum_3_st)) \<Rightarrow>
          Inr (Some (of_int (if sum_3_st < (8 * sint DIFFICULTY_TARGET) sdiv 10 then adjust next_d prev_d else next_d))))"

definition next_difficulty_v5 :: "u64 list \<Rightarrow> u64 list \<Rightarrow> panic + u64 option" where
  "next_difficulty_v5 timestamps cum =
     (if \<not> windows_long_enough timestamps cum then Inr (Some 10000)
      else let t = sint DIFFICULTY_TARGET in
        lwma_finish (lwma_common timestamps cum (- 4 * t) (6 * t) 67 150)
          (\<lambda>next_d prev_d. max next_d (i64_wrap (prev_d * 108) sdiv 100)))"

definition next_difficulty_v4 :: "u64 list \<Rightarrow> u64 list \<Rightarrow> panic + u64 option" where
  "next_difficulty_v4 timestamps cum =
     (if \<not> windows_long_enough timestamps cum then Inr (Some 1000)
      else let t = sint DIFFICULTY_TARGET in
        lwma_finish (lwma_common timestamps cum (- 6 * t) i64_MAX 67 150)
          (\<lambda>next_d prev_d. max next_d (i64_wrap (prev_d * 110) sdiv 100)))"

definition next_difficulty_v3 :: "u64 list \<Rightarrow> u64 list \<Rightarrow> panic + u64 option" where
  "next_difficulty_v3 timestamps cum =
     (if \<not> windows_long_enough timestamps cum then Inr (Some 1000)
      else let t = sint DIFFICULTY_TARGET; ftl = sint CRYPTONOTE_BLOCK_FUTURE_TIME_LIMIT_V3 in
        lwma_finish (lwma_common timestamps cum (- ftl) (6 * t) 70 107)
          (\<lambda>next_d prev_d. i64_wrap (prev_d * 110) sdiv 100))"

section \<open>The legacy algorithm\<close>

definition ZAWY_DIFFICULTY_V2 :: bool where "ZAWY_DIFFICULTY_V2 = False"

text \<open>The 128-bit product of a work and the target time.\<close>

definition work_product :: "u64 \<Rightarrow> 128 word" where
  "work_product work = ucast work * ucast DIFFICULTY_TARGET"

definition nonzero_span :: "u64 \<Rightarrow> u64" where
  "nonzero_span span = (if span = 0 then 1 else span)"

definition next_difficulty_legacy :: "u8 \<Rightarrow> u64 \<Rightarrow> u64 list \<Rightarrow> u64 list \<Rightarrow> u64 option" where
  "next_difficulty_legacy version parent_index timestamps_in cum_in =
     (let window = difficulty_window version;
          cut = difficulty_cut version;
          len = min (length timestamps_in) window
      in if len \<le> 1 then Some 1
      else if length cum_in < len then None
      else
        let timestamps_o = take len timestamps_in;
            cum = take len cum_in;
            timestamps = sort timestamps_o;
            (cut_begin, cut_end) =
              (if len \<le> window - 2 * cut then (0, len)
               else let b = (len - (window - 2 * cut) + 1) div 2 in (b, b + (window - 2 * cut)));
            time_span = nonzero_span (timestamps ! (cut_end - 1) - timestamps ! cut_begin);
            total_work = cum ! (cut_end - 1) - cum ! cut_begin;
            product = work_product total_work;
            low = ucast product :: u64;
            high = ucast (drop_bit 64 product) :: u64
        in if high \<noteq> 0 \<or> - 1 - low < time_span - 1 then Some 0
        else
          let zawy_version = (if ZAWY_DIFFICULTY_V2 then 2 else ZAWY_DIFFICULTY_DIFFICULTY_BLOCK_VERSION)
          in if version \<ge> zawy_version \<and> zawy_version \<noteq> 0 then Some (low div time_span)
          else if ZAWY_DIFFICULTY_BLOCK_INDEX \<noteq> 0 \<and> ZAWY_DIFFICULTY_BLOCK_INDEX \<le> parent_index then
            let t_window = min 17 (length timestamps_o);
                ts = sort (drop (length timestamps_o - t_window) timestamps_o);
                cd = drop (length cum - t_window) cum;
                span = nonzero_span (ts ! (t_window - 1) - ts ! 0);
                p = work_product (cd ! (t_window - 1) - cd ! 0)
            in if drop_bit 64 p \<noteq> 0 then Some 0
               else Some (max (ucast p div span) 100)
          else Some (div_ceil low time_span))"

section \<open>The dispatch\<close>

definition next_difficulty :: "u8 \<Rightarrow> u64 \<Rightarrow> u64 list \<Rightarrow> u64 list \<Rightarrow> panic + u64 option" where
  "next_difficulty next_version parent_index timestamps cumulative_difficulties =
     (if parent_index \<ge> LWMA_2_DIFFICULTY_BLOCK_INDEX_V3 then
        next_difficulty_v5 timestamps cumulative_difficulties
      else if parent_index \<ge> LWMA_2_DIFFICULTY_BLOCK_INDEX_V2 then
        next_difficulty_v4 timestamps cumulative_difficulties
      else if parent_index \<ge> LWMA_2_DIFFICULTY_BLOCK_INDEX then
        next_difficulty_v3 timestamps cumulative_difficulties
      else Inr (next_difficulty_legacy next_version parent_index timestamps cumulative_difficulties))"

definition is_valid_difficulty :: "u64 \<Rightarrow> bool" where
  "is_valid_difficulty d \<longleftrightarrow> d \<noteq> 0"

section \<open>The live algorithm\<close>

lemma i64_wrap_id [simp]: "- (2 ^ 63) \<le> x \<Longrightarrow> x < 2 ^ 63 \<Longrightarrow> i64_wrap x = x"
  unfolding i64_wrap_def by (rule signed_take_bit_int_eq_self) simp_all

lemma clamp_bounds: "low \<le> high \<Longrightarrow> low \<le> clamp x low high" "low \<le> high \<Longrightarrow> clamp x low high \<le> high"
  by (simp_all add: clamp_def)

text \<open>The weighted sum of clamped solvetimes, in plain integers.\<close>

definition solvetime :: "u64 list \<Rightarrow> nat \<Rightarrow> int" where
  "solvetime timestamps i =
     clamp (i64_wrap (sint (timestamps ! i) - sint (timestamps ! (i - 1)))) (- 240) 360"

definition weighted_solvetimes :: "u64 list \<Rightarrow> int" where
  "weighted_solvetimes timestamps = (\<Sum>i\<leftarrow>[1..<61]. solvetime timestamps i * int i)"

lemma solvetime_bounds: "- 240 \<le> solvetime ts i" "solvetime ts i \<le> 360"
  by (simp_all add: solvetime_def clamp_bounds)

lemma lwma_fold:
  assumes "k \<le> 60"
  shows "fst (fold (lwma_step ts (- 240) 360) [1..<Suc k] (0, 0)) = (\<Sum>i\<leftarrow>[1..<Suc k]. solvetime ts i * int i)"
    and "\<bar>\<Sum>i\<leftarrow>[1..<Suc k]. solvetime ts i * int i\<bar> \<le> 360 * 60 * int k"
  using assms
proof (induction k)
  case (Suc k)
  case 1
  let ?st = "solvetime ts (Suc k) * int (Suc k)"
  have "\<bar>?st\<bar> \<le> 360 * 60"
    using solvetime_bounds [of ts "Suc k"] 1 unfolding abs_mult by (intro mult_mono) auto
  then have st: "i64_wrap ?st = ?st" "\<bar>?st\<bar> \<le> 360 * 60" by auto
  obtain l s where ls: "fold (lwma_step ts (- 240) 360) [1..<Suc k] (0, 0) = (l, s)" by fastforce
  with Suc.IH 1 have l: "l = (\<Sum>i\<leftarrow>[1..<Suc k]. solvetime ts i * int i)" "\<bar>l\<bar> \<le> 360 * 60 * int k" by auto
  with st 1 have "i64_wrap (l + ?st) = l + ?st" by (intro i64_wrap_id) auto
  then show "fst (fold (lwma_step ts (- 240) 360) [1..<Suc (Suc k)] (0, 0)) =
      (\<Sum>i\<leftarrow>[1..<Suc (Suc k)]. solvetime ts i * int i)"
    using ls l(1) st(1) by (simp add: lwma_step_def Let_def solvetime_def split del: if_split)
  case 2
  show ?case using l st by (simp add: algebra_simps)
qed simp_all

lemma sint_small: "unat (w::u64) < 2 ^ 63 \<Longrightarrow> sint w = int (unat w)"
proof -
  assume "unat w < 2 ^ 63"
  then have "int (unat w) < int (2 ^ 63)" by (simp only: of_nat_less_iff)
  then have "uint w < 2 ^ 63" by simp
  then have "signed_take_bit 63 (uint w) = uint w"
    by (intro signed_take_bit_int_eq_self) (use order_trans [OF _ uint_ge_0 [of w]] in simp_all)
  then show ?thesis by (simp add: sint_uint)
qed

lemma sdiv_nonneg: "0 \<le> x \<Longrightarrow> x sdiv 100 = x div (100::int)"
  by (simp add: signed_divide_int_def sgn_if)

lemma unat_of_int_small: "0 \<le> x \<Longrightarrow> x < 2 ^ 64 \<Longrightarrow> int (unat (of_int x :: u64)) = x"
  by (simp add: unsigned_of_int take_bit_int_eq_self)

lemma lwma_v5_common:
  assumes "windows_long_enough ts cum"
    and "unat (cum ! 60 - cum ! 59) * 150 < 2 ^ 63"
  defines "prev \<equiv> int (unat (cum ! 60 - cum ! 59))"
  shows "weighted_solvetimes ts = 0 \<Longrightarrow> lwma_common ts cum (- 240) 360 67 150 = Inr None"
    and "weighted_solvetimes ts \<noteq> 0 \<Longrightarrow>
      \<exists>next_d sum. lwma_common ts cum (- 240) 360 67 150 = Inr (Some (next_d, prev, sum)) \<and>
        prev * 67 div 100 \<le> next_d \<and> next_d \<le> prev * 150 div 100"
proof -
  obtain l s where ls: "fold (lwma_step ts (- 240) 360) [1..<60 + 1] (0, 0) = (l, s)" by fastforce
  have l: "l = weighted_solvetimes ts" "\<bar>l\<bar> \<le> 360 * 60 * 60"
    using lwma_fold [of 60 ts] ls by (simp_all add: weighted_solvetimes_def del: upt_Suc)
  have "int (unat (cum ! 60 - cum ! 59) * 150) < int (2 ^ 63)" using assms(2) by (simp only: of_nat_less_iff)
  then have prev: "0 \<le> prev" "prev * 150 < 2 ^ 63" "sint (cum ! 60 - cum ! 59) = prev"
    using assms(2) sint_small [of "cum ! 60 - cum ! 59"] unfolding prev_def by simp_all
  have "i64_wrap (prev * 67) = prev * 67" "i64_wrap (prev * 150) = prev * 150"
    using prev(1,2) by (intro i64_wrap_id; linarith)+
  then have bands: "i64_wrap (prev * 67) sdiv 100 = prev * 67 div 100" "i64_wrap (prev * 150) sdiv 100 = prev * 150 div 100"
    using prev(1) sdiv_nonneg by simp_all
  have "i64_wrap (100 * 2 * l) = 200 * l" using l(2) by (subst i64_wrap_id) auto
  then have "lwma_common ts cum (- 240) 360 67 150 =
      (if l = 0 then Inr None else Inr (Some (max (prev * 67 div 100)
        (min (i64_wrap (i64_wrap (i64_wrap (sint (cum ! 60 - cum ! 0) * 60) * 61) * 99) sdiv (200 * l))
          (prev * 150 div 100)), prev, s)))"
    unfolding lwma_common_def const_defs Let_def ls
    using prev(3) bands by simp
  then obtain x where common: "lwma_common ts cum (- 240) 360 67 150 =
      (if l = 0 then Inr None else Inr (Some (max (prev * 67 div 100) (min x (prev * 150 div 100)), prev, s)))"
    by blast
  then show "weighted_solvetimes ts = 0 \<Longrightarrow> lwma_common ts cum (- 240) 360 67 150 = Inr None"
    using l(1) by simp
  have "prev * 67 div 100 \<le> prev * 150 div 100" using prev(1) by (intro zdiv_mono1 mult_left_mono) simp_all
  then have "prev * 67 div 100 \<le> max (prev * 67 div 100) (min x (prev * 150 div 100))"
      "max (prev * 67 div 100) (min x (prev * 150 div 100)) \<le> prev * 150 div 100"
    by (simp_all only: max.cobounded1 max.bounded_iff min.cobounded2 simp_thms)
  with common l(1) show "weighted_solvetimes ts \<noteq> 0 \<Longrightarrow>
      \<exists>next_d sum. lwma_common ts cum (- 240) 360 67 150 = Inr (Some (next_d, prev, sum)) \<and>
        prev * 67 div 100 \<le> next_d \<and> next_d \<le> prev * 150 div 100"
    by (simp only: if_False) blast
qed

text \<open>C29: when 150 times the previous difficulty fits in 63 bits, the live algorithm never divides by zero. A window of
  fewer than 61 blocks gives the starting difficulty. From a full window it gives no difficulty exactly when
  the weighted solvetimes cancel to zero, and any difficulty it gives lies between 67\% and 150\% of the
  previous one, whatever the timestamps are.\<close>

theorem next_difficulty_v5_band:
  assumes "prev = unat (cum ! 60 - cum ! 59)" and "prev * 150 < 2 ^ 63"
  shows "if \<not> windows_long_enough ts cum then next_difficulty_v5 ts cum = Inr (Some 10000)
    else if weighted_solvetimes ts = 0 then next_difficulty_v5 ts cum = Inr None
    else \<exists>d. next_difficulty_v5 ts cum = Inr (Some d) \<and>
      prev * 67 div 100 \<le> unat d \<and> unat d \<le> prev * 150 div 100"
proof (cases "windows_long_enough ts cum")
  case long: True
  note common = lwma_v5_common [OF long assms(2) [unfolded assms(1)], folded assms(1)]
  have v5: "next_difficulty_v5 ts cum = lwma_finish (lwma_common ts cum (- 240) 360 67 150)
      (\<lambda>next_d prev_d. max next_d (i64_wrap (prev_d * 108) sdiv 100))"
    using long by (simp add: next_difficulty_v5_def const_defs)
  show ?thesis
  proof (cases "weighted_solvetimes ts = 0")
    case True
    then show ?thesis using common(1) long by (simp add: v5 lwma_finish_def)
  next
    case False
    then obtain next_d s where n: "lwma_common ts cum (- 240) 360 67 150 = Inr (Some (next_d, int prev, s))"
        "int prev * 67 div 100 \<le> next_d" "next_d \<le> int prev * 150 div 100"
      using common(2) by blast
    have adj: "i64_wrap (int prev * 108) sdiv 100 = int prev * 108 div 100"
      using assms(2) by (subst i64_wrap_id) (auto simp: sdiv_nonneg)
    define d where "d = (if s < (8 * sint DIFFICULTY_TARGET) sdiv 10 then max next_d (int prev * 108 div 100) else next_d)"
    have "int prev * 108 div 100 \<le> int prev * 150 div 100" by (intro zdiv_mono1) auto
    with n have d: "int prev * 67 div 100 \<le> d" "d \<le> int prev * 150 div 100" by (auto simp: d_def)
    have "0 \<le> int prev * 67 div 100" "int prev * 150 div 100 < 2 ^ 63" using assms(2) by auto
    with d have u: "int (unat (of_int d :: u64)) = d" by (intro unat_of_int_small) auto
    have "next_difficulty_v5 ts cum = Inr (Some (of_int d))"
      unfolding v5 n(1) lwma_finish_def by (simp add: adj d_def)
    moreover have "int (prev * 67 div 100) \<le> int (unat (of_int d :: u64))" "int (unat (of_int d :: u64)) \<le> int (prev * 150 div 100)"
      unfolding u using d by (simp_all add: zdiv_int)
    ultimately show ?thesis unfolding of_nat_le_iff using False long by auto
  qed
qed (simp add: next_difficulty_v5_def)

text \<open>A window of blocks exactly on target, at a constant difficulty of one million.\<close>

definition even_timestamps :: "u64 list" where
  "even_timestamps = map (\<lambda>i. of_nat (60 * i)) [0..<61]"

definition even_work :: "u64 list" where
  "even_work = map (\<lambda>i. of_nat (1000000 * i)) [0..<61]"

lemma even_solvetime: "1 \<le> i \<Longrightarrow> i < 61 \<Longrightarrow> solvetime even_timestamps i = 60"
proof -
  assume i: "1 \<le> i" "i < 61"
  have "sint (of_nat n :: u64) = int n" if "n < 3661" for n
    using that unat_of_nat_less [of n, where 'a = 64] sint_small [of "of_nat n"] by simp
  from this [of "60 * i"] this [of "60 * (i - 1)"] i show ?thesis
    by (simp add: solvetime_def even_timestamps_def clamp_def of_nat_diff)
qed

lemma even_window_solvetimes: "weighted_solvetimes even_timestamps = 109800"
proof -
  have "weighted_solvetimes even_timestamps = (\<Sum>i\<leftarrow>[1..<61]. 60 * int i)"
    unfolding weighted_solvetimes_def by (intro arg_cong [of _ _ sum_list] map_cong) (auto simp: even_solvetime)
  also have "\<dots> = 109800" by (simp add: upt_rec)
  finally show ?thesis .
qed

lemma even_window_long: "windows_long_enough even_timestamps even_work"
  by (simp add: windows_long_enough_def even_timestamps_def even_work_def const_defs)

lemma even_window_prev: "1000000 = unat (even_work ! 60 - even_work ! 59)"
  by (simp add: even_work_def)

theorem next_difficulty_v5_band_witness:
  "\<exists>d. next_difficulty_v5 even_timestamps even_work = Inr (Some d) \<and> 670000 \<le> unat d \<and> unat d \<le> 1500000"
proof -
  have "(1000000::nat) * 150 < 2 ^ 63" "(1000000::nat) * 67 div 100 = 670000" "(1000000::nat) * 150 div 100 = 1500000"
      "(109800::int) \<noteq> 0" by simp_all
  with next_difficulty_v5_band [OF even_window_prev, of even_timestamps, unfolded even_window_solvetimes] even_window_long
  show ?thesis by (simp only: if_False not_True_eq_False)
qed

section \<open>The dispatch and the edges\<close>

text \<open>The third LWMA-2 variant is never selected, and a short window of either kind gives the start-up
  guess and not \<open>None\<close>.\<close>

lemma next_difficulty_dispatch:
  "next_difficulty version parent ts cum =
     (if unat parent \<ge> 128800 then next_difficulty_v5 ts cum
      else if unat parent \<ge> 100000 then next_difficulty_v4 ts cum
      else Inr (next_difficulty_legacy version parent ts cum))"
  by (simp add: next_difficulty_def const_defs word_le_nat_alt)

lemma short_window_guess:
  assumes "length cum < 61"
  shows "next_difficulty_v5 ts cum = Inr (Some 10000)" "next_difficulty_v4 ts cum = Inr (Some 1000)"
  using assms by (simp_all add: next_difficulty_v5_def next_difficulty_v4_def windows_long_enough_def const_defs)



end
