(* ===== verification/Varint.thy ===== *)
theory Varint
  imports Prelude
begin

text \<open>
  Unsigned LEB128, \<open>crates/wrkz-primitives/src/varint.rs\<close>: the writer, the width-checked reader and
  the two directions of the round trip. The reader rejects a value too wide for the target and a
  zero continuation byte, so every accepted encoding is the one the writer produces; the whole
  non-malleability of the wire formats above rests on \<open>read_bits_sound\<close>.
\<close>

section \<open>Definitions\<close>

text \<open>\<open>varint::write(out, v)\<close>: appends the encoding of \<open>v\<close> to \<open>out\<close>.\<close>

function varint_write :: "bytes \<Rightarrow> u64 \<Rightarrow> bytes" where
  "varint_write out v =
     (if 0x80 \<le> v then varint_write (out @ [(ucast v AND 0x7F) OR 0x80]) (drop_bit 7 v)
      else out @ [ucast v])"
  by pat_completeness auto
termination
proof (relation "measure (\<lambda>(out, v). unat v)")
  fix out :: bytes and v :: u64
  assume "0x80 \<le> v"
  then have "128 \<le> unat v" by (simp add: word_le_nat_alt)
  then show "((out @ [(ucast v AND 0x7F) OR 0x80], drop_bit 7 v), out, v)
      \<in> measure (\<lambda>(out, v). unat v)"
    by (simp add: unat_drop_bit)
qed simp

declare varint_write.simps [simp del]

definition encode :: "u64 \<Rightarrow> bytes" where
  "encode v = varint_write [] v"

text \<open>The loop of \<open>varint::read_bits\<close>: the value so far, the shift and the bytes read.\<close>

fun read_bits_loop :: "nat \<Rightarrow> u64 \<Rightarrow> nat \<Rightarrow> nat \<Rightarrow> bytes \<Rightarrow> (u64 \<times> nat) result" where
  "read_bits_loop bits val shift i [] = Inl Truncated"
| "read_bits_loop bits val shift i (b # bs) =
     (if bits \<le> shift then Inl BadVarint
      else if b = 0 \<and> shift \<noteq> 0 then Inl BadVarint
      else
        let piece = ucast (b AND 0x7F) :: u64
        in if bits < shift + 7 \<and> drop_bit (bits - shift) piece \<noteq> 0 then Inl BadVarint
           else
             let val = val OR push_bit shift piece
             in if b AND 0x80 = 0 then Inr (val, i + 1)
                else read_bits_loop bits val (shift + 7) (i + 1) bs)"

definition read_bits :: "bytes \<Rightarrow> nat \<Rightarrow> (u64 \<times> nat) result" where
  "read_bits input bits = read_bits_loop bits 0 0 0 input"

definition read_varint :: "bytes \<Rightarrow> (u64 \<times> nat) result" where
  "read_varint input = read_bits input 64"

section \<open>The writer\<close>

lemma varint_write_append: "varint_write (pre @ out) v = pre @ varint_write out v"
proof (induction out v rule: varint_write.induct)
  case (1 out v)
  then show ?case
    by (simp add: varint_write.simps [of "pre @ out" v] varint_write.simps [of out v])
qed

lemma varint_write_eq [codec_simps]: "varint_write out v = out @ encode v"
  using varint_write_append [of out "[]" v] by (simp add: encode_def)

lemma encode_rec:
  "encode v = (if 0x80 \<le> v then ((ucast v AND 0x7F) OR 0x80) # encode (drop_bit 7 v) else [ucast v])"
  unfolding encode_def [of v] by (subst varint_write.simps) (simp add: varint_write_eq)

lemma encode_small: "\<not> 0x80 \<le> v \<Longrightarrow> encode v = [ucast v]"
  by (subst encode_rec) simp

lemma encode_big: "0x80 \<le> v \<Longrightarrow>
    encode v = ((ucast v AND 0x7F) OR 0x80) # encode (drop_bit 7 v)"
  by (subst encode_rec) simp

lemma encode_1: "encode 1 = [1]"
  by (subst encode_rec) (simp add: word_le_nat_alt)

lemmas encode_eval = encode_small encode_big encode_1

lemma unat_drop7: "unat (drop_bit 7 v :: u64) = unat v div 128"
  by (simp add: unat_drop_bit)

lemma encode_induct [case_names small big]:
  assumes small: "\<And>v. \<not> 0x80 \<le> v \<Longrightarrow> P v"
    and big: "\<And>v. 0x80 \<le> v \<Longrightarrow> P (drop_bit 7 v) \<Longrightarrow> P v"
  shows "P (v :: u64)"
proof (induction "unat v" arbitrary: v rule: less_induct)
  case less
  show ?case
  proof (cases "0x80 \<le> v")
    case True
    then have "128 \<le> unat v" by (simp add: word_le_nat_alt)
    then have "unat (drop_bit 7 v) < unat v" by (simp add: unat_drop7)
    with less True show ?thesis by (blast intro: big)
  next
    case False
    then show ?thesis by (rule small)
  qed
qed

lemma encode_not_Nil [simp]: "encode v \<noteq> []"
  by (subst encode_rec) simp

lemma length_encode_pos [simp]: "0 < length (encode v)"
  by simp

text \<open>A 64-bit value takes at most ten bytes.\<close>

lemma length_encode_le: "unat v < 2 ^ (7 * n) \<Longrightarrow> 0 < n \<Longrightarrow> length (encode v) \<le> n"
proof (induction v arbitrary: n rule: encode_induct)
  case (small v)
  then show ?case by (simp add: encode_small)
next
  case (big v)
  then obtain m where n: "n = Suc m" by (cases n) auto
  from big.hyps have "128 \<le> unat v" by (simp add: word_le_nat_alt)
  with big.prems n have m: "0 < m" by (cases m) auto
  from big.prems n have "unat v < 128 * 2 ^ (7 * m)"
    by (simp add: power_add)
  then have "unat (drop_bit 7 v) < 2 ^ (7 * m)"
    by (simp add: unat_drop7 less_mult_imp_div_less mult.commute)
  with big.IH m have "length (encode (drop_bit 7 v)) \<le> m" by blast
  with big.hyps n show ?case by (simp add: encode_big)
qed

section \<open>Reading back what was written\<close>

lemma mask_0x7F: "mask 7 = (0x7F :: 'a::len word)"
  by (simp add: mask_eq_exp_minus_1)

lemma byte_masks: "bit (0x7F :: int) n \<longleftrightarrow> n < 7" "bit (0x80 :: int) n \<longleftrightarrow> n = 7"
proof -
  have "(0x7F :: int) = mask 7" "(0x80 :: int) = 2 ^ 7"
    by (simp_all add: mask_eq_exp_minus_1)
  then show "bit (0x7F :: int) n \<longleftrightarrow> n < 7" "bit (0x80 :: int) n \<longleftrightarrow> n = 7"
    by (simp_all only: bit_mask_iff bit_exp_iff possible_bit_int simp_thms)
qed

lemma small_take_bit: "\<not> 0x80 \<le> v \<longleftrightarrow> take_bit 7 v = v" for v :: u64
  using unat_less_exp_take_bit [of v 7] by (simp add: word_le_nat_alt not_le)

lemma piece_small:
  assumes "\<not> 0x80 \<le> v"
  shows "(ucast v :: u8) AND 0x80 = 0" "ucast ((ucast v :: u8) AND 0x7F) = (v :: u64)"
    "ucast v = (0 :: u8) \<longleftrightarrow> v = 0"
proof -
  from assms have "unat v < 2 ^ 7" by (simp add: word_le_nat_alt)
  then have v: "\<And>n. bit v n \<Longrightarrow> n < 7" by (rule bit_imp_less [rotated])
  show "(ucast v :: u8) AND 0x80 = 0"
  proof (rule bit_word_eqI)
    fix n
    show "bit ((ucast v :: u8) AND 0x80) n = bit (0 :: u8) n"
      using v [of n] by (auto simp: byte_masks bit_simps)
  qed
  show "ucast ((ucast v :: u8) AND 0x7F) = v"
  proof (rule bit_word_eqI)
    fix n
    show "bit (ucast ((ucast v :: u8) AND 0x7F) :: u64) n = bit v n"
      using v [of n] by (auto simp: byte_masks bit_simps)
  qed
  show "ucast v = (0 :: u8) \<longleftrightarrow> v = 0"
  proof
    assume "ucast v = (0 :: u8)"
    then have "bit (ucast v :: u8) n = bit (0 :: u8) n" for n by simp
    with v have "\<not> bit v n" for n by (force simp: bit_simps)
    then show "v = 0" by (simp add: bit_eq_iff)
  qed simp
qed

lemma piece_big:
  "((ucast v AND 0x7F) OR 0x80) AND 0x80 \<noteq> (0 :: u8)" "(ucast v AND 0x7F) OR 0x80 \<noteq> (0 :: u8)"
  "ucast (((ucast v AND 0x7F) OR 0x80) AND (0x7F :: u8)) = (v AND 0x7F :: u64)"
proof -
  have "bit (((ucast v AND 0x7F) OR 0x80) AND 0x80 :: u8) 7"
    "bit ((ucast v AND 0x7F) OR 0x80 :: u8) 7"
    by (simp_all add: byte_masks bit_simps)
  then show "((ucast v AND 0x7F) OR 0x80) AND 0x80 \<noteq> (0 :: u8)"
    "(ucast v AND 0x7F) OR 0x80 \<noteq> (0 :: u8)"
    by auto
  show "ucast (((ucast v AND 0x7F) OR 0x80) AND (0x7F :: u8)) = (v AND 0x7F :: u64)"
    by (rule bit_word_eqI) (auto simp: byte_masks bit_simps)
qed

lemma or_push_bit_split:
  "(acc OR push_bit s (v AND 0x7F)) OR push_bit (s + 7) (drop_bit 7 v) = acc OR push_bit s v"
  for acc v :: u64
proof (rule bit_word_eqI)
  fix n
  show "bit ((acc OR push_bit s (v AND 0x7F)) OR push_bit (s + 7) (drop_bit 7 v)) n =
      bit (acc OR push_bit s v) n"
    by (cases "n < s + 7") (auto simp: byte_masks bit_simps)
qed

text \<open>The width check passes on every piece of a value that fits the remaining bits.\<close>

lemma width_check:
  assumes "unat v < 2 ^ k" shows "drop_bit k (v AND 0x7F) = (0 :: u64)"
proof -
  have "unat (v AND 0x7F) \<le> unat v"
    by (simp add: word_le_nat_alt [symmetric] word_and_le2)
  with assms have "unat (v AND 0x7F) < 2 ^ k" by simp
  then have "unat (drop_bit k (v AND 0x7F)) = 0"
    by (simp only: unat_drop_bit div_less)
  then show ?thesis by (simp only: unat_0_iff)
qed

lemma read_bits_loop_encode:
  assumes "unat v < 2 ^ (bits - s)" and "s < bits" and "s \<noteq> 0 \<Longrightarrow> v \<noteq> 0"
  shows "read_bits_loop bits acc s i (encode v @ rest)
    = Inr (acc OR push_bit s v, i + length (encode v))"
  using assms
proof (induction v arbitrary: acc s i rule: encode_induct)
  case (small v)
  have piece: "ucast ((ucast v :: u8) AND 0x7F) = v" "(ucast v :: u8) AND 0x80 = 0"
      "ucast v = (0 :: u8) \<longleftrightarrow> v = 0"
    using small.hyps by (rule piece_small)+
  have "v AND 0x7F = v"
    using small.hyps by (simp add: small_take_bit take_bit_eq_mask flip: mask_0x7F)
  with width_check [OF small.prems(1)] have width: "drop_bit (bits - s) v = 0" by simp
  have "read_bits_loop bits acc s i (ucast v # rest) = Inr (acc OR push_bit s v, i + 1)"
    unfolding read_bits_loop.simps Let_def piece width using small.prems by auto
  then show ?case by (simp add: encode_small [OF small.hyps])
next
  case (big v)
  let ?b = "(ucast v AND 0x7F) OR 0x80 :: u8"
  have piece: "ucast (?b AND 0x7F) = v AND 0x7F" "?b AND 0x80 \<noteq> 0" "?b \<noteq> 0"
    by (rule piece_big)+
  from big.hyps have v: "128 \<le> unat v" by (simp add: word_le_nat_alt)
  with big.prems(1) have "2 ^ 7 < (2 :: nat) ^ (bits - s)" by simp
  then have "7 < bits - s" by (rule power_less_imp_less_exp [rotated]) simp
  then have s: "s + 7 < bits" by simp
  then have "bits - s = 7 + (bits - (s + 7))" by simp
  then have "(2 :: nat) ^ (bits - s) = 128 * 2 ^ (bits - (s + 7))"
    by (simp only: power_add) simp
  with big.prems(1) have v': "unat (drop_bit 7 v) < 2 ^ (bits - (s + 7))"
    by (simp add: unat_drop7 less_mult_imp_div_less mult.commute)
  have "drop_bit 7 v \<noteq> 0"
    using v by (simp add: word_unat_eq_iff unat_drop7)
  then have IH: "read_bits_loop bits (acc OR push_bit s (v AND 0x7F)) (s + 7) (i + 1)
      (encode (drop_bit 7 v) @ rest)
    = Inr ((acc OR push_bit s (v AND 0x7F)) OR push_bit (s + 7) (drop_bit 7 v),
        i + 1 + length (encode (drop_bit 7 v)))"
    using v' s by (intro big.IH)
  have "read_bits_loop bits acc s i (?b # encode (drop_bit 7 v) @ rest)
    = read_bits_loop bits (acc OR push_bit s (v AND 0x7F)) (s + 7) (i + 1)
        (encode (drop_bit 7 v) @ rest)"
    unfolding read_bits_loop.simps Let_def piece(1)
    using piece(2,3) s width_check [OF big.prems(1)] by simp
  with IH show ?case
    by (simp only: encode_big [OF big.hyps] or_push_bit_split append_Cons list.size) simp
qed

section \<open>Everything the reader accepts was written by the writer\<close>

lemma piece_fits:
  assumes "s < bits" and "\<not> (bits < s + 7 \<and> drop_bit (bits - s) p \<noteq> (0 :: u64))" and "unat p < 128"
  shows "unat p < 2 ^ (bits - s)"
proof (cases "bits < s + 7")
  case True
  with assms have "unat (drop_bit (bits - s) p) = 0" by simp
  then show ?thesis by (simp add: unat_drop_bit div_eq_0_iff del: unat_eq_0)
next
  case False
  then have "(2 :: nat) ^ 7 \<le> 2 ^ (bits - s)" by (intro power_increasing) auto
  with assms(3) show ?thesis by simp
qed

lemma unat_piece: "unat (ucast (b AND 0x7F :: u8) :: u64) < 128"
proof -
  have "unat (b AND 0x7F) \<le> unat (0x7F :: u8)"
    by (simp only: word_le_nat_alt [symmetric] word_and_le1)
  then show ?thesis by simp
qed

lemma byte_of_piece:
  fixes b :: u8
  defines "p \<equiv> ucast (b AND 0x7F) :: u64"
  shows "b AND 0x80 = 0 \<Longrightarrow> ucast p = b" "b AND 0x80 \<noteq> 0 \<Longrightarrow> (ucast p AND 0x7F) OR 0x80 = b"
proof -
  have "bit (b AND 0x80) n \<longleftrightarrow> n = 7 \<and> bit b 7" for n
    by (auto simp: bit_simps byte_masks)
  then have b7: "b AND 0x80 = 0 \<longleftrightarrow> \<not> bit b 7"
    unfolding bit_eq_iff [of "b AND 0x80" 0] by simp
  have p: "bit (ucast p :: u8) n \<longleftrightarrow> n < 7 \<and> bit b n" for n
    by (auto simp: p_def bit_simps byte_masks)
  have b: "n < 7 \<or> n = 7" if "bit b n" for n
    using bit_imp_less [OF that, of 8] by auto
  show "ucast p = b" if "b AND 0x80 = 0"
  proof (rule bit_word_eqI)
    fix n
    from that b7 b [of n] show "bit (ucast p :: u8) n = bit b n" by (auto simp: p)
  qed
  show "(ucast p AND 0x7F) OR 0x80 = b" if "b AND 0x80 \<noteq> 0"
  proof (rule bit_word_eqI)
    fix n
    from that b7 b [of n] show "bit ((ucast p AND 0x7F) OR 0x80 :: u8) n = bit b n"
      by (auto simp: p bit_or_iff bit_and_iff byte_masks)
  qed
qed

lemma rejoin:
  fixes p w :: u64
  assumes p: "unat p < 128" and w: "unat w < 2 ^ k" "k + 7 \<le> 64"
  shows "drop_bit 7 (p OR push_bit 7 w) = w" "(p OR push_bit 7 w) AND 0x7F = p"
    "(ucast (p OR push_bit 7 w) :: u8) AND 0x7F = ucast p AND 0x7F"
proof -
  have p: "bit p n \<Longrightarrow> n < 7" and w: "bit w n \<Longrightarrow> n + 7 < 64" for n
    using bit_imp_less [of p n 7] bit_imp_less [of w n k] p w by auto
  show "drop_bit 7 (p OR push_bit 7 w) = w"
  proof (rule bit_word_eqI)
    fix n
    show "bit (drop_bit 7 (p OR push_bit 7 w)) n = bit w n"
      using p [of "7 + n"] w [of n] by (auto simp: bit_simps)
  qed
  show "(p OR push_bit 7 w) AND 0x7F = p"
  proof (rule bit_word_eqI)
    fix n
    show "bit ((p OR push_bit 7 w) AND 0x7F) n = bit p n"
      using p [of n] by (auto simp: bit_simps byte_masks)
  qed
  show "(ucast (p OR push_bit 7 w) :: u8) AND 0x7F = ucast p AND 0x7F"
    by (rule bit_word_eqI) (auto simp: bit_simps byte_masks)
qed

lemma read_bits_loop_sound:
  assumes "read_bits_loop bits acc s i bs = Inr (v, n)" and "bits \<le> 64"
  shows "\<exists>w rest. bs = encode w @ rest \<and> n = i + length (encode w) \<and> v = acc OR push_bit s w \<and>
    s < bits \<and> unat w < 2 ^ (bits - s) \<and> (s \<noteq> 0 \<longrightarrow> w \<noteq> 0)"
  using assms
proof (induction bits acc s i bs rule: read_bits_loop.induct)
  case (1 bits acc s i)
  then show ?case by simp
next
  case (2 bits acc s i b bs)
  let ?p = "ucast (b AND 0x7F) :: u64"
  from "2.prems"(1) have s: "s < bits" and nz: "\<not> (b = 0 \<and> s \<noteq> 0)"
    and width: "\<not> (bits < s + 7 \<and> drop_bit (bits - s) ?p \<noteq> 0)"
    by (auto simp: Let_def split: if_splits)
  have p: "unat ?p < 128" by (rule unat_piece)
  show ?case
  proof (cases "b AND 0x80 = 0")
    case True
    with "2.prems"(1) s nz width have "v = acc OR push_bit s ?p" "n = i + 1"
      by (auto simp: Let_def split: if_splits)
    moreover have "encode ?p = [b]"
      using p byte_of_piece(1) [OF True] by (simp add: encode_small word_le_nat_alt)
    moreover have "?p = 0 \<longrightarrow> b = 0"
      using byte_of_piece(1) [OF True] by auto
    ultimately show ?thesis
      using s nz piece_fits [OF s width p] by (intro exI [of _ ?p] exI [of _ bs]) auto
  next
    case False
    with "2.prems"(1) s nz width
    have "read_bits_loop bits (acc OR push_bit s ?p) (s + 7) (i + 1) bs = Inr (v, n)"
      by (auto simp: Let_def split: if_splits)
    with "2.IH" s nz width False "2.prems"(2) obtain w rest where
      w: "bs = encode w @ rest" "n = i + 1 + length (encode w)" "w \<noteq> 0"
        "v = (acc OR push_bit s ?p) OR push_bit (s + 7) w" "s + 7 < bits"
        "unat w < 2 ^ (bits - (s + 7))"
      by fastforce
    let ?w = "?p OR push_bit 7 w"
    from w(5) "2.prems"(2) have "bits - (s + 7) + 7 \<le> 64" by simp
    note join = rejoin [OF p w(6) this]
    from join(1) have div: "unat ?w div 128 = unat w" by (metis unat_drop7)
    moreover from w(3) have "unat w \<noteq> 0" by (simp add: unat_eq_0)
    ultimately have "128 \<le> unat ?w" by (metis div_less not_le)
    then have big: "0x80 \<le> ?w" by (simp add: word_le_nat_alt)
    have "(ucast ?w AND 0x7F) OR 0x80 = b"
      using byte_of_piece(2) [OF False] join(3) by simp
    then have "encode ?w = b # encode w"
      using big join(1) by (simp add: encode_big)
    moreover have "unat ?w < 2 ^ (bits - s)"
    proof -
      from w(5) have "bits - s = 7 + (bits - (s + 7))" by simp
      then have "(2 :: nat) ^ (bits - s) = 128 * 2 ^ (bits - (s + 7))"
        by (simp only: power_add) simp
      with div w(6) show ?thesis by (simp add: div_less_iff_less_mult mult.commute flip: div)
    qed
    moreover have "acc OR push_bit s ?w = v"
      using or_push_bit_split [of acc s ?w, unfolded join(1,2)] w(4) by (simp only:)
    ultimately show ?thesis
      using w s big by (intro exI [of _ ?w] exI [of _ rest]) auto
  qed
qed

section \<open>The reader and the writer at the top level\<close>

lemma read_bits_encode [codec_simps]:
  assumes "unat v < 2 ^ bits" and "0 < bits"
  shows "read_bits (encode v @ rest) bits = Inr (v, length (encode v))"
  using read_bits_loop_encode [of v bits 0 0 0 rest] assms by (simp add: read_bits_def)

lemma read_varint_encode [codec_simps]:
  "read_varint (encode v @ rest) = Inr (v, length (encode v))"
  unfolding read_varint_def by (rule read_bits_encode) simp_all

lemma read_bits_sound:
  assumes "read_bits input bits = Inr (v, n)" and "bits \<le> 64"
  obtains rest where "input = encode v @ rest" "n = length (encode v)" "unat v < 2 ^ bits"
  using read_bits_loop_sound [OF assms(1) [unfolded read_bits_def] assms(2)] by auto

lemma read_varint_sound:
  assumes "read_varint input = Inr (v, n)"
  obtains rest where "input = encode v @ rest" "n = length (encode v)"
  using read_bits_sound [OF assms [unfolded read_varint_def]] by auto

lemma length_encode_le_10: "length (encode v) \<le> 10"
  by (intro length_encode_le less_trans [OF unat_u64_less]) simp_all

end
