(* ===== verification/Ser.thy ===== *)
theory Ser
  imports Varint
begin

text \<open>
  The binary serializer, \<open>crates/wrkz-primitives/src/ser.rs\<close>: \<open>Writer\<close> is the buffer it owns,
  \<open>Reader\<close> a record of the input and a cursor, and each reading method a function from a reader to
  an error or a value and the advanced reader. The second half states once what the formats above
  rely on, as the locale \<open>codec\<close>: a decoder reads back exactly what the encoder wrote, and whatever
  it accepts is what the encoder writes for the value it returns. The locale's lemmas carry both
  directions to counted lists and to whole buffers.
\<close>

section \<open>The writer\<close>

type_synonym writer = bytes

definition w_varint :: "writer \<Rightarrow> u64 \<Rightarrow> writer" where
  "w_varint w v = varint_write w v"

definition w_u8_raw :: "writer \<Rightarrow> u8 \<Rightarrow> writer" where
  "w_u8_raw w v = w @ [v]"

definition w_bool :: "writer \<Rightarrow> bool \<Rightarrow> writer" where
  "w_bool w v = w @ [if v then 1 else 0]"

definition w_raw :: "writer \<Rightarrow> bytes \<Rightarrow> writer" where
  "w_raw w bs = w @ bs"

definition w_bytes :: "writer \<Rightarrow> bytes \<Rightarrow> writer" where
  "w_bytes w bs = w_varint w (of_nat (length bs)) @ bs"

definition w_u32_le :: "writer \<Rightarrow> u32 \<Rightarrow> writer" where
  "w_u32_le w v = w @ to_le 4 v"

section \<open>The reader\<close>

record reader =
  rdata :: bytes
  rpos :: nat

type_synonym 'a rd = "reader \<Rightarrow> ('a \<times> reader) result"

text \<open>The \<open>?\<close> operator and early return, for a method that advances the reader.\<close>

definition rret :: "'a \<Rightarrow> 'a rd" where
  "rret v r = Inr (v, r)"

definition rfail :: "error \<Rightarrow> 'a rd" where
  "rfail e r = Inl e"

definition rbind :: "'a rd \<Rightarrow> ('a \<Rightarrow> 'b rd) \<Rightarrow> 'b rd" where
  "rbind m f r = (case m r of Inl e \<Rightarrow> Inl e | Inr (v, r') \<Rightarrow> f v r')"

text \<open>\<open>for _ in 0..n { out.push(p(r)?) }\<close>\<close>

primrec read_n :: "nat \<Rightarrow> 'a rd \<Rightarrow> 'a list rd" where
  "read_n 0 p = rret []"
| "read_n (Suc n) p = rbind p (\<lambda>x. rbind (read_n n p) (\<lambda>xs. rret (x # xs)))"

definition reader_new :: "bytes \<Rightarrow> reader" where
  "reader_new data = \<lparr>rdata = data, rpos = 0\<rparr>"

definition remaining :: "reader \<Rightarrow> nat" where
  "remaining r = length (rdata r) - rpos r"

definition varint_bits :: "nat \<Rightarrow> u64 rd" where
  "varint_bits bits r =
     (case read_bits (drop (rpos r) (rdata r)) bits of
        Inl e \<Rightarrow> Inl e
      | Inr (v, n) \<Rightarrow> Inr (v, r\<lparr>rpos := rpos r + n\<rparr>))"

definition r_varint :: "u64 rd" where
  "r_varint = varint_bits 64"

definition u8_raw :: "u8 rd" where
  "u8_raw r =
     (if rpos r < length (rdata r) then Inr (rdata r ! rpos r, r\<lparr>rpos := rpos r + 1\<rparr>)
      else Inl Truncated)"

definition r_bool :: "bool rd" where
  "r_bool = rbind u8_raw (\<lambda>b.
     if b = 0 then rret False else if b = 1 then rret True else rfail (Malformed ''bool''))"

definition raw :: "nat \<Rightarrow> bytes rd" where
  "raw n r =
     (if remaining r < n then Inl Truncated
      else Inr (take n (drop (rpos r) (rdata r)), r\<lparr>rpos := rpos r + n\<rparr>))"

definition r_hash :: "hash rd" where
  "r_hash = raw 32"

definition u32_le :: "u32 rd" where
  "u32_le = rbind (raw 4) (\<lambda>bs. rret (from_le bs))"

definition r_bytes :: "bytes rd" where
  "r_bytes = rbind r_varint (\<lambda>n r. if remaining r < unat n then Inl Truncated else raw (unat n) r)"

definition count :: "nat \<Rightarrow> nat rd" where
  "count min_elem_size = rbind r_varint (\<lambda>n r.
     if remaining r div max min_elem_size 1 < unat n then Inl Truncated else Inr (unat n, r))"

definition finish :: "reader \<Rightarrow> unit result" where
  "finish r =
     (if rpos r = length (rdata r) then Inr () else Inl (TrailingBytes (length (rdata r) - rpos r)))"

text \<open>A counted vector: \<open>let n = r.count(m)?; for _ in 0..n { v.push(p(r)?) }\<close>.\<close>

definition read_vec :: "nat \<Rightarrow> 'a rd \<Rightarrow> 'a list rd" where
  "read_vec m p = rbind (count m) (\<lambda>n. read_n n p)"

text \<open>
  The shape of every \<open>from_bytes\<close>: read one structure from the start of the buffer, then require
  the buffer to be spent.
\<close>

definition from_bytes :: "'a rd \<Rightarrow> bytes \<Rightarrow> 'a result" where
  "from_bytes p data =
     (case p (reader_new data) of
        Inl e \<Rightarrow> Inl e
      | Inr (v, r) \<Rightarrow> (case finish r of Inl e \<Rightarrow> Inl e | Inr _ \<Rightarrow> Inr v))"

section \<open>What a reading method does to the reader\<close>

lemma writer_simps [codec_simps]:
  "w_varint w v = w @ encode v" "w_u8_raw w b = w @ [b]" "w_raw w bs = w @ bs"
  "w_bool w c = w @ [if c then 1 else 0]" "w_u32_le w u = w @ to_le 4 u"
  "w_bytes w bs = w @ encode (of_nat (length bs)) @ bs"
  by (simp_all add: w_varint_def w_u8_raw_def w_raw_def w_bool_def w_u32_le_def w_bytes_def
      varint_write_eq)

text \<open>The cursor never runs past the input.\<close>

definition rd_wf :: "reader \<Rightarrow> bool" where
  "rd_wf r \<longleftrightarrow> rpos r \<le> length (rdata r)"

text \<open>\<open>reads p bs v\<close>: wherever \<open>bs\<close> comes next, \<open>p\<close> consumes exactly \<open>bs\<close> and returns \<open>v\<close>.\<close>

definition reads :: "'a rd \<Rightarrow> bytes \<Rightarrow> 'a \<Rightarrow> bool" where
  "reads p bs v \<longleftrightarrow> (\<forall>pre post.
     p \<lparr>rdata = pre @ bs @ post, rpos = length pre\<rparr> =
       Inr (v, \<lparr>rdata = pre @ bs @ post, rpos = length pre + length bs\<rparr>))"

text \<open>\<open>parses p Q\<close>: whenever \<open>p\<close> succeeds, the bytes it consumed and its value satisfy \<open>Q\<close>.\<close>

definition parses :: "'a rd \<Rightarrow> ('a \<Rightarrow> bytes \<Rightarrow> bool) \<Rightarrow> bool" where
  "parses p Q \<longleftrightarrow> (\<forall>r v r'. rd_wf r \<longrightarrow> p r = Inr (v, r') \<longrightarrow>
     (\<exists>bs. rdata r' = rdata r \<and> rpos r' = rpos r + length bs \<and> rd_wf r' \<and>
       drop (rpos r) (rdata r) = bs @ drop (rpos r') (rdata r) \<and> Q v bs))"

lemma readsD:
  "reads p bs v \<Longrightarrow> p \<lparr>rdata = pre @ bs @ post, rpos = length pre\<rparr> =
    Inr (v, \<lparr>rdata = pre @ bs @ post, rpos = length pre + length bs\<rparr>)"
  unfolding reads_def by blast

lemma reads_rret: "reads (rret v) [] v"
  by (simp add: reads_def rret_def)

lemma reads_rbind:
  assumes "reads p b1 v" and "reads (f v) b2 w"
  shows "reads (rbind p f) (b1 @ b2) w"
  unfolding reads_def
proof (intro allI)
  fix pre post
  from readsD [OF assms(1), of pre "b2 @ post"] readsD [OF assms(2), of "pre @ b1" post]
  show "rbind p f \<lparr>rdata = pre @ (b1 @ b2) @ post, rpos = length pre\<rparr> =
      Inr (w, \<lparr>rdata = pre @ (b1 @ b2) @ post, rpos = length pre + length (b1 @ b2)\<rparr>)"
    by (simp add: rbind_def add.assoc)
qed

lemma reads_rbind_rret: "reads p bs v \<Longrightarrow> reads (rbind p (\<lambda>x. rret (g x))) bs (g v)"
  using reads_rbind [OF _ reads_rret] by force

lemma reads_map: "reads p bs v \<Longrightarrow> g v = w \<Longrightarrow> reads (rbind p (\<lambda>x. rret (g x))) bs w"
  using reads_rbind_rret [of p bs v g] by simp

lemma parsesI:
  assumes "\<And>r v r'. rd_wf r \<Longrightarrow> p r = Inr (v, r') \<Longrightarrow>
    \<exists>bs. r' = r\<lparr>rpos := rpos r + length bs\<rparr> \<and> Q v bs \<and>
      drop (rpos r) (rdata r) = bs @ drop (rpos r + length bs) (rdata r)"
  shows "parses p Q"
  unfolding parses_def
proof (intro allI impI)
  fix r v r'
  assume wf: "rd_wf r" and "p r = Inr (v, r')"
  from assms [OF this] obtain bs where bs: "r' = r\<lparr>rpos := rpos r + length bs\<rparr>" "Q v bs"
      "drop (rpos r) (rdata r) = bs @ drop (rpos r + length bs) (rdata r)"
    by blast
  from arg_cong [OF bs(3), of length] wf have "rpos r + length bs \<le> length (rdata r)"
    by (simp add: rd_wf_def)
  with bs show "\<exists>bs. rdata r' = rdata r \<and> rpos r' = rpos r + length bs \<and> rd_wf r' \<and>
      drop (rpos r) (rdata r) = bs @ drop (rpos r') (rdata r) \<and> Q v bs"
    by (intro exI [of _ bs]) (simp add: rd_wf_def)
qed

lemma parsesE:
  assumes "parses p Q" and "rd_wf r" and "p r = Inr (v, r')"
  obtains bs where "r' = r\<lparr>rpos := rpos r + length bs\<rparr>" "rd_wf r'" "Q v bs"
    "drop (rpos r) (rdata r) = bs @ drop (rpos r + length bs) (rdata r)"
proof -
  from assms obtain bs where bs: "rdata r' = rdata r" "rpos r' = rpos r + length bs" "rd_wf r'"
      "drop (rpos r) (rdata r) = bs @ drop (rpos r') (rdata r)" "Q v bs"
    unfolding parses_def by blast
  then have "r' = r\<lparr>rpos := rpos r + length bs\<rparr>" by simp
  with bs show thesis by (intro that) auto
qed

lemma parses_mono: "parses p Q \<Longrightarrow> (\<And>v bs. Q v bs \<Longrightarrow> Q' v bs) \<Longrightarrow> parses p Q'"
  unfolding parses_def by blast

lemma parses_rret: "parses (rret v) (\<lambda>w bs. w = v \<and> bs = [])"
  by (rule parsesI) (simp add: rret_def)

lemma parses_rfail: "parses (rfail e) Q"
  by (rule parsesI) (simp add: rfail_def)

lemma parses_rbind:
  assumes p: "parses p Q" and f: "\<And>v b1. Q v b1 \<Longrightarrow> parses (f v) (\<lambda>w b2. R w (b1 @ b2))"
  shows "parses (rbind p f) R"
proof (rule parsesI)
  fix r w r'
  assume wf: "rd_wf r" and "rbind p f r = Inr (w, r')"
  then obtain v r1 where pr: "p r = Inr (v, r1)" and fr: "f v r1 = Inr (w, r')"
    by (auto simp: rbind_def split: sum.splits prod.splits)
  from parsesE [OF p wf pr] obtain b1 where b1: "r1 = r\<lparr>rpos := rpos r + length b1\<rparr>" "rd_wf r1"
      "Q v b1" "drop (rpos r) (rdata r) = b1 @ drop (rpos r + length b1) (rdata r)"
    by blast
  from parsesE [OF f [OF b1(3)] b1(2) fr] obtain b2 where
    "r' = r1\<lparr>rpos := rpos r1 + length b2\<rparr>" "R w (b1 @ b2)"
      "drop (rpos r1) (rdata r1) = b2 @ drop (rpos r1 + length b2) (rdata r1)"
    by blast
  with b1 show "\<exists>bs. r' = r\<lparr>rpos := rpos r + length bs\<rparr> \<and> R w bs \<and>
      drop (rpos r) (rdata r) = bs @ drop (rpos r + length bs) (rdata r)"
    by (intro exI [of _ "b1 @ b2"]) (simp add: add.assoc)
qed

lemma parses_rbind_rret: "parses p (\<lambda>v. R (g v)) \<Longrightarrow> parses (rbind p (\<lambda>x. rret (g x))) R"
  by (erule parses_rbind) (rule parses_mono [OF parses_rret], simp)

lemma parses_guard:
  assumes "\<And>r. \<not> c r \<Longrightarrow> p r = q r" and "\<And>r. c r \<Longrightarrow> \<exists>e. p r = Inl e" and "parses q Q"
  shows "parses p Q"
  using assms unfolding parses_def by (metis Inl_Inr_False)

section \<open>The codec interface\<close>

text \<open>
  \<open>enc\<close> is the byte string a \<open>write\<close> method appends, \<open>dec\<close> the reading method, and \<open>ok\<close> the values
  the format can express.
\<close>

locale codec =
  fixes enc :: "'a \<Rightarrow> bytes" and dec :: "'a rd" and ok :: "'a \<Rightarrow> bool"
  assumes dec_enc: "ok v \<Longrightarrow> reads dec (enc v) v"
    and enc_dec: "parses dec (\<lambda>v bs. ok v \<and> bs = enc v)"
begin

text \<open>The steps of a method that reads a value of this format first.\<close>

lemma reads_bind: "ok v \<Longrightarrow> reads (f v) bs w \<Longrightarrow> reads (rbind dec f) (enc v @ bs) w"
  by (rule reads_rbind [OF dec_enc])

lemma reads_last: "ok v \<Longrightarrow> g v = w \<Longrightarrow> reads (rbind dec (\<lambda>x. rret (g x))) (enc v) w"
  by (rule reads_map [OF dec_enc])

lemma parses_bind:
  "(\<And>v. ok v \<Longrightarrow> parses (f v) (\<lambda>w bs. R w (enc v @ bs))) \<Longrightarrow> parses (rbind dec f) R"
  by (rule parses_rbind [OF enc_dec]) simp

lemma parses_last: "(\<And>v. ok v \<Longrightarrow> R (g v) (enc v)) \<Longrightarrow> parses (rbind dec (\<lambda>x. rret (g x))) R"
  by (rule parses_rbind_rret [OF parses_mono [OF enc_dec]]) simp

lemma dec_n_enc: "list_all ok vs \<Longrightarrow> reads (read_n (length vs) dec) (concat (map enc vs)) vs"
proof (induction vs)
  case Nil
  then show ?case by (simp add: reads_rret)
next
  case (Cons v vs)
  then have "reads dec (enc v) v" "reads (read_n (length vs) dec) (concat (map enc vs)) vs"
    by (simp_all add: dec_enc)
  then show ?case by (auto intro: reads_rbind reads_rbind_rret)
qed

lemma enc_dec_n:
  "parses (read_n n dec) (\<lambda>vs bs. length vs = n \<and> list_all ok vs \<and> bs = concat (map enc vs))"
proof (induction n)
  case 0
  then show ?case by simp (rule parses_mono [OF parses_rret], simp)
next
  case (Suc n)
  show ?case unfolding read_n.simps
    by (rule parses_rbind [OF enc_dec], rule parses_rbind_rret, rule parses_mono [OF Suc.IH]) auto
qed

text \<open>No encoding is a proper prefix of another, so a stream of values splits in one way only.\<close>

lemma enc_prefix_free:
  assumes "ok v" and "ok w" and eq: "enc v @ s = enc w @ t"
  shows "v = w \<and> s = t"
proof -
  have "dec (reader_new (enc v @ s)) = Inr (v, \<lparr>rdata = enc v @ s, rpos = length (enc v)\<rparr>)"
    using readsD [OF dec_enc [OF assms(1)], of "[]" s] by (simp add: reader_new_def)
  moreover have "dec (reader_new (enc w @ t)) = Inr (w, \<lparr>rdata = enc w @ t, rpos = length (enc w)\<rparr>)"
    using readsD [OF dec_enc [OF assms(2)], of "[]" t] by (simp add: reader_new_def)
  ultimately have "v = w" by (simp add: eq)
  with eq show ?thesis by simp
qed

text \<open>\<open>from_bytes\<close> and the encoder are inverse to each other, with nothing lost on either side.\<close>

lemma from_bytes_iff: "from_bytes dec bs = Inr v \<longleftrightarrow> ok v \<and> bs = enc v"
proof
  assume "from_bytes dec bs = Inr v"
  then obtain r where dec: "dec (reader_new bs) = Inr (v, r)" and fin: "finish r = Inr ()"
    by (auto simp: from_bytes_def split: sum.splits)
  have "rd_wf (reader_new bs)" by (simp add: rd_wf_def reader_new_def)
  from parsesE [OF enc_dec this dec] obtain cs where
    "r = reader_new bs\<lparr>rpos := rpos (reader_new bs) + length cs\<rparr>" "ok v" "cs = enc v"
      "bs = cs @ drop (length cs) bs"
    by (auto simp: reader_new_def)
  with fin show "ok v \<and> bs = enc v"
    by (auto simp: finish_def reader_new_def split: if_splits)
next
  assume "ok v \<and> bs = enc v"
  with readsD [OF dec_enc, of v "[]" "[]"] show "from_bytes dec bs = Inr v"
    by (simp add: from_bytes_def reader_new_def finish_def)
qed

lemma from_bytes_trailing:
  "ok v \<Longrightarrow> extra \<noteq> [] \<Longrightarrow> from_bytes dec (enc v @ extra) = Inl (TrailingBytes (length extra))"
  using readsD [OF dec_enc, of v "[]" extra]
  by (simp add: from_bytes_def reader_new_def finish_def)

lemma from_bytes_truncated: "ok v \<Longrightarrow> n < length (enc v) \<Longrightarrow> \<exists>e. from_bytes dec (take n (enc v)) = Inl e"
proof (rule ccontr)
  assume v: "ok v" and n: "n < length (enc v)" and "\<nexists>e. from_bytes dec (take n (enc v)) = Inl e"
  then obtain w where "from_bytes dec (take n (enc v)) = Inr w"
    by (metis sum.exhaust)
  then have w: "ok w" "take n (enc v) = enc w" by (simp_all add: from_bytes_iff)
  have "enc w @ drop n (enc v) = enc v @ []" by (simp flip: w(2))
  with enc_prefix_free [OF w(1) v] have "drop n (enc v) = []" by blast
  with n show False by simp
qed

end

section \<open>The reader's own methods as codecs\<close>

lemma drop_split: "drop n xs = ys @ zs \<Longrightarrow> zs = drop (n + length ys) xs"
  by (metis append_eq_conv_conj drop_drop add.commute)

lemma codec_varint_bits:
  assumes "0 < bits" and "bits \<le> 64"
  shows "codec encode (varint_bits bits) (\<lambda>v. unat v < 2 ^ bits)"
proof
  fix v :: u64
  assume "unat v < 2 ^ bits"
  with assms show "reads (varint_bits bits) (encode v) v"
    by (simp add: reads_def varint_bits_def read_bits_encode)
next
  show "parses (varint_bits bits) (\<lambda>v bs. unat v < 2 ^ bits \<and> bs = encode v)"
  proof (rule parsesI)
    fix r v r'
    assume "varint_bits bits r = Inr (v, r')"
    then obtain n where n: "read_bits (drop (rpos r) (rdata r)) bits = Inr (v, n)"
        and r': "r' = r\<lparr>rpos := rpos r + n\<rparr>"
      by (auto simp: varint_bits_def split: sum.splits)
    from read_bits_sound [OF n assms(2)] obtain rest where
      "drop (rpos r) (rdata r) = encode v @ rest" "n = length (encode v)" "unat v < 2 ^ bits" .
    with r' show "\<exists>bs. r' = r\<lparr>rpos := rpos r + length bs\<rparr> \<and> (unat v < 2 ^ bits \<and> bs = encode v) \<and>
        drop (rpos r) (rdata r) = bs @ drop (rpos r + length bs) (rdata r)"
      using drop_split by (intro exI [of _ "encode v"]) auto
  qed
qed

interpretation varint8: codec encode "varint_bits 8" "\<lambda>v. unat v < 2 ^ 8"
  by (rule codec_varint_bits) simp_all

interpretation varint16: codec encode "varint_bits 16" "\<lambda>v. unat v < 2 ^ 16"
  by (rule codec_varint_bits) simp_all

interpretation varint32: codec encode "varint_bits 32" "\<lambda>v. unat v < 2 ^ 32"
  by (rule codec_varint_bits) simp_all

interpretation varint64: codec encode r_varint "\<lambda>_. True"
  using codec_varint_bits [of 64] by (simp add: r_varint_def)

interpretation byte: codec "\<lambda>b. [b]" u8_raw "\<lambda>_. True"
proof
  show "reads u8_raw [v] v" for v
    by (simp add: reads_def u8_raw_def)
  show "parses u8_raw (\<lambda>v bs. True \<and> bs = [v])"
    by (rule parsesI) (auto simp: u8_raw_def Cons_nth_drop_Suc split: if_splits)
qed

lemma codec_raw: "codec (\<lambda>bs. bs) (raw n) (\<lambda>bs. length bs = n)"
proof
  show "reads (raw n) bs bs" if "length bs = n" for bs
    using that by (simp add: reads_def raw_def remaining_def)
  show "parses (raw n) (\<lambda>v bs. length v = n \<and> bs = v)"
  proof (rule parsesI)
    fix r v r'
    assume "rd_wf r" and "raw n r = Inr (v, r')"
    then have "v = take n (drop (rpos r) (rdata r))" "length v = n" "r' = r\<lparr>rpos := rpos r + n\<rparr>"
      by (auto simp: raw_def remaining_def rd_wf_def split: if_splits)
    then show "\<exists>bs. r' = r\<lparr>rpos := rpos r + length bs\<rparr> \<and> (length v = n \<and> bs = v) \<and>
        drop (rpos r) (rdata r) = bs @ drop (rpos r + length bs) (rdata r)"
      by (intro exI [of _ v]) (simp add: add.commute flip: drop_drop)
  qed
qed

interpretation hash: codec "\<lambda>bs. bs" r_hash "\<lambda>bs. length bs = 32"
  unfolding r_hash_def by (rule codec_raw)

interpretation raw64: codec "\<lambda>bs. bs" "raw 64" "\<lambda>bs. length bs = 64"
  by (rule codec_raw)

interpretation u32: codec "to_le 4" u32_le "\<lambda>_. True"
proof
  show "reads u32_le (to_le 4 v) v" for v
    using reads_rbind_rret [OF codec.dec_enc [OF codec_raw, of "to_le 4 v" 4], of "from_le :: bytes \<Rightarrow> u32"]
    by (simp add: u32_le_def)
  have "to_le 4 (from_le bs :: u32) = bs" if "length bs = 4" for bs
    using that to_le_from_le [of bs, where 'a = 32] by simp
  then show "parses u32_le (\<lambda>v bs. True \<and> bs = to_le 4 v)"
    unfolding u32_le_def by (intro parses_rbind_rret parses_mono [OF codec.enc_dec [OF codec_raw]]) auto
qed

interpretation bool_byte: codec "\<lambda>c. [if c then 1 else 0]" r_bool "\<lambda>_. True"
proof
  have one: "reads (rbind u8_raw f) [b] c" if "reads (f b) [] c" for b f and c :: bool
    using reads_rbind [of u8_raw "[b]" b f "[]" c] that by (simp add: byte.dec_enc)
  show "reads r_bool [if c then 1 else 0] c" for c
    unfolding r_bool_def by (rule one) (cases c, simp_all add: reads_rret)
  show "parses r_bool (\<lambda>c bs. True \<and> bs = [if c then 1 else 0])"
    unfolding r_bool_def
    by (rule parses_rbind [OF byte.enc_dec])
       (auto intro!: parses_rfail parses_mono [OF parses_rret])
qed

interpretation blob: codec "\<lambda>bs. encode (of_nat (length bs)) @ bs" r_bytes "\<lambda>bs. length bs < 2 ^ 64"
proof
  show "reads r_bytes (encode (of_nat (length bs)) @ bs) bs" if "length bs < 2 ^ 64" for bs
  proof -
    have len: "unat (of_nat (length bs) :: u64) = length bs"
      using that by (simp add: unat_of_nat_less)
    have "reads (\<lambda>r. if remaining r < unat (of_nat (length bs) :: u64) then Inl Truncated
        else raw (unat (of_nat (length bs) :: u64)) r) bs bs"
      by (simp add: reads_def raw_def remaining_def len)
    then show ?thesis
      unfolding r_bytes_def by (rule reads_rbind [OF varint64.dec_enc, rotated]) simp
  qed
  show "parses r_bytes (\<lambda>v bs. length v < 2 ^ 64 \<and> bs = encode (of_nat (length v)) @ v)"
    unfolding r_bytes_def
  proof (rule parses_rbind [OF varint64.enc_dec])
    fix n :: u64 and b1
    assume b1: "True \<and> b1 = encode n"
    have "parses (raw (unat n)) (\<lambda>v b2. length v < 2 ^ 64 \<and> b1 @ b2 = encode (of_nat (length v)) @ v)"
      by (rule parses_mono [OF codec.enc_dec [OF codec_raw]]) (simp add: b1)
    then show "parses (\<lambda>r. if remaining r < unat n then Inl Truncated else raw (unat n) r)
        (\<lambda>v b2. length v < 2 ^ 64 \<and> b1 @ b2 = encode (of_nat (length v)) @ v)"
      by (rule parses_guard [where c = "\<lambda>r. remaining r < unat n", rotated 2]) simp_all
  qed
qed

section \<open>Counted vectors\<close>

text \<open>
  \<open>Reader::count\<close> refuses a count that the bytes left cannot hold. That never refuses an honest
  vector as long as every element really takes the \<open>m\<close> bytes the caller claims it does, which is
  the law this interface adds.
\<close>

definition enc_vec :: "('a \<Rightarrow> bytes) \<Rightarrow> 'a list \<Rightarrow> bytes" where
  "enc_vec enc vs = encode (of_nat (length vs)) @ concat (map enc vs)"

definition ok_vec :: "('a \<Rightarrow> bool) \<Rightarrow> 'a list \<Rightarrow> bool" where
  "ok_vec ok vs \<longleftrightarrow> list_all ok vs \<and> length vs < 2 ^ 64"

lemma parses_count: "parses (count k) (\<lambda>n bs. n < 2 ^ 64 \<and> bs = encode (of_nat n))"
  unfolding count_def
proof (rule parses_rbind [OF varint64.enc_dec])
  fix n :: u64 and b1
  assume b1: "True \<and> b1 = encode n"
  have "parses (rret (unat n)) (\<lambda>w b2. w < 2 ^ 64 \<and> b1 @ b2 = encode (of_nat w))"
    by (rule parses_mono [OF parses_rret]) (simp add: b1)
  then show "parses (\<lambda>r. if remaining r div max k 1 < unat n then Inl Truncated else Inr (unat n, r))
      (\<lambda>w b2. w < 2 ^ 64 \<and> b1 @ b2 = encode (of_nat w))"
    by (rule parses_guard [where c = "\<lambda>r. remaining r div max k 1 < unat n", rotated 2])
       (simp_all add: rret_def)
qed

locale counted_codec = codec enc dec ok
  for enc :: "'a \<Rightarrow> bytes" and dec :: "'a rd" and ok :: "'a \<Rightarrow> bool" +
  fixes m :: nat
  assumes min_size: "ok v \<Longrightarrow> m \<le> length (enc v)" and min_pos: "0 < m"
begin

lemma concat_size: "list_all ok vs \<Longrightarrow> length vs * m \<le> length (concat (map enc vs))"
  by (induction vs) (auto dest: min_size)

lemma read_vec_enc: "ok_vec ok vs \<Longrightarrow> reads (read_vec m dec) (enc_vec enc vs) vs"
proof -
  assume "ok_vec ok vs"
  then have vs: "list_all ok vs" and len: "unat (of_nat (length vs) :: u64) = length vs"
    by (simp_all add: ok_vec_def unat_of_nat_less)
  show ?thesis
    unfolding reads_def
  proof (intro allI)
    fix pre post :: bytes
    let ?n = "encode (of_nat (length vs))" and ?b = "concat (map enc vs)"
    from min_pos have m: "max m 1 = m" by simp
    have "length vs * m \<le> length ?b + length post" using concat_size [OF vs] by simp
    then have "length vs \<le> (length ?b + length post) div m"
      using min_pos by (simp add: less_eq_div_iff_mult_less_eq)
    then have "count m \<lparr>rdata = pre @ enc_vec enc vs @ post, rpos = length pre\<rparr> =
        Inr (length vs, \<lparr>rdata = pre @ enc_vec enc vs @ post, rpos = length pre + length ?n\<rparr>)"
      using readsD [OF varint64.dec_enc [of "of_nat (length vs)"], of pre "?b @ post"] min_pos len
      by (simp add: count_def rbind_def enc_vec_def remaining_def m not_less)
    moreover have "read_n (length vs) dec
        \<lparr>rdata = pre @ enc_vec enc vs @ post, rpos = length pre + length ?n\<rparr> =
        Inr (vs, \<lparr>rdata = pre @ enc_vec enc vs @ post, rpos = length pre + length (enc_vec enc vs)\<rparr>)"
      using readsD [OF dec_n_enc [OF vs], of "pre @ ?n" post] by (simp add: enc_vec_def add.assoc)
    ultimately show "read_vec m dec \<lparr>rdata = pre @ enc_vec enc vs @ post, rpos = length pre\<rparr> =
        Inr (vs, \<lparr>rdata = pre @ enc_vec enc vs @ post, rpos = length pre + length (enc_vec enc vs)\<rparr>)"
      by (simp add: read_vec_def rbind_def)
  qed
qed

lemma enc_read_vec: "parses (read_vec m dec) (\<lambda>vs bs. ok_vec ok vs \<and> bs = enc_vec enc vs)"
  unfolding read_vec_def
  by (rule parses_rbind [OF parses_count], rule parses_mono [OF enc_dec_n])
     (auto simp: ok_vec_def enc_vec_def)

end

sublocale counted_codec \<subseteq> vec: codec "enc_vec enc" "read_vec m dec" "ok_vec ok"
  by unfold_locales (simp_all add: read_vec_enc enc_read_vec)

end
