(* ===== verification/Tx.thy ===== *)
theory Tx
  imports Ser
begin

text \<open>
  Transactions, \<open>crates/wrkz-primitives/src/tx.rs\<close>: the structures, their wire format in both
  directions, the amount sums and fee, ring offsets, and the decimal decomposition of an amount.
  Keccak (\<open>cn_fast_hash\<close>, built on a third-party crate) is the parameter \<open>H\<close> of the definitions
  that hash.
\<close>

section \<open>Structures\<close>

definition CURRENT_TRANSACTION_VERSION :: u64 where "CURRENT_TRANSACTION_VERSION = 1"
definition TAG_BASE_INPUT :: u8 where "TAG_BASE_INPUT = 0xFF"
definition TAG_KEY_INPUT :: u8 where "TAG_KEY_INPUT = 0x02"
definition TAG_KEY_OUTPUT :: u8 where "TAG_KEY_OUTPUT = 0x02"

lemmas tag_defs = TAG_BASE_INPUT_def TAG_KEY_INPUT_def TAG_KEY_OUTPUT_def

datatype input =
    Base (block_index: u64)
  | Key (in_amount: u64) (key_offsets: "u64 list") (key_image: bytes)

record tx_output =
  out_amount :: u64
  out_key :: bytes

record transaction_prefix =
  version :: u64
  unlock_time :: u64
  inputs :: "input list"
  outputs :: "tx_output list"
  extra :: bytes

record transaction =
  prefix :: transaction_prefix
  signatures :: "bytes list list"

section \<open>The prefix on the wire\<close>

text \<open>\<open>TransactionPrefix::write\<close>, with the bodies of its two loops named.\<close>

definition input_write :: "input \<Rightarrow> writer \<Rightarrow> writer" where
  "input_write i w =
     (case i of
        Base idx \<Rightarrow> w_varint (w_u8_raw w TAG_BASE_INPUT) idx
      | Key amount offs ki \<Rightarrow>
          let w = w_varint (w_varint (w_u8_raw w TAG_KEY_INPUT) amount) (of_nat (length offs));
              w = fold (\<lambda>v w. w_varint w v) offs w
          in w_raw w ki)"

definition output_write :: "tx_output \<Rightarrow> writer \<Rightarrow> writer" where
  "output_write v w = w_raw (w_u8_raw (w_varint w (out_amount v)) TAG_KEY_OUTPUT) (out_key v)"

definition prefix_write :: "transaction_prefix \<Rightarrow> writer \<Rightarrow> writer" where
  "prefix_write p w =
     (let w = w_varint (w_varint w (version p)) (unlock_time p);
          w = w_varint w (of_nat (length (inputs p)));
          w = fold input_write (inputs p) w;
          w = w_varint w (of_nat (length (outputs p)));
          w = fold output_write (outputs p) w
      in w_bytes w (extra p))"

definition prefix_to_bytes :: "transaction_prefix \<Rightarrow> bytes" where
  "prefix_to_bytes p = prefix_write p []"

text \<open>\<open>TransactionPrefix::read_any_version\<close>, \<open>read\<close> and \<open>from_bytes\<close>.\<close>

definition read_input :: "input rd" where
  "read_input = rbind u8_raw (\<lambda>tag.
     if tag = TAG_BASE_INPUT then rbind (varint_bits 32) (\<lambda>idx. rret (Base idx))
     else if tag = TAG_KEY_INPUT then
       rbind r_varint (\<lambda>amount.
       rbind (read_vec 1 (varint_bits 32)) (\<lambda>offs.
       rbind r_hash (\<lambda>ki. rret (Key amount offs ki))))
     else rfail (Malformed ''input tag''))"

definition read_output :: "tx_output rd" where
  "read_output = rbind r_varint (\<lambda>amount. rbind u8_raw (\<lambda>tag.
     if tag \<noteq> TAG_KEY_OUTPUT then rfail (Malformed ''output tag'')
     else rbind r_hash (\<lambda>key. rret \<lparr>out_amount = amount, out_key = key\<rparr>)))"

definition read_any_version :: "transaction_prefix rd" where
  "read_any_version =
     rbind (varint_bits 8) (\<lambda>version.
     rbind r_varint (\<lambda>unlock_time.
     rbind (read_vec 2 read_input) (\<lambda>inputs.
     rbind (read_vec 34 read_output) (\<lambda>outputs.
     rbind r_bytes (\<lambda>extra.
     rret \<lparr>version = version, unlock_time = unlock_time, inputs = inputs, outputs = outputs,
           extra = extra\<rparr>)))))"

definition prefix_read :: "transaction_prefix rd" where
  "prefix_read = rbind read_any_version (\<lambda>p.
     if CURRENT_TRANSACTION_VERSION < version p then rfail (Malformed ''transaction version'')
     else rret p)"

definition prefix_from_bytes :: "bytes \<Rightarrow> transaction_prefix result" where
  "prefix_from_bytes data = from_bytes prefix_read data"

definition prefix_hash :: "(bytes \<Rightarrow> hash) \<Rightarrow> transaction_prefix \<Rightarrow> hash" where
  "prefix_hash H p = H (prefix_to_bytes p)"

definition is_coinbase :: "transaction_prefix \<Rightarrow> bool" where
  "is_coinbase p = (case inputs p of [Base _] \<Rightarrow> True | _ \<Rightarrow> False)"

definition ring_sizes :: "transaction_prefix \<Rightarrow> nat list" where
  "ring_sizes p = List.map_filter (\<lambda>i. case i of Key _ offs _ \<Rightarrow> Some (length offs) | Base _ \<Rightarrow> None)
     (inputs p)"

text \<open>\<open>Iterator::try_fold\<close> over \<open>Option\<close>: the first \<open>None\<close> ends the sum.\<close>

fun try_fold :: "('b \<Rightarrow> 'a \<Rightarrow> 'b option) \<Rightarrow> 'b \<Rightarrow> 'a list \<Rightarrow> 'b option" where
  "try_fold f acc [] = Some acc"
| "try_fold f acc (x # xs) = (case f acc x of None \<Rightarrow> None | Some acc' \<Rightarrow> try_fold f acc' xs)"

definition sum_inputs :: "transaction_prefix \<Rightarrow> u64 option" where
  "sum_inputs p = try_fold (\<lambda>acc i. case i of Key amount _ _ \<Rightarrow> checked_add acc amount
     | Base _ \<Rightarrow> Some acc) 0 (inputs p)"

definition sum_outputs :: "transaction_prefix \<Rightarrow> u64 option" where
  "sum_outputs p = try_fold (\<lambda>acc v. checked_add acc (out_amount v)) 0 (outputs p)"

section \<open>The parent coinbase\<close>

text \<open>\<open>BaseTransaction\<close> is its prefix; \<open>ignored\<close> is read and dropped, and always written as zero.\<close>

definition base_write :: "transaction_prefix \<Rightarrow> writer \<Rightarrow> writer" where
  "base_write p w = (let w = prefix_write p w in if 2 \<le> version p then w_varint w 0 else w)"

definition base_read :: "transaction_prefix rd" where
  "base_read = rbind read_any_version (\<lambda>p.
     if 2 \<le> version p then rbind r_varint (\<lambda>_. rret p) else rret p)"

definition base_hash :: "(bytes \<Rightarrow> hash) \<Rightarrow> transaction_prefix \<Rightarrow> hash" where
  "base_hash H p =
     (if version p < 2 then H (prefix_to_bytes p)
      else H (H (prefix_to_bytes p) @ H [0] @ replicate 32 0))"

section \<open>Full transactions\<close>

definition ring_size :: "input \<Rightarrow> nat" where
  "ring_size i = (case i of Key _ offs _ \<Rightarrow> length offs | Base _ \<Rightarrow> 0)"

fun sigs_write :: "(input \<times> bytes list) list \<Rightarrow> writer \<Rightarrow> writer result" where
  "sigs_write [] w = Inr w"
| "sigs_write ((i, sigs) # rest) w =
     (if length sigs \<noteq> ring_size i then Inl (Malformed ''signature count != ring size'')
      else sigs_write rest (fold (\<lambda>s w. w_raw w s) sigs w))"

definition tx_write :: "transaction \<Rightarrow> writer \<Rightarrow> writer result" where
  "tx_write t w =
     (let w = prefix_write (prefix t) w
      in if signatures t = [] then
           (if list_ex (\<lambda>i. case i of Key _ offs _ \<Rightarrow> offs \<noteq> [] | Base _ \<Rightarrow> False) (inputs (prefix t))
            then Inl (Malformed ''signatures missing for a key input'') else Inr w)
         else if length (signatures t) \<noteq> length (inputs (prefix t)) then
           Inl (Malformed ''signature vector count != input count'')
         else sigs_write (zip (inputs (prefix t)) (signatures t)) w)"

definition tx_to_bytes :: "transaction \<Rightarrow> bytes result" where
  "tx_to_bytes t = tx_write t []"

fun read_sigs :: "input list \<Rightarrow> bytes list list rd" where
  "read_sigs [] = rret []"
| "read_sigs (i # is) = rbind (read_n (ring_size i) (raw 64)) (\<lambda>sigs.
     rbind (read_sigs is) (\<lambda>rest. rret (sigs # rest)))"

definition tx_read :: "transaction rd" where
  "tx_read = rbind prefix_read (\<lambda>p. rbind (read_sigs (inputs p)) (\<lambda>sigs.
     rret \<lparr>prefix = p, signatures = (if is_coinbase p then [] else sigs)\<rparr>))"

definition tx_from_bytes :: "bytes \<Rightarrow> transaction result" where
  "tx_from_bytes data = from_bytes tx_read data"

definition tx_hash :: "(bytes \<Rightarrow> hash) \<Rightarrow> transaction \<Rightarrow> hash result" where
  "tx_hash H t = map_sum id H (tx_to_bytes t)"

definition fee :: "transaction \<Rightarrow> u64 option" where
  "fee t = Option.bind (sum_inputs (prefix t)) (\<lambda>i. Option.bind (sum_outputs (prefix t)) (checked_sub i))"

section \<open>Ring offsets\<close>

text \<open>\<open>relative_offsets_to_absolute\<close>: the loop state is the index, the running sum and the output.\<close>

fun rel_to_abs_loop :: "nat \<Rightarrow> u64 \<Rightarrow> u64 list \<Rightarrow> u64 list \<Rightarrow> u64 list option" where
  "rel_to_abs_loop i acc out [] = Some out"
| "rel_to_abs_loop i acc out (v # vs) =
     (case (if i = 0 then Some v else checked_add acc v) of
        None \<Rightarrow> None
      | Some acc' \<Rightarrow> rel_to_abs_loop (i + 1) acc' (out @ [acc']) vs)"

definition relative_offsets_to_absolute :: "u64 list \<Rightarrow> u64 list option" where
  "relative_offsets_to_absolute offsets = rel_to_abs_loop 0 0 [] offsets"

text \<open>\<open>absolute_to_relative_offsets\<close>: \<open>prev\<close> is \<open>abs[i - 1]\<close>, absent at index 0.\<close>

fun abs_to_rel_loop :: "u64 option \<Rightarrow> u64 list \<Rightarrow> u64 list \<Rightarrow> u64 list option" where
  "abs_to_rel_loop prev out [] = Some out"
| "abs_to_rel_loop prev out (a # as) =
     (case (case prev of
              None \<Rightarrow> Some a
            | Some b \<Rightarrow> Option.bind (checked_sub a b) (\<lambda>d. if d \<noteq> 0 then Some d else None)) of
        None \<Rightarrow> None
      | Some d \<Rightarrow> abs_to_rel_loop (Some a) (out @ [d]) as)"

definition absolute_to_relative_offsets :: "u64 list \<Rightarrow> u64 list option" where
  "absolute_to_relative_offsets xs = abs_to_rel_loop None [] xs"

section \<open>Splitting an amount into decimal digits\<close>

text \<open>
  \<open>decompose_amount\<close>: the loop state is the digits left, the power of ten (which wraps after the
  twentieth digit), the dust so far, whether it was emitted, and the output.
\<close>

function decompose_loop :: "u64 \<Rightarrow> u64 \<Rightarrow> u64 \<Rightarrow> u64 \<Rightarrow> bool \<Rightarrow> u64 list \<Rightarrow> u64 list" where
  "decompose_loop threshold a order dust handled out =
     (if 0 < a then
        let chunk = (a mod 10) * order;
            a = a div 10;
            order = order * 10
        in if dust + chunk \<le> threshold then decompose_loop threshold a order (dust + chunk) handled out
           else
             let out' = (if \<not> handled \<and> dust \<noteq> 0 then out @ [dust] else out);
                 handled' = (handled \<or> dust \<noteq> 0);
                 out'' = (if chunk \<noteq> 0 then out' @ [chunk] else out')
             in decompose_loop threshold a order dust handled' out''
      else if \<not> handled \<and> dust \<noteq> 0 then out @ [dust] else out)"
  by pat_completeness auto
termination
  by (relation "measure (\<lambda>(threshold, a, order, dust, handled, out). unat a)")
     (simp_all add: unat_div word_less_nat_alt)

declare decompose_loop.simps [simp del]

definition decompose_amount :: "u64 \<Rightarrow> u64 \<Rightarrow> u64 list" where
  "decompose_amount amount dust_threshold = decompose_loop dust_threshold amount 1 0 False []"

section \<open>The wire format as codecs\<close>

text \<open>What the format can express: array lengths, field widths and vector sizes.\<close>

definition input_ok :: "input \<Rightarrow> bool" where
  "input_ok i \<longleftrightarrow> (case i of Base idx \<Rightarrow> unat idx < 2 ^ 32
     | Key _ offs ki \<Rightarrow> ok_vec (\<lambda>v. unat v < 2 ^ 32) offs \<and> length ki = 32)"

definition output_ok :: "tx_output \<Rightarrow> bool" where
  "output_ok v \<longleftrightarrow> length (out_key v) = 32"

definition prefix_ok :: "transaction_prefix \<Rightarrow> bool" where
  "prefix_ok p \<longleftrightarrow> unat (version p) < 2 ^ 8 \<and> ok_vec input_ok (inputs p) \<and>
     ok_vec output_ok (outputs p) \<and> length (extra p) < 2 ^ 64"

text \<open>
  A transaction as \<open>read\<close> builds it: a coinbase has no signature vector, any other transaction one
  vector per input and one 64-byte signature per ring member.
\<close>

definition tx_ok :: "transaction \<Rightarrow> bool" where
  "tx_ok t \<longleftrightarrow> prefix_ok (prefix t) \<and> version (prefix t) \<le> CURRENT_TRANSACTION_VERSION \<and>
     (if is_coinbase (prefix t) then signatures t = []
      else list_all2 (\<lambda>i sigs. length sigs = ring_size i \<and> list_all (\<lambda>s. length s = 64) sigs)
        (inputs (prefix t)) (signatures t))"

definition enc_input :: "input \<Rightarrow> bytes" where
  "enc_input i = (case i of Base idx \<Rightarrow> [TAG_BASE_INPUT] @ encode idx
     | Key amount offs ki \<Rightarrow> [TAG_KEY_INPUT] @ encode amount @ enc_vec encode offs @ ki)"

definition enc_output :: "tx_output \<Rightarrow> bytes" where
  "enc_output v = encode (out_amount v) @ [TAG_KEY_OUTPUT] @ out_key v"

definition enc_prefix :: "transaction_prefix \<Rightarrow> bytes" where
  "enc_prefix p = encode (version p) @ encode (unlock_time p) @ enc_vec enc_input (inputs p) @
     enc_vec enc_output (outputs p) @ encode (of_nat (length (extra p))) @ extra p"

definition enc_tx :: "transaction \<Rightarrow> bytes" where
  "enc_tx t = enc_prefix (prefix t) @ concat (concat (signatures t))"

lemma fold_append:
  assumes "\<And>x w. f x w = w @ g x"
  shows "fold f xs w = w @ concat (map g xs)"
  by (induction xs arbitrary: w) (simp_all add: assms)

lemma input_write_eq: "input_write i w = w @ enc_input i"
  using fold_append [of "\<lambda>v w. w_varint w v" encode]
  by (simp add: input_write_def enc_input_def enc_vec_def codec_simps split: input.splits)

lemma output_write_eq: "output_write v w = w @ enc_output v"
  by (simp add: output_write_def enc_output_def codec_simps)

lemma prefix_write_eq [codec_simps]: "prefix_write p w = w @ enc_prefix p"
  by (simp add: prefix_write_def enc_prefix_def enc_vec_def codec_simps
      fold_append [of input_write, OF input_write_eq] fold_append [of output_write, OF output_write_eq])

lemma prefix_to_bytes_eq [codec_simps]: "prefix_to_bytes p = enc_prefix p"
  by (simp add: prefix_to_bytes_def codec_simps)

interpretation offsets: counted_codec encode "varint_bits 32" "\<lambda>v. unat v < 2 ^ 32" 1
  by unfold_locales (simp_all add: Suc_leI)

interpretation tx_in: codec enc_input read_input input_ok
proof
  fix i
  assume ok: "input_ok i"
  show "reads read_input (enc_input i) i"
  proof (cases i)
    case (Base idx)
    with ok have "reads read_input ([TAG_BASE_INPUT] @ encode idx) i"
      unfolding read_input_def
      by (intro byte.reads_bind) (auto simp: input_ok_def intro: varint32.reads_last)
    with Base show ?thesis by (simp add: enc_input_def)
  next
    case (Key amount offs ki)
    with ok have "reads read_input ([TAG_KEY_INPUT] @ encode amount @ enc_vec encode offs @ ki) i"
      unfolding read_input_def
      by (intro byte.reads_bind)
         (auto simp: tag_defs input_ok_def simp del: One_nat_def
           intro!: varint64.reads_bind offsets.vec.reads_bind hash.reads_last)
    with Key show ?thesis by (simp add: enc_input_def)
  qed
next
  show "parses read_input (\<lambda>v bs. input_ok v \<and> bs = enc_input v)"
    unfolding read_input_def
    by (rule byte.parses_bind)
       (auto simp: enc_input_def input_ok_def simp del: One_nat_def
         intro!: parses_rfail varint32.parses_last varint64.parses_bind offsets.vec.parses_bind
           hash.parses_last)
qed

interpretation ins: counted_codec enc_input read_input input_ok 2
  by unfold_locales (simp_all add: enc_input_def numeral_2_eq_2 Suc_le_eq split: input.splits)

interpretation tx_out: codec enc_output read_output output_ok
proof
  show "reads read_output (enc_output v) v" if "output_ok v" for v
    using that unfolding read_output_def enc_output_def
    by (intro varint64.reads_bind byte.reads_bind) (auto simp: output_ok_def intro!: hash.reads_last)
  show "parses read_output (\<lambda>v bs. output_ok v \<and> bs = enc_output v)"
    unfolding read_output_def
    by (intro varint64.parses_bind byte.parses_bind)
       (auto simp: output_ok_def enc_output_def intro!: parses_rfail hash.parses_last)
qed

interpretation outs: counted_codec enc_output read_output output_ok 34
  by unfold_locales (simp_all add: enc_output_def output_ok_def Suc_le_eq)

interpretation any_prefix: codec enc_prefix read_any_version prefix_ok
proof
  show "reads read_any_version (enc_prefix p) p" if "prefix_ok p" for p
    using that unfolding read_any_version_def enc_prefix_def prefix_ok_def
    by (intro varint8.reads_bind varint64.reads_bind ins.vec.reads_bind outs.vec.reads_bind
        blob.reads_last) auto
  show "parses read_any_version (\<lambda>p bs. prefix_ok p \<and> bs = enc_prefix p)"
    unfolding read_any_version_def
    by (intro varint8.parses_bind varint64.parses_bind ins.vec.parses_bind
        outs.vec.parses_bind blob.parses_last) (auto simp: prefix_ok_def enc_prefix_def)
qed

interpretation tx_prefix: codec enc_prefix prefix_read
  "\<lambda>p. prefix_ok p \<and> version p \<le> CURRENT_TRANSACTION_VERSION"
proof
  show "reads prefix_read (enc_prefix p) p"
    if "prefix_ok p \<and> version p \<le> CURRENT_TRANSACTION_VERSION" for p
    using that unfolding prefix_read_def
    by (intro any_prefix.reads_bind [where bs = "[]", simplified])
       (auto simp: not_less [symmetric] intro: reads_rret)
  show "parses prefix_read (\<lambda>p bs. (prefix_ok p \<and> version p \<le> CURRENT_TRANSACTION_VERSION) \<and>
      bs = enc_prefix p)"
    unfolding prefix_read_def
    by (rule any_prefix.parses_bind) (auto simp: not_less intro!: parses_rfail parses_mono [OF parses_rret])
qed

text \<open>The signature block of a list of inputs.\<close>

abbreviation sigs_ok :: "input \<Rightarrow> bytes list \<Rightarrow> bool" where
  "sigs_ok i sigs \<equiv> length sigs = ring_size i \<and> list_all (\<lambda>s. length s = 64) sigs"

lemma reads_sigs: "list_all2 sigs_ok is sigs \<Longrightarrow> reads (read_sigs is) (concat (concat sigs)) sigs"
proof (induction "is" sigs rule: list_all2_induct)
  case Nil
  then show ?case by (simp add: reads_rret)
next
  case (Cons i "is" s sigs)
  from Cons.hyps(1) have "reads (read_n (ring_size i) (raw 64)) (concat s) s"
    using raw64.dec_n_enc [of s] by simp
  with Cons.IH show ?case
    by (auto intro!: reads_rbind reads_rbind_rret)
qed

lemma parses_sigs: "parses (read_sigs is) (\<lambda>sigs bs. list_all2 sigs_ok is sigs \<and> bs = concat (concat sigs))"
proof (induction "is")
  case Nil
  then show ?case by simp (rule parses_mono [OF parses_rret], simp)
next
  case (Cons i "is")
  show ?case unfolding read_sigs.simps
    by (rule parses_rbind [OF raw64.enc_dec_n], rule parses_rbind_rret, rule parses_mono [OF Cons.IH])
       auto
qed

lemma coinbase_no_sigs: "is_coinbase p \<Longrightarrow> list_all2 sigs_ok (inputs p) sigs \<Longrightarrow> concat (concat sigs) = []"
  by (auto simp: is_coinbase_def ring_size_def list_all2_Cons1 split: list.splits input.splits)

interpretation tx: codec enc_tx tx_read tx_ok
proof
  fix t
  assume ok: "tx_ok t"
  let ?sigs = "if is_coinbase (prefix t) then [[]] else signatures t"
  have all: "list_all2 sigs_ok (inputs (prefix t)) ?sigs"
    using ok by (auto simp: tx_ok_def is_coinbase_def ring_size_def split: list.splits input.splits)
  have sigs: "concat (concat ?sigs) = concat (concat (signatures t))"
    using ok by (simp add: tx_ok_def)
  have "\<lparr>prefix = prefix t, signatures = (if is_coinbase (prefix t) then [] else ?sigs)\<rparr> = t"
    using ok by (simp add: tx_ok_def)
  then show "reads tx_read (enc_tx t) t"
    unfolding tx_read_def enc_tx_def using ok reads_sigs [OF all]
    by (intro tx_prefix.reads_bind reads_map [of _ _ ?sigs]) (simp_all add: tx_ok_def sigs)
next
  show "parses tx_read (\<lambda>t bs. tx_ok t \<and> bs = enc_tx t)"
    unfolding tx_read_def
    by (rule tx_prefix.parses_bind, rule parses_rbind_rret, rule parses_mono [OF parses_sigs])
       (auto simp: tx_ok_def enc_tx_def coinbase_no_sigs)
qed

text \<open>\<open>write\<close> succeeds exactly on the signature shapes of \<open>CryptoNoteSerialization.cpp\<close>.\<close>

lemma fold_raw: "fold (\<lambda>v w. w_raw w v) vs w = w @ concat vs"
  using fold_append [of "\<lambda>v w. w_raw w v" "\<lambda>v. v"] by (simp add: codec_simps)

lemma sigs_write_iff:
  "length is = length sigs \<Longrightarrow> sigs_write (zip is sigs) w = Inr w' \<longleftrightarrow>
     list_all2 (\<lambda>i v. length v = ring_size i) is sigs \<and> w' = w @ concat (concat sigs)"
  by (induction "is" sigs arbitrary: w rule: list_induct2) (auto simp: fold_raw)

lemma tx_to_bytes_iff:
  "tx_to_bytes t = Inr bs \<longleftrightarrow> bs = enc_tx t \<and>
     (if signatures t = [] then list_all (\<lambda>i. ring_size i = 0) (inputs (prefix t))
      else list_all2 (\<lambda>i v. length v = ring_size i) (inputs (prefix t)) (signatures t))"
  by (auto simp: tx_to_bytes_def tx_write_def codec_simps enc_tx_def sigs_write_iff ring_size_def
      list_ex_iff list_all_iff dest: list_all2_lengthD split: input.splits if_splits)

lemma tx_ok_to_bytes:
  assumes "tx_ok t"
  shows "tx_to_bytes t = Inr (enc_tx t)"
  using assms unfolding tx_to_bytes_iff tx_ok_def
  by (auto simp: is_coinbase_def ring_size_def elim: list_all2_mono split: if_splits list.splits input.splits)

section \<open>Round trips of a transaction\<close>

text \<open>A transfer with one ring of two members, and its bytes: what the round trips are read on.\<close>

definition example_tx :: transaction where
  "example_tx = \<lparr>prefix = \<lparr>version = 1, unlock_time = 300,
      inputs = [Key 5000 [7, 200] (replicate 32 9)],
      outputs = [\<lparr>out_amount = 4000, out_key = replicate 32 3\<rparr>], extra = [1, 2]\<rparr>,
    signatures = [[replicate 64 4, replicate 64 5]]\<rparr>"

definition example_tx_bytes :: bytes where
  "example_tx_bytes = [1, 172, 2, 1, 2, 136, 39, 2, 7, 200, 1] @ replicate 32 9 @ [1, 160, 31, 2] @
     replicate 32 3 @ [2, 1, 2] @ replicate 64 4 @ replicate 64 5"

lemma example_tx_ok: "tx_ok example_tx"
  by (simp add: example_tx_def tx_ok_def prefix_ok_def input_ok_def output_ok_def ok_vec_def tag_defs
      is_coinbase_def CURRENT_TRANSACTION_VERSION_def ring_size_def)

lemma example_tx_enc: "enc_tx example_tx = example_tx_bytes"
  by (simp add: example_tx_def example_tx_bytes_def enc_tx_def enc_prefix_def enc_input_def enc_output_def
      enc_vec_def tag_defs encode_eval)

lemma example_tx_parses: "tx_from_bytes example_tx_bytes = Inr example_tx"
  by (simp add: tx_from_bytes_def tx.from_bytes_iff example_tx_ok example_tx_enc)

text \<open>C24: a byte string that parses as a transaction is exactly what the parsed transaction
  serializes to, so no transaction has two encodings and its hash cannot be changed without
  changing the transaction.\<close>

theorem tx_encoding_canonical:
  assumes "tx_from_bytes data = Inr t"
  shows "tx_to_bytes t = Inr data"
  using assms by (simp add: tx_from_bytes_def tx.from_bytes_iff tx_ok_to_bytes)

theorem tx_encoding_canonical_witness:
  "tx_from_bytes example_tx_bytes = Inr example_tx \<and> tx_to_bytes example_tx = Inr example_tx_bytes"
  using tx_encoding_canonical [OF example_tx_parses] example_tx_parses by blast

text \<open>C25: every well-formed transaction serializes, its bytes parse back to it, and the same bytes
  with anything appended are refused with the number of trailing bytes.\<close>

theorem tx_roundtrip:
  assumes "tx_ok t"
  shows "\<exists>data. tx_to_bytes t = Inr data \<and> tx_from_bytes data = Inr t \<and>
    (\<forall>tail. tail \<noteq> [] \<longrightarrow> tx_from_bytes (data @ tail) = Inl (TrailingBytes (length tail)))"
  using assms
  by (intro exI [of _ "enc_tx t"])
     (simp add: tx_from_bytes_def tx.from_bytes_iff tx_ok_to_bytes tx.from_bytes_trailing)

theorem tx_roundtrip_witness:
  "tx_ok example_tx \<and> tx_to_bytes example_tx = Inr example_tx_bytes \<and>
   tx_from_bytes example_tx_bytes = Inr example_tx \<and>
   tx_from_bytes (example_tx_bytes @ [0, 0]) = Inl (TrailingBytes 2)"
proof -
  from tx_roundtrip [OF example_tx_ok] obtain data where
    "tx_to_bytes example_tx = Inr data" "tx_from_bytes data = Inr example_tx"
    "tx_from_bytes (data @ [0, 0]) = Inl (TrailingBytes 2)" by fastforce
  moreover have "tx_to_bytes example_tx = Inr example_tx_bytes"
    by (simp add: tx_ok_to_bytes example_tx_ok example_tx_enc)
  ultimately show ?thesis by (simp add: example_tx_ok)
qed

section \<open>Amounts and fee\<close>

definition in_value :: "input \<Rightarrow> nat" where
  "in_value i = (case i of Key amount _ _ \<Rightarrow> unat amount | Base _ \<Rightarrow> 0)"

lemma try_fold_checked_add:
  assumes f: "\<And>acc x r. f acc x = Some r \<longleftrightarrow> unat acc + g x < 2 ^ 64 \<and> unat r = unat acc + g x"
  shows "try_fold f acc xs = Some (r :: u64) \<longleftrightarrow>
    unat acc + sum_list (map g xs) < 2 ^ 64 \<and> unat r = unat acc + sum_list (map g xs)"
proof (induction xs arbitrary: acc)
  case Nil
  then show ?case by (auto simp: word_unat_eq_iff)
next
  case (Cons x xs)
  show ?case
  proof (cases "f acc x")
    case None
    moreover have "\<not> unat acc + g x < 2 ^ 64"
      using f [of acc x "of_nat (unat acc + g x)"] None by (auto simp: unat_of_nat_less simp del: of_nat_add)
    ultimately show ?thesis by simp
  next
    case (Some acc')
    with f [of acc x acc'] Cons.IH [of acc'] show ?thesis by auto
  qed
qed

lemma sum_inputs_iff: "sum_inputs p = Some v \<longleftrightarrow>
    sum_list (map in_value (inputs p)) < 2 ^ 64 \<and> unat v = sum_list (map in_value (inputs p))"
  unfolding sum_inputs_def
  by (subst try_fold_checked_add [where g = in_value])
     (auto simp: in_value_def arith_simps word_unat_eq_iff split: input.splits)

lemma sum_outputs_iff: "sum_outputs p = Some v \<longleftrightarrow>
    sum_list (map (\<lambda>t. unat (out_amount t)) (outputs p)) < 2 ^ 64 \<and>
    unat v = sum_list (map (\<lambda>t. unat (out_amount t)) (outputs p))"
  unfolding sum_outputs_def
  by (subst try_fold_checked_add [where g = "\<lambda>t. unat (out_amount t)"]) (auto simp: arith_simps)

lemma fee_iff:
  "fee t = Some f \<longleftrightarrow>
     sum_list (map in_value (inputs (prefix t))) < 2 ^ 64 \<and>
     sum_list (map (\<lambda>v. unat (out_amount v)) (outputs (prefix t))) < 2 ^ 64 \<and>
     sum_list (map in_value (inputs (prefix t))) =
       sum_list (map (\<lambda>v. unat (out_amount v)) (outputs (prefix t))) + unat f"
proof -
  let ?i = "sum_list (map in_value (inputs (prefix t)))"
  let ?o = "sum_list (map (\<lambda>v. unat (out_amount v)) (outputs (prefix t)))"
  have "fee t = Some f \<longleftrightarrow> (\<exists>i v. sum_inputs (prefix t) = Some i \<and> sum_outputs (prefix t) = Some v \<and>
      checked_sub i v = Some f)"
    by (auto simp: fee_def bind_eq_Some_conv)
  also have "\<dots> \<longleftrightarrow> ?i < 2 ^ 64 \<and> ?o < 2 ^ 64 \<and> ?i = ?o + unat f"
  proof
    assume "?i < 2 ^ 64 \<and> ?o < 2 ^ 64 \<and> ?i = ?o + unat f"
    then show "\<exists>i v. sum_inputs (prefix t) = Some i \<and> sum_outputs (prefix t) = Some v \<and>
        checked_sub i v = Some f"
      by (intro exI [of _ "of_nat ?i"] exI [of _ "of_nat ?o"])
         (simp add: sum_inputs_iff sum_outputs_iff arith_simps unat_of_nat_less del: of_nat_add)
  qed (auto simp: sum_inputs_iff sum_outputs_iff arith_simps)
  finally show ?thesis .
qed

text \<open>A transaction has a fee exactly when neither side overflows 64 bits and the inputs cover
  the outputs, and then what comes in is what goes out plus the fee, in true arithmetic.\<close>

theorem fee_conserves_value:
  "fee t = Some f \<longleftrightarrow>
     (let ins = sum_list (map in_value (inputs (prefix t)));
          outs = sum_list (map (\<lambda>v. unat (out_amount v)) (outputs (prefix t)))
      in ins < 2 ^ 64 \<and> outs < 2 ^ 64 \<and> ins = outs + unat f)"
  by (simp add: fee_iff Let_def)

section \<open>Offsets round trip\<close>

lemma rel_to_abs_out: "rel_to_abs_loop i acc (pre @ out) vs = map_option ((@) pre) (rel_to_abs_loop i acc out vs)"
  by (induction i acc out vs rule: rel_to_abs_loop.induct)
     (auto split: option.splits if_splits)

lemma abs_to_rel_out: "abs_to_rel_loop prev (pre @ out) vs = map_option ((@) pre) (abs_to_rel_loop prev out vs)"
  by (induction prev out vs rule: abs_to_rel_loop.induct)
     (auto split: option.splits)

lemma rel_to_abs_Cons:
  "rel_to_abs_loop (Suc i) acc [] (v # vs) = Some xs \<longleftrightarrow>
     (\<exists>a as. xs = a # as \<and> checked_add acc v = Some a \<and> rel_to_abs_loop (Suc (Suc i)) a [] vs = Some as)"
  using rel_to_abs_out [of "Suc (Suc i)" _ "[_]" "[]" vs] by (auto split: option.splits)

lemma abs_to_rel_Cons:
  "abs_to_rel_loop (Some b) [] (a # as) = Some xs \<longleftrightarrow>
     (\<exists>d ds. xs = d # ds \<and> checked_sub a b = Some d \<and> d \<noteq> 0 \<and> abs_to_rel_loop (Some a) [] as = Some ds)"
  using abs_to_rel_out [of "Some a" "[_]" "[]" as] by (auto simp: bind_eq_Some_conv split: option.splits)

lemma sub_add: "checked_sub a b = Some d \<longleftrightarrow> checked_add b d = Some a" for a b d :: u64
  by (auto simp: arith_simps)

lemma abs_rel_inverse:
  "abs_to_rel_loop (Some b) [] as = Some ds \<longleftrightarrow>
     rel_to_abs_loop (Suc i) b [] ds = Some as \<and> 0 \<notin> set ds"
proof (induction as arbitrary: b ds i)
  case Nil
  show ?case by (cases ds) (auto simp: rel_to_abs_Cons simp del: rel_to_abs_loop.simps(2))
next
  case (Cons a as)
  show ?case
  proof (cases ds)
    case Nil
    then show ?thesis by (auto simp: abs_to_rel_Cons simp del: abs_to_rel_loop.simps(2))
  next
    case (Cons d ds')
    with Cons.IH [of a ds' "Suc i"] show ?thesis
      unfolding Cons abs_to_rel_Cons rel_to_abs_Cons by (auto simp: sub_add)
  qed
qed

lemma abs_to_rel_defined:
  "(\<exists>ds. abs_to_rel_loop (Some b) [] as = Some ds) \<longleftrightarrow> sorted_wrt (<) (b # as)"
proof (induction as arbitrary: b)
  case Nil
  then show ?case by simp
next
  case (Cons a as)
  have "(\<exists>d. checked_sub a b = Some d \<and> d \<noteq> 0) \<longleftrightarrow> b < a"
    by (auto simp: checked_sub_def)
  with Cons.IH [of a] show ?case
    unfolding abs_to_rel_Cons by (auto intro: less_trans)
qed

text \<open>The two offset conversions are inverse to each other on strictly ascending indexes, which
  are exactly the sequences that have a relative form.\<close>

theorem offsets_roundtrip:
  "(absolute_to_relative_offsets xs = Some ds \<longleftrightarrow>
     relative_offsets_to_absolute ds = Some xs \<and> 0 \<notin> set (tl ds)) \<and>
   (absolute_to_relative_offsets xs = None \<longleftrightarrow> \<not> sorted_wrt (<) xs)"
proof (cases xs)
  case Nil
  then show ?thesis
    by (cases ds) (auto simp: absolute_to_relative_offsets_def relative_offsets_to_absolute_def
        rel_to_abs_out [of _ _ "[_]" "[]", simplified])
next
  case (Cons a as)
  have rel: "absolute_to_relative_offsets xs = map_option ((@) [a]) (abs_to_rel_loop (Some a) [] as)"
    using abs_to_rel_out [of "Some a" "[a]" "[]" as] Cons by (simp add: absolute_to_relative_offsets_def)
  have "relative_offsets_to_absolute (d # ds') = map_option ((@) [d]) (rel_to_abs_loop 1 d [] ds')" for d ds'
    using rel_to_abs_out [of 1 d "[d]" "[]" ds'] by (simp add: relative_offsets_to_absolute_def)
  moreover have "relative_offsets_to_absolute [] = Some []"
    by (simp add: relative_offsets_to_absolute_def)
  ultimately have "absolute_to_relative_offsets xs = Some ds \<longleftrightarrow>
      relative_offsets_to_absolute ds = Some xs \<and> 0 \<notin> set (tl ds)"
    using abs_rel_inverse [of a as "tl ds" 0] Cons unfolding rel by (cases ds) auto
  moreover have "absolute_to_relative_offsets xs = None \<longleftrightarrow> \<not> sorted_wrt (<) xs"
    using rel Cons abs_to_rel_defined [of a as] by auto
  ultimately show ?thesis ..
qed

section \<open>Denominations\<close>

text \<open>
  The loop invariant: \<open>order\<close> is the power of ten of the next digit, the output, the dust not yet
  emitted and the digits left add up to the amount, the output ascends below \<open>order\<close>, and once a
  chunk was not dust no later one is.
\<close>

definition digit_piece :: "nat \<Rightarrow> bool" where
  "digit_piece x \<longleftrightarrow> (\<exists>d k. 0 < d \<and> d < 10 \<and> x = d * 10 ^ k)"

definition decompose_inv ::
  "nat \<Rightarrow> nat \<Rightarrow> nat \<Rightarrow> nat \<Rightarrow> nat \<Rightarrow> bool \<Rightarrow> nat list \<Rightarrow> bool" where
  "decompose_inv amount threshold a order dust handled out \<longleftrightarrow>
     sum_list out + (if handled then 0 else dust) + a * order = amount \<and>
     dust \<le> threshold \<and> dust < order \<and> (\<exists>k. order = 10 ^ k) \<and>
     sorted_wrt (<) out \<and> (\<forall>x\<in>set out. 0 < x \<and> x < order \<and> (x \<le> threshold \<or> digit_piece x)) \<and>
     (out \<noteq> [] \<longrightarrow> threshold < dust + order) \<and> (handled \<longrightarrow> dust \<in> set out) \<and>
     (\<not> handled \<and> dust \<noteq> 0 \<longrightarrow> out = [])"

lemma digit_split: "a * order = a mod 10 * order + a div 10 * (order * 10)" for a order :: nat
proof -
  have "a * order = (a div 10 * 10 + a mod 10) * order" by simp
  then show ?thesis by (simp only: distrib_left distrib_right ac_simps)
qed

lemma digit_bound: "a mod 10 * order \<le> 9 * order" for a order :: nat
  by (intro mult_right_mono) auto

lemma decompose_inv_order: "decompose_inv m t a order d h out \<Longrightarrow> \<exists>k. order * 10 = 10 ^ k"
  by (auto simp: decompose_inv_def intro: exI [of _ "Suc _"])

lemma decompose_inv_dust:
  assumes inv: "decompose_inv amount threshold a order dust handled out"
    and le: "dust + a mod 10 * order \<le> threshold"
  shows "decompose_inv amount threshold (a div 10) (order * 10) (dust + a mod 10 * order) handled out"
proof (cases "out = []")
  case True
  from inv have "dust < order" by (simp add: decompose_inv_def)
  with digit_bound [of a order] have "dust + a mod 10 * order < order * 10" by linarith
  then show ?thesis
    using inv le True digit_split [of a order] decompose_inv_order [OF inv]
    by (auto simp: decompose_inv_def)
next
  case False
  with inv le have "threshold < dust + order" by (simp add: decompose_inv_def)
  with le have "a mod 10 = 0" by (cases "a mod 10") auto
  then show ?thesis
    using inv False digit_split [of a order] decompose_inv_order [OF inv]
    by (auto simp: decompose_inv_def)
qed

lemma decompose_inv_chunk:
  assumes inv: "decompose_inv amount threshold a order dust handled out"
    and gt: "threshold < dust + a mod 10 * order"
  defines "pre \<equiv> if \<not> handled \<and> dust \<noteq> 0 then out @ [dust] else out"
  shows "decompose_inv amount threshold (a div 10) (order * 10) dust (handled \<or> dust \<noteq> 0)
    (pre @ [a mod 10 * order])"
proof -
  let ?chunk = "a mod 10 * order"
  from inv obtain k where dust: "dust \<le> threshold" "dust < order" and k: "order = 10 ^ k"
    by (auto simp: decompose_inv_def)
  from gt dust(1) have "a mod 10 \<noteq> 0" by (cases "a mod 10 = 0") auto
  then have chunk: "order \<le> ?chunk" "?chunk < order * 10" "digit_piece ?chunk"
    using digit_bound [of a order] dust(2) k by (auto simp: digit_piece_def)
  have pre: "\<forall>x\<in>set pre. 0 < x \<and> x < order \<and> (x \<le> threshold \<or> digit_piece x)" "sorted_wrt (<) pre"
      "sum_list pre + (if handled \<or> dust \<noteq> 0 then 0 else dust) + a * order = amount"
      "handled \<or> dust \<noteq> 0 \<longrightarrow> dust \<in> set pre"
    using inv by (auto simp: decompose_inv_def pre_def)
  have all: "\<forall>x\<in>set (pre @ [?chunk]). 0 < x \<and> x < order * 10 \<and> (x \<le> threshold \<or> digit_piece x)"
    using pre(1) chunk dust by fastforce
  have sorted: "sorted_wrt (<) (pre @ [?chunk])"
    using pre(2) less_le_trans [OF _ chunk(1)] pre(1) by (simp add: sorted_wrt_append)
  have sum: "sum_list (pre @ [?chunk]) + (if handled \<or> dust \<noteq> 0 then 0 else dust) +
      a div 10 * (order * 10) = amount"
    using pre(3) digit_split [of a order] by simp
  have "threshold < dust + order * 10" "0 < order" using chunk(2) gt dust(2) by linarith+
  then show ?thesis
    unfolding decompose_inv_def
    by (intro conjI sum dust(1) decompose_inv_order [OF inv] all sorted)
       (use pre(4) dust(2) in auto)
qed

definition decomposes :: "nat \<Rightarrow> u64 \<Rightarrow> u64 list \<Rightarrow> bool" where
  "decomposes amount threshold out \<longleftrightarrow> sum_list (map unat out) = amount \<and> sorted_wrt (<) out \<and>
     (\<forall>x\<in>set out. x \<noteq> 0 \<and> (x \<le> threshold \<or> digit_piece (unat x)))"

lemma decompose_loop_correct:
  assumes "decompose_inv amount (unat threshold) (unat a) n (unat dust) handled (map unat out)"
    and "amount < 2 ^ 64" and "order = of_nat n"
  shows "decomposes amount threshold (decompose_loop threshold a order dust handled out)"
  using assms
proof (induction threshold a order dust handled out arbitrary: n rule: decompose_loop.induct)
  case (1 threshold a order dust handled out)
  note inv = "1.prems"(1)
  show ?case
  proof (cases "0 < a")
    case False
    then have a: "a = 0" by (simp add: word_gt_0)
    have sorted_dust: "sorted_wrt (<) (out @ [dust])" if "\<not> handled" "dust \<noteq> 0"
      using inv that by (simp add: decompose_inv_def unat_eq_zero)
    have res: "decompose_loop threshold a order dust handled out =
        (if \<not> handled \<and> dust \<noteq> 0 then out @ [dust] else out)"
      by (simp add: a decompose_loop.simps)
    have all: "\<forall>x\<in>set out. x \<noteq> 0 \<and> (x \<le> threshold \<or> digit_piece (unat x))" "dust \<le> threshold"
        "sorted_wrt (<) out"
        "sum_list (map unat out) + (if handled then 0 else unat dust) = amount"
      using inv by (auto simp: decompose_inv_def word_le_nat_alt a)
    show ?thesis
      unfolding res decomposes_def using sorted_dust all by auto
  next
    case True
    let ?chunk = "(a mod 10) * order"
    from inv have sum: "sum_list (map unat out) + (if handled then 0 else unat dust) + unat a * n = amount"
        "handled \<longrightarrow> unat dust \<in> set (map unat out)"
      by (simp_all add: decompose_inv_def)
    have d: "unat dust \<le> sum_list (map unat out) + (if handled then 0 else unat dust)"
      using sum(2) member_le_sum_list [of "unat dust" "map unat out"] by auto
    from True have "1 \<le> unat a" by (simp add: word_less_nat_alt Suc_le_eq)
    then have "n \<le> unat a * n" by simp
    with sum(1) "1.prems"(2) have "n < 2 ^ 64" by linarith
    then have n: "unat order = n" unfolding "1.prems"(3) by (simp add: unat_of_nat_less)
    have "unat a mod 10 * n \<le> unat a * n" by simp
    with sum d "1.prems"(2) have small: "unat dust + unat a mod 10 * n < 2 ^ 64" by linarith
    then have chunk: "unat ?chunk = unat a mod 10 * n"
      by (simp add: unat_word_ariths n)
    with small have dc: "unat (dust + ?chunk) = unat dust + unat a mod 10 * n"
      by (simp add: unat_add_small)
    have next_order: "order * 10 = of_nat (n * 10)" by (simp add: "1.prems"(3))
    have ad: "unat (a div 10) = unat a div 10" by (simp add: unat_div)
    show ?thesis
    proof (cases "dust + ?chunk \<le> threshold")
      case le: True
      then have "unat dust + unat a mod 10 * n \<le> unat threshold" by (simp add: word_le_nat_alt dc)
      from decompose_inv_dust [OF inv this]
      have "decompose_inv amount (unat threshold) (unat (a div 10)) (n * 10) (unat (dust + ?chunk)) handled (map unat out)"
        by (simp only: ad dc)
      from "1.IH"(1) [OF True refl refl refl le this "1.prems"(2) next_order]
      moreover have "decompose_loop threshold a order dust handled out =
          decompose_loop threshold (a div 10) (order * 10) (dust + ?chunk) handled out"
        using True le by (simp add: decompose_loop.simps [of _ a] Let_def)
      ultimately show ?thesis by simp
    next
      case gt: False
      then have "unat threshold < unat dust + unat a mod 10 * n" by (simp add: word_le_nat_alt dc not_le)
      note step = decompose_inv_chunk [OF inv this]
      have nz: "?chunk \<noteq> 0"
        using inv gt by (auto simp: decompose_inv_def word_le_nat_alt)
      let ?out = "(if \<not> handled \<and> dust \<noteq> 0 then out @ [dust] else out) @ [?chunk]"
      have "decompose_inv amount (unat threshold) (unat (a div 10)) (n * 10) (unat dust)
          (handled \<or> dust \<noteq> 0) (map unat ?out)"
        using step by (simp add: ad chunk unat_eq_zero if_distrib [of "map unat"] cong: if_cong)
      moreover have "decompose_loop threshold a order dust handled out =
          decompose_loop threshold (a div 10) (order * 10) dust (handled \<or> dust \<noteq> 0) ?out"
        using True gt nz by (simp add: decompose_loop.simps [of _ a] Let_def)
      ultimately show ?thesis
        using "1.IH"(2) [OF True refl refl refl gt refl refl refl _ "1.prems"(2) next_order] nz
        by simp
    qed
  qed
qed

lemma decompose_amount_decomposes: "decomposes (unat amount) threshold (decompose_amount amount threshold)"
proof -
  have "decompose_inv (unat amount) (unat threshold) (unat amount) 1 (unat (0::u64)) False (map unat [])"
    by (simp add: decompose_inv_def) (metis power_0 One_nat_def)
  from decompose_loop_correct [OF this, of 1] show ?thesis by (simp add: decompose_amount_def)
qed

text \<open>\<open>decompose_amount\<close> splits an amount into strictly ascending non-zero pieces that add up to it, each
  of them at most the dust threshold or a single digit times a power of ten.\<close>

theorem decompose_amount_correct:
  "sum_list (map unat (decompose_amount amount threshold)) = unat amount \<and>
   sorted_wrt (<) (decompose_amount amount threshold) \<and>
   list_all (\<lambda>x. x \<noteq> 0 \<and> (x \<le> threshold \<or> digit_piece (unat x))) (decompose_amount amount threshold)"
  using decompose_amount_decomposes [of amount threshold] by (simp add: decomposes_def list_all_iff)

end
