(* ===== verification/Tx_Extra.thy ===== *)
theory Tx_Extra
  imports Tx
begin

text \<open>
  The \<open>extra\<close> field of a transaction (\<open>tx.rs\<close>, section tx\_extra): the consensus parser
  \<open>parse_extra\<close>, the looser wallet parser \<open>parse_extra_wallet\<close>, and the builders. A cursor into
  \<open>extra\<close> is modelled by the bytes from the cursor on, so \<open>extra.len() - i\<close> is the length of that
  suffix.
\<close>

section \<open>The consensus parser\<close>

abbreviation (input) TX_EXTRA_TAG_PADDING :: u8 where "TX_EXTRA_TAG_PADDING \<equiv> 0x00"
abbreviation (input) TX_EXTRA_TAG_PUBKEY :: u8 where "TX_EXTRA_TAG_PUBKEY \<equiv> 0x01"
abbreviation (input) TX_EXTRA_NONCE :: u8 where "TX_EXTRA_NONCE \<equiv> 0x02"
abbreviation (input) TX_EXTRA_MERGE_MINING_TAG :: u8 where "TX_EXTRA_MERGE_MINING_TAG \<equiv> 0x03"
abbreviation (input) TX_EXTRA_TRANSACTION_POW_NONCE :: u8 where "TX_EXTRA_TRANSACTION_POW_NONCE \<equiv> 0x04"
abbreviation (input) TX_EXTRA_NONCE_PAYMENT_ID :: u8 where "TX_EXTRA_NONCE_PAYMENT_ID \<equiv> 0x00"
abbreviation (input) TX_EXTRA_NONCE_ENCRYPTED_SHORT_PAYMENT_ID :: u8 where "TX_EXTRA_NONCE_ENCRYPTED_SHORT_PAYMENT_ID \<equiv> 0x03"
abbreviation (input) TX_EXTRA_ARBITRARY_DATA :: u8 where "TX_EXTRA_ARBITRARY_DATA \<equiv> 0x7F"

record merge_mining_tag =
  mm_depth :: u64
  merkle_root :: hash

record parsed_extra =
  pe_public_key :: "bytes option"
  pe_nonce :: "bytes option"
  pe_merge_mining_tag :: "merge_mining_tag option"
  pe_padding :: "nat option"
  pe_well_formed :: bool

definition pe_fail :: "parsed_extra \<Rightarrow> parsed_extra" where
  "pe_fail out = out \<lparr>pe_well_formed := False\<rparr>"

text \<open>The padding loop: \<open>None\<close> is the abort on a non-zero byte.\<close>

fun padding_loop :: "nat \<Rightarrow> bytes \<Rightarrow> (nat \<times> bytes) option" where
  "padding_loop n [] = Some (n, [])"
| "padding_loop n (b # bs) =
     (if n \<le> 255 then if b \<noteq> 0 then None else padding_loop (n + 1) bs
      else Some (n, b # bs))"

lemma padding_loop_shorter: "padding_loop n bs = Some (m, rest) \<Longrightarrow> length rest \<le> length bs"
  by (induction n bs rule: padding_loop.induct) (auto split: if_splits)

text \<open>The merge-mining field after its tag: the tag found and the bytes after the body.\<close>

definition parse_mm_body :: "bytes \<Rightarrow> (merge_mining_tag \<times> bytes) option" where
  "parse_mm_body rest =
     (case read_varint rest of Inl _ \<Rightarrow> None | Inr (len, ln) \<Rightarrow>
        let rest = drop ln rest in
        if unat len > length rest then None
        else let body = take (unat len) rest; rest = drop (unat len) rest in
          (case read_varint body of Inl _ \<Rightarrow> None | Inr (depth, dn) \<Rightarrow>
             if length body - dn < 32 then None
             else Some (\<lparr>mm_depth = depth, merkle_root = take 32 (drop dn body)\<rparr>, rest)))"

lemma parse_mm_body_shorter: "parse_mm_body bs = Some (t, rest) \<Longrightarrow> length rest \<le> length bs"
  by (auto simp: parse_mm_body_def Let_def split: sum.splits prod.splits if_splits)

function parse_extra_loop :: "parsed_extra \<Rightarrow> bytes \<Rightarrow> parsed_extra" where
  "parse_extra_loop out [] = out"
| "parse_extra_loop out (tag # rest) =
     (if tag = TX_EXTRA_TAG_PADDING then
        if pe_padding out \<noteq> None then out
        else (case padding_loop 1 rest of None \<Rightarrow> pe_fail out
          | Some (n, rest') \<Rightarrow> if n > 255 then pe_fail out
              else parse_extra_loop (out \<lparr>pe_padding := Some n\<rparr>) rest')
      else if tag = TX_EXTRA_TAG_PUBKEY then
        if pe_public_key out \<noteq> None then out
        else if length rest < 32 then pe_fail out
        else parse_extra_loop (out \<lparr>pe_public_key := Some (take 32 rest)\<rparr>) (drop 32 rest)
      else if tag = TX_EXTRA_NONCE then
        if pe_nonce out \<noteq> None then out
        else (case rest of [] \<Rightarrow> pe_fail out
          | b # rest' \<Rightarrow> if unat b > length rest' then pe_fail out
              else parse_extra_loop (out \<lparr>pe_nonce := Some (take (unat b) rest')\<rparr>) (drop (unat b) rest'))
      else if tag = TX_EXTRA_MERGE_MINING_TAG then
        if pe_merge_mining_tag out \<noteq> None then parse_extra_loop out rest
        else (case parse_mm_body rest of None \<Rightarrow> pe_fail out
          | Some (t, rest') \<Rightarrow> parse_extra_loop (out \<lparr>pe_merge_mining_tag := Some t\<rparr>) rest')
      else parse_extra_loop out rest)"
  by pat_completeness auto
termination
  by (relation "measure (\<lambda>(out, bs). length bs)")
     (auto dest: padding_loop_shorter parse_mm_body_shorter)

declare parse_extra_loop.simps(2) [simp del]

definition parse_extra :: "bytes \<Rightarrow> parsed_extra" where
  "parse_extra bs = parse_extra_loop
     \<lparr>pe_public_key = None, pe_nonce = None, pe_merge_mining_tag = None, pe_padding = None,
      pe_well_formed = True\<rparr> bs"

section \<open>The wallet parser\<close>

datatype payment_id = Long bytes | EncryptedShort bytes

record wallet_extra =
  we_public_key :: "bytes option"
  we_payment_id :: "payment_id option"
  we_arbitrary_data :: "bytes option"
  we_merge_mining_tag :: "merge_mining_tag option"
  we_pow_nonce :: "bytes option"

text \<open>\<open>varint::read\<close> with \<open>(0, 0)\<close> for an error.\<close>

definition read_or_zero :: "bytes \<Rightarrow> u64 \<times> nat" where
  "read_or_zero bs = (case read_varint bs of Inr (v, n) \<Rightarrow> (v, n) | Inl _ \<Rightarrow> (0, 0))"

text \<open>The loop over the nonce; the state is the output, \<open>seen_pid\<close>, \<open>seen_data\<close> and \<open>advance\<close>.\<close>

type_synonym nonce_state = "wallet_extra \<times> bool \<times> bool \<times> nat"

function nonce_loop :: "nonce_state \<Rightarrow> bytes \<Rightarrow> nonce_state" where
  "nonce_loop st [] = st"
| "nonce_loop (out, seen_pid, seen_data, advance) (sb # rest) =
     (let nrem = length (sb # rest);
          (data_size, read_data_size) = read_or_zero rest
      in
      if sb = TX_EXTRA_NONCE_PAYMENT_ID \<and> nrem > 32 \<and> \<not> seen_pid then
        nonce_loop (out \<lparr>we_payment_id := Some (Long (take 32 rest))\<rparr>, True, seen_data, advance + (1 + 32))
          (drop 32 rest)
      else if (sb = 0x01 \<or> sb = 0x02) \<and> nrem > 8 then
        nonce_loop (out, seen_pid, seen_data, advance + (1 + 8)) (drop 8 rest)
      else if sb = TX_EXTRA_NONCE_ENCRYPTED_SHORT_PAYMENT_ID \<and> nrem > 8 \<and> \<not> seen_pid then
        nonce_loop (out \<lparr>we_payment_id := Some (EncryptedShort (take 8 rest))\<rparr>, True, seen_data,
          advance + (1 + 8)) (drop 8 rest)
      else if sb = TX_EXTRA_ARBITRARY_DATA \<and> nrem > 1 \<and> \<not> seen_data \<and>
          nrem - 1 - read_data_size \<ge> unat data_size then
        nonce_loop (out \<lparr>we_arbitrary_data := Some (take (unat data_size) (drop read_data_size rest))\<rparr>,
          seen_pid, True, advance + (1 + read_data_size + unat data_size))
          (drop (read_data_size + unat data_size) rest)
      else nonce_loop (out, seen_pid, seen_data, advance) rest)"
  by pat_completeness auto
termination
  by (relation "measure (\<lambda>(st, bs). length bs)") auto

declare nonce_loop.simps(2) [simp del]

text \<open>The flags of the outer loop.\<close>

record seen =
  seen_pk :: bool
  seen_nonce :: bool
  seen_data :: bool
  seen_pid :: bool
  seen_mm :: bool
  seen_pow :: bool

text \<open>The merge-mining branch: the tag and how far the cursor moves past the tag byte.\<close>

definition wallet_mm :: "bytes \<Rightarrow> (merge_mining_tag \<times> nat) option" where
  "wallet_mm rest =
     (let (data_size, read_data_size) = read_or_zero rest in
      if length rest + 1 - read_data_size > unat data_size \<and> data_size \<ge> 33 then
        let (depth, read_depth_size) = read_or_zero (drop read_data_size rest);
            start = read_data_size + read_depth_size
        in if start + 32 \<le> length rest
           then Some (\<lparr>mm_depth = depth, merkle_root = take 32 (drop start rest)\<rparr>, read_depth_size + 32)
           else None
      else None)"

function parse_extra_wallet_loop :: "wallet_extra \<Rightarrow> seen \<Rightarrow> bytes \<Rightarrow> wallet_extra" where
  "parse_extra_wallet_loop out s [] = out"
| "parse_extra_wallet_loop out s (c # rest) =
     (if seen_pk s \<and> seen_pid s \<and> seen_mm s \<and> seen_data s \<and> seen_pow s then out
      else let remaining = length (c # rest) in
      if c = TX_EXTRA_TAG_PUBKEY \<and> remaining > 32 \<and> \<not> seen_pk s then
        parse_extra_wallet_loop (out \<lparr>we_public_key := Some (take 32 rest)\<rparr>) (s \<lparr>seen_pk := True\<rparr>) (drop 32 rest)
      else if c = TX_EXTRA_NONCE \<and> remaining > 1 \<and> \<not> seen_nonce s then
        let (nonce_size, read_nonce_size) = read_or_zero rest;
            (out', pid', data', advance) =
              (if remaining - read_nonce_size > unat nonce_size
               then nonce_loop (out, seen_pid s, seen_data s, read_nonce_size)
                 (take (unat nonce_size) (drop read_nonce_size rest))
               else (out, seen_pid s, seen_data s, read_nonce_size))
        in parse_extra_wallet_loop out' (s \<lparr>seen_pid := pid', seen_data := data', seen_nonce := True\<rparr>)
             (drop advance rest)
      else case (if c = TX_EXTRA_MERGE_MINING_TAG \<and> remaining > 1 \<and> \<not> seen_mm s then wallet_mm rest else None) of
        Some (t, advance) \<Rightarrow>
          parse_extra_wallet_loop (out \<lparr>we_merge_mining_tag := Some t\<rparr>) (s \<lparr>seen_mm := True\<rparr>) (drop advance rest)
      | None \<Rightarrow>
          if c = TX_EXTRA_TRANSACTION_POW_NONCE \<and> remaining > 8 \<and> \<not> seen_pow s then
            parse_extra_wallet_loop (out \<lparr>we_pow_nonce := Some (take 8 rest)\<rparr>) (s \<lparr>seen_pow := True\<rparr>) (drop 8 rest)
          else parse_extra_wallet_loop out s rest)"
  by pat_completeness auto
termination
  by (relation "measure (\<lambda>(out, s, bs). length bs)") auto

declare parse_extra_wallet_loop.simps(2) [simp del]

definition no_extra :: wallet_extra where
  "no_extra = \<lparr>we_public_key = None, we_payment_id = None, we_arbitrary_data = None,
     we_merge_mining_tag = None, we_pow_nonce = None\<rparr>"

definition parse_extra_wallet :: "bytes \<Rightarrow> wallet_extra" where
  "parse_extra_wallet bs = parse_extra_wallet_loop no_extra
     \<lparr>seen_pk = False, seen_nonce = False, seen_data = False, seen_pid = False, seen_mm = False,
      seen_pow = False\<rparr> bs"

section \<open>The builders\<close>

definition build_extra :: "bytes \<Rightarrow> bytes option \<Rightarrow> bytes option \<Rightarrow> bytes result" where
  "build_extra tx_public_key nonce pow_nonce =
     (let out = TX_EXTRA_TAG_PUBKEY # tx_public_key in
      case nonce of
        Some n \<Rightarrow>
          if length n > 255 then Inl (Malformed ''tx_extra nonce longer than 255 bytes'')
          else Inr (out @ [TX_EXTRA_NONCE, of_nat (length n)] @ n @
            (case pow_nonce of Some p \<Rightarrow> TX_EXTRA_TRANSACTION_POW_NONCE # p | None \<Rightarrow> []))
      | None \<Rightarrow> Inr (out @ (case pow_nonce of Some p \<Rightarrow> TX_EXTRA_TRANSACTION_POW_NONCE # p | None \<Rightarrow> [])))"

definition build_nonce :: "payment_id option \<Rightarrow> bytes option \<Rightarrow> bytes" where
  "build_nonce pid arbitrary_data =
     (case pid of
        Some (Long i) \<Rightarrow> TX_EXTRA_NONCE_PAYMENT_ID # i
      | Some (EncryptedShort i) \<Rightarrow> TX_EXTRA_NONCE_ENCRYPTED_SHORT_PAYMENT_ID # i
      | None \<Rightarrow> []) @
     (case arbitrary_data of
        Some d \<Rightarrow> varint_write [TX_EXTRA_ARBITRARY_DATA] (of_nat (length d)) @ d
      | None \<Rightarrow> [])"

definition append_merge_mining_tag :: "bytes \<Rightarrow> merge_mining_tag \<Rightarrow> bytes" where
  "append_merge_mining_tag bs t =
     (let body = encode (mm_depth t) @ merkle_root t
      in varint_write (bs @ [TX_EXTRA_MERGE_MINING_TAG]) (of_nat (length body)) @ body)"

section \<open>What the consensus parser recovers\<close>

text \<open>A field once read is never replaced, whatever bytes follow.\<close>

lemma parse_extra_keeps:
  shows "pe_public_key out = Some k \<Longrightarrow> pe_public_key (parse_extra_loop out bs) = Some k"
    and "pe_nonce out = Some n \<Longrightarrow> pe_nonce (parse_extra_loop out bs) = Some n"
    and "pe_merge_mining_tag out = Some t \<Longrightarrow> pe_merge_mining_tag (parse_extra_loop out bs) = Some t"
  by (induction out bs rule: parse_extra_loop.induct)
     (auto simp: parse_extra_loop.simps(2) pe_fail_def split: option.splits prod.splits list.splits)

lemma parse_extra_pubkey:
  "length pk = 32 \<Longrightarrow> pe_public_key out = None \<Longrightarrow>
   parse_extra_loop out (TX_EXTRA_TAG_PUBKEY # pk @ rest) = parse_extra_loop (out \<lparr>pe_public_key := Some pk\<rparr>) rest"
  by (simp add: parse_extra_loop.simps(2))

lemma parse_extra_nonce:
  "length n \<le> 255 \<Longrightarrow> pe_nonce out = None \<Longrightarrow>
   parse_extra_loop out (TX_EXTRA_NONCE # of_nat (length n) # n @ rest) =
     parse_extra_loop (out \<lparr>pe_nonce := Some n\<rparr>) rest"
  by (simp add: parse_extra_loop.simps(2) unat_of_nat_less)

lemma parse_mm_body_build:
  assumes "length (merkle_root t) = 32" and body: "body = encode (mm_depth t) @ merkle_root t"
  shows "parse_mm_body (encode (of_nat (length body)) @ body @ rest) = Some (t, rest)"
proof -
  have n: "unat (of_nat (length body) :: u64) = length body"
    using length_encode_le_10 [of "mm_depth t"] assms by (intro unat_of_nat_less) simp
  have "read_varint body = Inr (mm_depth t, length (encode (mm_depth t)))"
    unfolding body by (rule read_varint_encode)
  then show ?thesis
    using assms(1) by (simp add: parse_mm_body_def read_varint_encode Let_def n) (simp add: body)
qed

lemma parse_extra_mm:
  assumes "length (merkle_root t) = 32" "pe_merge_mining_tag out = None"
    "body = encode (mm_depth t) @ merkle_root t"
  shows "parse_extra_loop out (TX_EXTRA_MERGE_MINING_TAG # encode (of_nat (length body)) @ body) =
     out \<lparr>pe_merge_mining_tag := Some t\<rparr>"
  using parse_mm_body_build [OF assms(1,3), of "[]"] assms(2)
  by (simp add: parse_extra_loop.simps(2))

definition pe0 :: parsed_extra where
  "pe0 = \<lparr>pe_public_key = None, pe_nonce = None, pe_merge_mining_tag = None, pe_padding = None,
     pe_well_formed = True\<rparr>"

lemma parse_extra_pe0: "parse_extra bs = parse_extra_loop pe0 bs"
  by (simp add: parse_extra_def pe0_def)

lemma parse_extra_built:
  assumes "length pk = 32" and "build_extra pk nonce pow = Inr bs"
  shows "parse_extra (bs @ tail) =
      parse_extra_loop (pe0 \<lparr>pe_public_key := Some pk, pe_nonce := nonce\<rparr>)
        ((case pow of Some p \<Rightarrow> TX_EXTRA_TRANSACTION_POW_NONCE # p | None \<Rightarrow> []) @ tail)"
  using assms
  by (auto simp: parse_extra_pe0 build_extra_def parse_extra_pubkey parse_extra_nonce pe0_def Let_def
      split: option.splits if_splits)

text \<open>The consensus parser recovers the public key and the nonce that \<open>build_extra\<close> wrote whatever
  bytes follow them, and it reads a built field with a merge-mining tag appended as exactly those
  fields, well formed.\<close>

theorem parse_extra_recovers:
  assumes "length pk = 32" and "build_extra pk nonce pow = Inr bs" and "length (merkle_root t) = 32"
  shows "pe_public_key (parse_extra (bs @ tail)) = Some pk \<and>
    (nonce \<noteq> None \<longrightarrow> pe_nonce (parse_extra (bs @ tail)) = nonce) \<and>
    (pow = None \<longrightarrow> parse_extra (append_merge_mining_tag bs t) =
       \<lparr>pe_public_key = Some pk, pe_nonce = nonce, pe_merge_mining_tag = Some t, pe_padding = None,
        pe_well_formed = True\<rparr>)"
proof (intro conjI impI)
  note built = parse_extra_built [OF assms(1,2)]
  show "pe_public_key (parse_extra (bs @ tail)) = Some pk"
    by (simp add: built parse_extra_keeps)
  show "pe_nonce (parse_extra (bs @ tail)) = nonce" if "nonce \<noteq> None"
    using that by (auto simp: built parse_extra_keeps)
  show "parse_extra (append_merge_mining_tag bs t) =
       \<lparr>pe_public_key = Some pk, pe_nonce = nonce, pe_merge_mining_tag = Some t, pe_padding = None,
        pe_well_formed = True\<rparr>" if "pow = None"
    using parse_extra_mm [OF assms(3) _ refl, of "pe0 \<lparr>pe_public_key := Some pk, pe_nonce := nonce\<rparr>"] that
    by (simp add: append_merge_mining_tag_def varint_write_eq Let_def built pe0_def del: length_append of_nat_add)
qed

theorem parse_extra_recovers_witness:
  "build_extra (replicate 32 7) (Some [1, 2, 3]) None =
     Inr (1 # replicate 32 7 @ [2, 3, 1, 2, 3]) \<and>
   pe_nonce (parse_extra ((1 # replicate 32 7 @ [2, 3, 1, 2, 3]) @ [2, 1, 9])) = Some [1, 2, 3] \<and>
   parse_extra (append_merge_mining_tag (1 # replicate 32 7 @ [2, 3, 1, 2, 3])
       \<lparr>mm_depth = 300, merkle_root = replicate 32 5\<rparr>) =
     \<lparr>pe_public_key = Some (replicate 32 7), pe_nonce = Some [1, 2, 3],
      pe_merge_mining_tag = Some \<lparr>mm_depth = 300, merkle_root = replicate 32 5\<rparr>, pe_padding = None,
      pe_well_formed = True\<rparr>"
proof -
  have b: "build_extra (replicate 32 7) (Some [1, 2, 3]) None = Inr (1 # replicate 32 7 @ [2, 3, 1, 2, 3])"
    by (simp add: build_extra_def)
  from parse_extra_recovers [OF _ b, of "\<lparr>mm_depth = 300, merkle_root = replicate 32 5\<rparr>" "[2, 1, 9]"] b
  show ?thesis by simp
qed

section \<open>What the wallet parser recovers\<close>

definition payment_id_ok :: "payment_id \<Rightarrow> bool" where
  "payment_id_ok p = (case p of Long i \<Rightarrow> length i = 32 | EncryptedShort i \<Rightarrow> length i = 8)"

lemma read_or_zero_encode [simp]: "read_or_zero (encode v @ rest) = (v, length (encode v))"
  by (simp add: read_or_zero_def read_varint_encode)

lemma nonce_loop_data:
  assumes "length d < 2 ^ 64"
  shows "nonce_loop (out, sp, False, adv) (TX_EXTRA_ARBITRARY_DATA # encode (of_nat (length d)) @ d) =
    (out \<lparr>we_arbitrary_data := Some d\<rparr>, sp, True, adv + length (TX_EXTRA_ARBITRARY_DATA # encode (of_nat (length d)) @ d))"
  using assms by (simp add: nonce_loop.simps(2) Let_def unat_of_nat_less)

lemma nonce_loop_build:
  assumes "\<And>d. data = Some d \<Longrightarrow> length d < 2 ^ 64" and "\<And>p. pid = Some p \<Longrightarrow> payment_id_ok p"
    and "we_payment_id out = None" "we_arbitrary_data out = None"
  shows "nonce_loop (out, False, False, adv) (build_nonce pid data) =
    (out \<lparr>we_payment_id := pid, we_arbitrary_data := data\<rparr>, pid \<noteq> None, data \<noteq> None,
     adv + length (build_nonce pid data))"
proof -
  let ?d = "case data of Some d \<Rightarrow> TX_EXTRA_ARBITRARY_DATA # encode (of_nat (length d)) @ d | None \<Rightarrow> []"
  have data: "nonce_loop (o', sp, False, a) ?d = (o' \<lparr>we_arbitrary_data := data\<rparr>, sp, data \<noteq> None, a + length ?d)"
    if "we_arbitrary_data o' = None" for o' sp a
    using assms(1) that by (cases data) (simp_all add: nonce_loop_data del: length_append)
  have same: "out \<lparr>we_payment_id := None\<rparr> = out" using assms(3) by (cases out) simp
  have pid: "nonce_loop (out, False, False, adv)
      ((case pid of Some (Long i) \<Rightarrow> TX_EXTRA_NONCE_PAYMENT_ID # i
        | Some (EncryptedShort i) \<Rightarrow> TX_EXTRA_NONCE_ENCRYPTED_SHORT_PAYMENT_ID # i | None \<Rightarrow> []) @ rest) =
      nonce_loop (out \<lparr>we_payment_id := pid\<rparr>, pid \<noteq> None, False, adv +
        length (case pid of Some (Long i) \<Rightarrow> TX_EXTRA_NONCE_PAYMENT_ID # i
        | Some (EncryptedShort i) \<Rightarrow> TX_EXTRA_NONCE_ENCRYPTED_SHORT_PAYMENT_ID # i | None \<Rightarrow> [])) rest" for rest
    using assms(2) same
    by (auto simp: payment_id_ok_def nonce_loop.simps(2) Let_def add.commute [of adv] split: option.splits payment_id.splits prod.splits)
  have eq: "(case data of Some d \<Rightarrow> varint_write [TX_EXTRA_ARBITRARY_DATA] (of_nat (length d)) @ d | None \<Rightarrow> []) = ?d"
    by (simp add: varint_write_eq split: option.split)
  show ?thesis
    using data [of "out \<lparr>we_payment_id := pid\<rparr>"] assms(4)
    by (simp add: build_nonce_def eq pid)
qed

lemma wallet_pubkey:
  "length pk = 32 \<Longrightarrow> \<not> seen_pk s \<Longrightarrow>
   parse_extra_wallet_loop out s (TX_EXTRA_TAG_PUBKEY # pk @ rest) =
     parse_extra_wallet_loop (out \<lparr>we_public_key := Some pk\<rparr>) (s \<lparr>seen_pk := True\<rparr>) rest"
  by (simp add: parse_extra_wallet_loop.simps(2))

lemma wallet_pow:
  "length p = 8 \<Longrightarrow> \<not> seen_pow s \<Longrightarrow>
   parse_extra_wallet_loop out s (TX_EXTRA_TRANSACTION_POW_NONCE # p) = out \<lparr>we_pow_nonce := Some p\<rparr>"
  by (simp add: parse_extra_wallet_loop.simps(2))

lemma wallet_nonce:
  assumes "length n < 128" and "\<not> seen_nonce s" "\<not> seen_pow s"
    and "nonce_loop (out, seen_pid s, seen_data s, 1) n = (out', pid', data', 1 + length n)"
  shows "parse_extra_wallet_loop out s (TX_EXTRA_NONCE # of_nat (length n) # n @ rest) =
     parse_extra_wallet_loop out' (s \<lparr>seen_pid := pid', seen_data := data', seen_nonce := True\<rparr>) rest"
proof -
  have n: "unat (of_nat (length n) :: u64) = length n"
    using assms(1) by (intro unat_of_nat_less) simp
  have "ucast (of_nat (length n) :: u64) = (of_nat (length n) :: u8)" by (metis n of_nat_unat)
  then have "encode (of_nat (length n)) = [of_nat (length n)]"
    using assms(1) n by (subst encode_small) (simp_all add: word_le_nat_alt)
  from read_or_zero_encode [of "of_nat (length n)" "n @ rest", unfolded this]
  have "read_or_zero (of_nat (length n) # n @ rest) = (of_nat (length n), 1)" by simp
  then show ?thesis
    using assms by (simp add: parse_extra_wallet_loop.simps(2) n)
qed

text \<open>The wallet parser reads back exactly the public key, payment id, arbitrary data and
  proof-of-work nonce that the builders wrote, for a nonce below 128 bytes: its length is one byte to
  the builder and a varint to this parser, and the two agree only there.\<close>

theorem parse_extra_wallet_recovers:
  assumes "length pk = 32" and "\<And>p. pid = Some p \<Longrightarrow> payment_id_ok p"
    and "length (build_nonce pid data) < 128" and "\<And>p. pow = Some p \<Longrightarrow> length p = 8"
  shows "\<exists>bs. build_extra pk (Some (build_nonce pid data)) pow = Inr bs \<and>
    parse_extra_wallet bs = \<lparr>we_public_key = Some pk, we_payment_id = pid, we_arbitrary_data = data,
      we_merge_mining_tag = None, we_pow_nonce = pow\<rparr>"
proof -
  let ?n = "build_nonce pid data"
  have data: "length d < 2 ^ 64" if "data = Some d" for d
    using assms(3) that by (simp add: build_nonce_def)
  have loop: "nonce_loop (no_extra \<lparr>we_public_key := Some pk\<rparr>, False, False, 1) ?n =
      (no_extra \<lparr>we_public_key := Some pk, we_payment_id := pid, we_arbitrary_data := data\<rparr>,
       pid \<noteq> None, data \<noteq> None, 1 + length ?n)"
    using nonce_loop_build [OF data assms(2), where out = "no_extra \<lparr>we_public_key := Some pk\<rparr>" and adv = 1]
    by (simp add: no_extra_def)
  have nonce: "parse_extra_wallet_loop (no_extra \<lparr>we_public_key := Some pk\<rparr>) s
        (TX_EXTRA_NONCE # of_nat (length ?n) # ?n @ rest) =
      parse_extra_wallet_loop
        (no_extra \<lparr>we_public_key := Some pk, we_payment_id := pid, we_arbitrary_data := data\<rparr>)
        (s \<lparr>seen_pid := pid \<noteq> None, seen_data := data \<noteq> None, seen_nonce := True\<rparr>) rest"
    if "\<not> seen_nonce s" "\<not> seen_pow s" "\<not> seen_pid s" "\<not> seen_data s" for s rest
    using that loop by (intro wallet_nonce [OF assms(3)]) simp_all
  show ?thesis
    using assms(3,4) nonce [where rest = "[]"]
    by (cases pow) (simp_all add: build_extra_def parse_extra_wallet_def wallet_pubkey assms(1)
        nonce wallet_pow, simp_all add: no_extra_def)
qed

theorem parse_extra_wallet_recovers_witness:
  "\<exists>bs. build_extra (replicate 32 7) (Some (build_nonce (Some (EncryptedShort (replicate 8 1))) (Some [3, 4])))
      (Some (replicate 8 6)) = Inr bs \<and>
    parse_extra_wallet bs = \<lparr>we_public_key = Some (replicate 32 7),
      we_payment_id = Some (EncryptedShort (replicate 8 1)), we_arbitrary_data = Some [3, 4],
      we_merge_mining_tag = None, we_pow_nonce = Some (replicate 8 6)\<rparr>"
  by (rule parse_extra_wallet_recovers)
     (auto simp: payment_id_ok_def build_nonce_def varint_write_eq encode_eval)

end
