(* ===== verification/Pow.thy ===== *)
theory Pow
  imports Prelude
begin

text \<open>
  Hashing (\<open>wrkz-pow\<close>): the Keccak sponge of \<open>keccak.rs\<close> over the permutation of the external
  \<open>keccak\<close> crate, the Merkle tree of \<open>tree.rs\<close> over \<open>cn_fast_hash\<close>, the difficulty test and the choice
  of a proof of work by block version of \<open>lib.rs\<close>. The permutation \<open>f\<close>, the fast hash \<open>H\<close> and the slow
  hashes are arguments.
\<close>

section \<open>The Keccak sponge\<close>

definition RATE :: nat where "RATE = 136"

text \<open>\<open>as_chunks\<close>: the whole chunks, the remainder is what is left over.\<close>

fun chunks :: "nat \<Rightarrow> 'a list \<Rightarrow> 'a list list" where
  "chunks n xs = (if n = 0 \<or> length xs < n then [] else take n xs # chunks n (drop n xs))"

declare chunks.simps [simp del]

definition remainder :: "nat \<Rightarrow> 'a list \<Rightarrow> 'a list" where
  "remainder n xs = drop (n * (length xs div n)) xs"

fun zip_xor :: "u64 list \<Rightarrow> bytes list \<Rightarrow> u64 list" where
  "zip_xor (w # ws) (b # bs) = (w XOR from_le b) # zip_xor ws bs"
| "zip_xor ws _ = ws"

definition xor_block :: "u64 list \<Rightarrow> bytes \<Rightarrow> u64 list" where
  "xor_block st block = zip_xor st (chunks 8 block)"

definition last_block :: "bytes \<Rightarrow> bytes" where
  "last_block rest =
     (let last = replicate RATE 0;
          last = rest @ drop (length rest) last;
          last = last [length rest := 0x01]
      in last [RATE - 1 := last ! (RATE - 1) OR 0x80])"

definition absorb :: "(u64 list \<Rightarrow> u64 list) \<Rightarrow> bytes \<Rightarrow> u64 list" where
  "absorb f data =
     (let st = fold (\<lambda>block st. f (xor_block st block)) (chunks RATE data) (replicate 25 0)
      in f (xor_block st (last_block (remainder RATE data))))"

definition state_to_bytes :: "u64 list \<Rightarrow> bytes" where
  "state_to_bytes st = concat (map (to_le 8) st)"

definition keccak1600 :: "(u64 list \<Rightarrow> u64 list) \<Rightarrow> bytes \<Rightarrow> bytes" where
  "keccak1600 f data = state_to_bytes (absorb f data)"

definition keccakf :: "(u64 list \<Rightarrow> u64 list) \<Rightarrow> bytes \<Rightarrow> bytes" where
  "keccakf f state = state_to_bytes (f (map from_le (chunks 8 state)))"

definition cn_fast_hash :: "(u64 list \<Rightarrow> u64 list) \<Rightarrow> bytes \<Rightarrow> hash" where
  "cn_fast_hash f data = concat (map (to_le 8) (take 4 (absorb f data)))"

section \<open>The Merkle tree\<close>

definition hash_pair :: "(bytes \<Rightarrow> hash) \<Rightarrow> hash \<Rightarrow> hash \<Rightarrow> hash" where
  "hash_pair H left right = H (left @ right)"

text \<open>The position of the top bit, \<open>usize::BITS - 1 - n.leading_zeros()\<close>.\<close>

fun top_bit :: "nat \<Rightarrow> nat" where
  "top_bit n = (if n < 2 then 0 else Suc (top_bit (n div 2)))"

declare top_bit.simps [simp del]

definition floor_pow2 :: "nat \<Rightarrow> nat" where
  "floor_pow2 n = 2 ^ top_bit n"

definition tree_depth :: "nat \<Rightarrow> nat" where
  "tree_depth count = (if count = 0 then 0 else top_bit count)"

text \<open>\<open>as_chunks::<2>\<close> mapped through \<open>hash_pair\<close>.\<close>

fun hash_pairs :: "(bytes \<Rightarrow> hash) \<Rightarrow> hash list \<Rightarrow> hash list" where
  "hash_pairs H (l # r # rest) = hash_pair H l r # hash_pairs H rest"
| "hash_pairs H _ = []"

definition fold_level :: "(bytes \<Rightarrow> hash) \<Rightarrow> nat \<Rightarrow> hash list \<Rightarrow> hash list" where
  "fold_level H cnt ints = fold (\<lambda>j xs. xs [j := hash_pair H (xs ! (2 * j)) (xs ! (2 * j + 1))]) [0..<cnt] ints"

fun tree_loop :: "(bytes \<Rightarrow> hash) \<Rightarrow> nat \<Rightarrow> hash list \<Rightarrow> hash list" where
  "tree_loop H cnt ints =
     (if cnt > 2 then let cnt = cnt div 2 in tree_loop H cnt (fold_level H cnt ints) else ints)"

declare tree_loop.simps [simp del]

text \<open>\<open>None\<close> is the assertion on zero leaves.\<close>

definition tree_hash :: "(bytes \<Rightarrow> hash) \<Rightarrow> hash list \<Rightarrow> hash option" where
  "tree_hash H hashes =
     (if hashes = [] then None
      else let count = length hashes in
        if count = 1 then Some (hashes ! 0)
        else if count = 2 then Some (hash_pair H (hashes ! 0) (hashes ! 1))
        else
          let cnt = floor_pow2 (count - 1);
              direct = 2 * cnt - count;
              ints = take direct hashes @ hash_pairs H (drop direct hashes);
              ints = tree_loop H cnt ints
          in Some (hash_pair H (ints ! 0) (ints ! 1)))"

definition branch_level :: "(bytes \<Rightarrow> hash) \<Rightarrow> nat \<Rightarrow> hash list \<Rightarrow> hash list" where
  "branch_level H cnt ints =
     fold (\<lambda>j xs. xs [j := hash_pair H (xs ! (2 * j + 1)) (xs ! (2 * j + 2))]) [0..<cnt - 1] ints"

fun branch_loop :: "(bytes \<Rightarrow> hash) \<Rightarrow> nat \<Rightarrow> nat \<Rightarrow> hash list \<Rightarrow> hash list \<Rightarrow> hash list" where
  "branch_loop H 0 cnt ints branch = branch"
| "branch_loop H (Suc depth) cnt ints branch =
     (let cnt = cnt div 2;
          branch = branch [depth := ints ! 0]
      in branch_loop H depth cnt (branch_level H cnt ints) branch)"

definition tree_branch :: "(bytes \<Rightarrow> hash) \<Rightarrow> hash list \<Rightarrow> hash list option" where
  "tree_branch H hashes =
     (if hashes = [] then None
      else
        let count = length hashes;
            cnt = floor_pow2 count;
            depth = tree_depth count;
            branch = replicate depth (replicate 32 0);
            direct = 2 * cnt - count;
            ints = drop 1 (take direct hashes) @ hash_pairs H (drop direct hashes)
        in Some (branch_loop H depth cnt ints branch))"

definition path_bit :: "hash option \<Rightarrow> nat \<Rightarrow> bool" where
  "path_bit path depth =
     (case path of None \<Rightarrow> False
      | Some p \<Rightarrow> depth div 8 < length p \<and> (p ! (depth div 8)) AND (push_bit (depth mod 8) 1) \<noteq> 0)"

text \<open>The loop runs over the depths downwards; the state is the two buffers and \<open>from_leaf\<close>.\<close>

definition from_branch_step ::
  "(bytes \<Rightarrow> hash) \<Rightarrow> hash list \<Rightarrow> hash \<Rightarrow> hash option \<Rightarrow> nat \<Rightarrow> hash \<times> hash \<times> bool \<Rightarrow> hash \<times> hash \<times> bool" where
  "from_branch_step H branch leaf path depth = (\<lambda>(b0, b1, from_leaf).
     let side = (if from_leaf then leaf else hash_pair H b0 b1)
     in if path_bit path depth then (branch ! depth, side, False) else (side, branch ! depth, False))"

definition tree_hash_from_branch_with_path ::
  "(bytes \<Rightarrow> hash) \<Rightarrow> hash list \<Rightarrow> hash \<Rightarrow> hash option \<Rightarrow> hash" where
  "tree_hash_from_branch_with_path H branch leaf path =
     (if branch = [] then leaf
      else
        let (b0, b1, _) = fold (from_branch_step H branch leaf path) (rev [0..<length branch])
              (replicate 32 0, replicate 32 0, True)
        in hash_pair H b0 b1)"

definition tree_hash_from_branch :: "(bytes \<Rightarrow> hash) \<Rightarrow> hash list \<Rightarrow> hash \<Rightarrow> hash" where
  "tree_hash_from_branch H branch leaf = tree_hash_from_branch_with_path H branch leaf None"

section \<open>The difficulty test\<close>

definition hash_word :: "hash \<Rightarrow> nat \<Rightarrow> 128 word" where
  "hash_word h i = ucast (from_le (take 8 (drop (8 * i) h)) :: u64)"

definition check_hash :: "hash \<Rightarrow> u64 \<Rightarrow> bool" where
  "check_hash h difficulty =
     (let d = ucast difficulty :: 128 word;
          p3 = hash_word h 3 * d
      in if drop_bit 64 p3 \<noteq> 0 then False
         else
           let p0 = hash_word h 0 * d;
               p1 = hash_word h 1 * d;
               p2 = hash_word h 2 * d;
               s1 = (p1 AND 0xFFFFFFFFFFFFFFFF) + drop_bit 64 p0;
               s2 = (p2 AND 0xFFFFFFFFFFFFFFFF) + drop_bit 64 p1 + drop_bit 64 s1;
               s3 = p3 + drop_bit 64 p2 + drop_bit 64 s2
           in drop_bit 64 s3 = 0)"

section \<open>The proof of work of a block version\<close>

record cn_params =
  light :: int
  cn_variant :: int
  page_size :: u32
  scratchpad :: u32
  iterations :: u32
  cn_mask :: u64

definition CN_V0 :: cn_params where
  "CN_V0 = \<lparr>light = 0, cn_variant = 0, page_size = 2097152, scratchpad = 2097152, iterations = 1048576,
     cn_mask = 0x1FFFF0\<rparr>"

definition CN_LITE_V1 :: cn_params where
  "CN_LITE_V1 = \<lparr>light = 1, cn_variant = 1, page_size = 2097152, scratchpad = 1048576, iterations = 524288,
     cn_mask = 0xFFFF0\<rparr>"

definition CN_TURTLE_LITE_V2 :: cn_params where
  "CN_TURTLE_LITE_V2 = \<lparr>light = 1, cn_variant = 2, page_size = 262144, scratchpad = 262144,
     iterations = 131072, cn_mask = 0x1FFF0\<rparr>"

definition CN_UPX :: cn_params where
  "CN_UPX = \<lparr>light = 2, cn_variant = 2, page_size = 131072, scratchpad = 131072, iterations = 32768,
     cn_mask = 0x1FFF0\<rparr>"

text \<open>\<open>check_params\<close>: false is a failed assertion.\<close>

definition check_params :: "bytes \<Rightarrow> cn_params \<Rightarrow> bool" where
  "check_params data p \<longleftrightarrow>
     (0 \<le> cn_variant p \<and> cn_variant p \<le> 2) \<and>
     (cn_variant p \<noteq> 1 \<or> length data \<ge> 43) \<and>
     (scratchpad p > 0 \<and> scratchpad p mod 128 = 0) \<and>
     (cn_mask p AND 0xF = 0 \<and> (cn_mask p OR 0x3F) < ucast (scratchpad p))"

text \<open>\<open>None\<close> is the panic of the assertions; the slow hash itself is an argument.\<close>

definition cn_slow_hash :: "(bytes \<Rightarrow> cn_params \<Rightarrow> hash) \<Rightarrow> bytes \<Rightarrow> cn_params \<Rightarrow> hash option" where
  "cn_slow_hash slow data p = (if check_params data p then Some (slow data p) else None)"

definition chukwa_slow_hash :: "(bytes \<Rightarrow> bytes \<Rightarrow> hash) \<Rightarrow> bytes \<Rightarrow> hash option" where
  "chukwa_slow_hash argon2id data = (if length data \<ge> 16 then Some (argon2id data (take 16 data)) else None)"

text \<open>The outer option is a panic, the inner one the \<open>None\<close> of a version without an algorithm.\<close>

definition pow_hash_for_block_version ::
  "(bytes \<Rightarrow> cn_params \<Rightarrow> hash) \<Rightarrow> (bytes \<Rightarrow> bytes \<Rightarrow> hash) \<Rightarrow> u8 \<Rightarrow> bytes \<Rightarrow> hash option option" where
  "pow_hash_for_block_version slow argon2id major_version data =
     (if 1 \<le> major_version \<and> major_version \<le> 3 then map_option Some (cn_slow_hash slow data CN_V0)
      else if major_version = 4 then map_option Some (cn_slow_hash slow data CN_LITE_V1)
      else if major_version = 5 then map_option Some (cn_slow_hash slow data CN_TURTLE_LITE_V2)
      else if major_version = 6 then map_option Some (chukwa_slow_hash argon2id data)
      else if major_version = 7 then map_option Some (cn_slow_hash slow data CN_UPX)
      else Some None)"

section \<open>The root and the branch agree\<close>

lemma top_bit_bounds: "0 < n \<Longrightarrow> 2 ^ top_bit n \<le> n" "n < 2 ^ Suc (top_bit n)"
proof (induction n rule: top_bit.induct)
  case (1 n)
  {
    case 1
    then show ?case using "1.IH"(1) by (subst top_bit.simps) auto
  next
    case 2
    show ?case using "1.IH"(2) by (subst top_bit.simps) auto
  }
qed

lemma top_bit_eq: "2 ^ k \<le> n \<Longrightarrow> n < 2 ^ Suc k \<Longrightarrow> top_bit n = k"
proof -
  assume n: "2 ^ k \<le> n" "n < 2 ^ Suc k"
  have "0 < n" using n(1) less_le_trans [of 0 "2 ^ k" n] by simp
  from top_bit_bounds(1) [OF this] top_bit_bounds(2) [of n] n
  have "(2::nat) ^ top_bit n < 2 ^ Suc k" "(2::nat) ^ k < 2 ^ Suc (top_bit n)" by linarith+
  then have "top_bit n < Suc k" "k < Suc (top_bit n)" by (meson one_less_numeral_iff power_strict_increasing_iff semiring_norm(76))+
  then show ?thesis by simp
qed

lemma length_hash_pairs [simp]: "length (hash_pairs H xs) = length xs div 2"
  by (induction H xs rule: hash_pairs.induct) auto

lemma hash_pairs_snoc: "even (length xs) \<Longrightarrow> hash_pairs H (xs @ [a, b]) = hash_pairs H xs @ [hash_pair H a b]"
  by (induction H xs rule: hash_pairs.induct) auto

lemma hd_hash_pairs: "2 \<le> length xs \<Longrightarrow> hash_pairs H xs ! 0 = hash_pair H (xs ! 0) (xs ! 1)"
  by (cases xs; cases "tl xs") auto

text \<open>One level of the tree, computed in place from a base offset: after \<open>k\<close> steps the first \<open>k\<close>
  entries are the pair hashes and the rest is untouched.\<close>

lemma level_fold:
  assumes "off \<le> 1" and "2 * k + off \<le> length ints"
  shows "fold (\<lambda>j xs. xs [j := hash_pair H (xs ! (2 * j + off)) (xs ! (2 * j + 1 + off))]) [0..<k] ints =
    hash_pairs H (take (2 * k) (drop off ints)) @ drop k ints"
  using assms(2)
proof (induction k)
  case (Suc k)
  let ?P = "hash_pairs H (take (2 * k) (drop off ints))"
  have len: "length ?P = k" using Suc.prems by simp
  have nth: "(?P @ drop k ints) ! (2 * k + off) = ints ! (2 * k + off)"
      "(?P @ drop k ints) ! (2 * k + 1 + off) = ints ! (2 * k + 1 + off)"
    using Suc.prems len by (simp_all add: nth_append mult_2 add.assoc)
  have "take (2 * Suc k) (drop off ints) = take (2 * k) (drop off ints) @ [ints ! (2 * k + off), ints ! (2 * k + 1 + off)]"
    using Suc.prems by (simp add: take_Suc_conv_app_nth add.commute)
  then have P: "hash_pairs H (take (2 * Suc k) (drop off ints)) =
      ?P @ [hash_pair H (ints ! (2 * k + off)) (ints ! (2 * k + 1 + off))]"
    using Suc.prems by (simp only: hash_pairs_snoc length_take length_drop) (simp add: hash_pairs_snoc)
  have "drop k ints = ints ! k # drop (Suc k) ints" using Suc.prems by (simp add: Cons_nth_drop_Suc)
  then show ?case
    using Suc len nth by (simp add: P list_update_append del: mult_Suc_right)
qed simp

lemma fold_level_eq:
  "2 * k \<le> length ints \<Longrightarrow> fold_level H k ints = hash_pairs H (take (2 * k) ints) @ drop k ints"
  using level_fold [of 0 k ints H] by (simp add: fold_level_def)

lemma branch_level_eq:
  "2 * (k - 1) + 1 \<le> length ints \<Longrightarrow>
    branch_level H k ints = hash_pairs H (take (2 * (k - 1)) (drop 1 ints)) @ drop (k - 1) ints"
  using level_fold [of 1 "k - 1" ints H] by (simp add: branch_level_def)

text \<open>The reference: pair up the \<open>2 ^ d\<close> nodes of a level until one is left.\<close>

primrec level_root :: "(bytes \<Rightarrow> hash) \<Rightarrow> nat \<Rightarrow> hash list \<Rightarrow> hash" where
  "level_root H 0 xs = xs ! 0"
| "level_root H (Suc d) xs = level_root H d (hash_pairs H xs)"

lemma tree_loop_root:
  "2 ^ Suc d \<le> length ints \<Longrightarrow>
   (let r = tree_loop H (2 ^ Suc d) ints in hash_pair H (r ! 0) (r ! 1)) = level_root H (Suc d) (take (2 ^ Suc d) ints)"
proof (induction d arbitrary: ints)
  case 0
  then show ?case by (simp add: tree_loop.simps hd_hash_pairs)
next
  case (Suc d)
  let ?ints = "fold_level H (2 ^ Suc d) ints"
  have lvl: "?ints = hash_pairs H (take (2 ^ Suc (Suc d)) ints) @ drop (2 ^ Suc d) ints"
    using Suc.prems by (subst fold_level_eq) simp_all
  have len: "length (hash_pairs H (take (2 ^ Suc (Suc d)) ints)) = 2 ^ Suc d"
    using Suc.prems by simp
  have "(2::nat) ^ 1 < 2 ^ Suc (Suc d)" by (rule power_strict_increasing) auto
  then have "tree_loop H (2 ^ Suc (Suc d)) ints = tree_loop H (2 ^ Suc d) ?ints"
    by (subst tree_loop.simps) (simp add: Let_def)
  moreover have "take (2 ^ Suc d) ?ints = hash_pairs H (take (2 ^ Suc (Suc d)) ints)"
    unfolding lvl using len by simp
  moreover have "2 ^ Suc d \<le> length ?ints" unfolding lvl using len by simp
  ultimately show ?case using Suc.IH [of ?ints] by (simp del: power_Suc)
qed

text \<open>The bottom level both functions start from: \<open>2 ^ d\<close> nodes for \<open>2 ^ d\<close> up to \<open>2 ^ (d + 1)\<close> leaves.\<close>

definition bottom :: "(bytes \<Rightarrow> hash) \<Rightarrow> nat \<Rightarrow> hash list \<Rightarrow> hash list" where
  "bottom H d hs = take (2 * 2 ^ d - length hs) hs @ hash_pairs H (drop (2 * 2 ^ d - length hs) hs)"

lemma length_bottom: "2 ^ d \<le> length hs \<Longrightarrow> length hs \<le> 2 * 2 ^ d \<Longrightarrow> length (bottom H d hs) = 2 ^ d"
  by (auto simp: bottom_def)

lemma tree_hash_root:
  assumes "hs \<noteq> []"
  shows "tree_hash H hs = Some (if length hs = 1 then hs ! 0
    else level_root H (top_bit (length hs - 1)) (bottom H (top_bit (length hs - 1)) hs))"
proof -
  consider "length hs = 1" | "length hs = 2" | "3 \<le> length hs" using assms by (cases hs; cases "tl hs"; cases "tl (tl hs)") auto
  then show ?thesis
  proof cases
    case 2
    then show ?thesis
      by (cases hs; cases "tl hs") (auto simp: tree_hash_def top_bit.simps bottom_def)
  next
    case 3
    let ?d = "top_bit (length hs - 1)"
    have b: "2 ^ ?d \<le> length hs - 1" "length hs - 1 < 2 ^ Suc ?d" using 3 top_bit_bounds [of "length hs - 1"] by auto
    have "?d \<noteq> 0" using 3 by (subst top_bit.simps) simp
    then obtain k where k: "?d = Suc k" by (cases ?d) auto
    have "length (bottom H ?d hs) = 2 ^ ?d" using b 3 by (intro length_bottom) auto
    with tree_loop_root [of k "bottom H ?d hs" H] k
    have "(let r = tree_loop H (2 ^ ?d) (bottom H ?d hs) in hash_pair H (r ! 0) (r ! 1)) = level_root H ?d (bottom H ?d hs)"
      by (simp del: power_Suc)
    with 3 show ?thesis by (auto simp: tree_hash_def floor_pow2_def bottom_def Let_def)
  qed (use assms in \<open>simp add: tree_hash_def\<close>)
qed

lemma tree_hash_from_branch_fold: "tree_hash_from_branch H branch leaf = foldl (hash_pair H) leaf (rev branch)"
proof (cases "branch = []")
  case False
  have "fold (from_branch_step H branch leaf None) (rev [i..<length branch]) (a, b, True) =
      (foldl (hash_pair H) leaf (rev (drop (Suc i) branch)), branch ! i, False)" if "i < length branch" for i a b
    using that
  proof (induction "length branch - i" arbitrary: i)
    case (Suc n)
    show ?case
    proof (cases "Suc i < length branch")
      case True
      with Suc have "fold (from_branch_step H branch leaf None) (rev [Suc i..<length branch]) (a, b, True) =
          (foldl (hash_pair H) leaf (rev (drop (Suc (Suc i)) branch)), branch ! Suc i, False)" by simp
      then show ?thesis
        using True by (simp add: upt_conv_Cons [of i] from_branch_step_def path_bit_def Cons_nth_drop_Suc [of "Suc i", symmetric])
    next
      case False
      then show ?thesis
        using Suc.prems by (simp add: upt_conv_Cons [of i] from_branch_step_def path_bit_def)
    qed
  qed simp
  from this [of 0] False show ?thesis
    by (cases branch) (auto simp: tree_hash_from_branch_def tree_hash_from_branch_with_path_def)
qed (simp add: tree_hash_from_branch_def tree_hash_from_branch_with_path_def)

text \<open>The siblings of leaf 0, deepest last.\<close>

primrec siblings :: "(bytes \<Rightarrow> hash) \<Rightarrow> nat \<Rightarrow> hash list \<Rightarrow> hash list" where
  "siblings H 0 xs = []"
| "siblings H (Suc d) xs = siblings H d (hash_pairs H xs) @ [xs ! 1]"

lemma siblings_root: "2 ^ d \<le> length xs \<Longrightarrow> foldl (hash_pair H) (xs ! 0) (rev (siblings H d xs)) = level_root H d xs"
proof (induction d arbitrary: xs)
  case (Suc d)
  then have "2 \<le> length xs" "2 ^ d \<le> length (hash_pairs H xs)"
    using one_le_power [of "2::nat" d] by (simp_all, linarith)
  with Suc.IH [of "hash_pairs H xs"] show ?case by (simp add: hd_hash_pairs)
qed simp

lemma branch_loop_siblings:
  assumes "length xs = 2 ^ d" and "take (2 ^ d - 1) ints = tl xs" and "d \<le> length branch" and "2 ^ d - 1 \<le> length ints"
  shows "branch_loop H d (2 ^ d) ints branch = siblings H d xs @ drop d branch"
  using assms
proof (induction d arbitrary: xs ints branch)
  case (Suc d)
  have one: "(1::nat) \<le> 2 ^ d" by simp
  then have "2 \<le> length xs" using Suc.prems(1) by simp
  then obtain a b ys where xs: "xs = a # b # ys" by (cases xs; cases "tl xs") auto
  then have ys: "length ys = 2 * (2 ^ d - 1)" using Suc.prems(1) by simp
  obtain rest where ints: "ints = b # ys @ rest"
    using append_take_drop_id [of "2 ^ Suc d - 1" ints] Suc.prems(2) xs by (metis append_Cons list.sel(3))
  let ?ints = "branch_level H (2 ^ d) ints"
  have lvl: "?ints = hash_pairs H ys @ drop (2 ^ d - 1) ints"
    using branch_level_eq [of "2 ^ d" ints H] ys ints by simp
  have "branch_loop H d (2 ^ d) ?ints (branch [d := b]) =
      siblings H d (hash_pairs H xs) @ drop d (branch [d := b])"
    using Suc.prems ys xs one by (intro Suc.IH) (simp_all add: lvl)
  moreover have "drop d (branch [d := b]) = b # drop (Suc d) branch"
    using Suc.prems(3) by (metis Cons_nth_drop_Suc Suc_le_eq drop_update_cancel length_list_update lessI nth_list_update_eq)
  ultimately show ?case by (simp add: ints xs)
qed simp

text \<open>C36: the Merkle branch of the first leaf proves it: for any non-empty list of leaves, folding the
  branch that \<open>tree_branch\<close> returns over leaf 0 gives the root that \<open>tree_hash\<close> computes, the pairing up
  of the bottom level.\<close>

theorem tree_branch_root:
  assumes "hs \<noteq> []"
  shows "\<exists>branch. tree_branch H hs = Some branch \<and> length branch = tree_depth (length hs) \<and>
    tree_hash H hs = Some (tree_hash_from_branch H branch (hs ! 0))"
proof -
  let ?n = "length hs" and ?d = "top_bit (length hs)"
  have n: "0 < ?n" using assms by simp
  have b: "2 ^ ?d \<le> ?n" "?n < 2 * 2 ^ ?d" using top_bit_bounds(1) [OF n] top_bit_bounds(2) [of ?n] by simp_all
  let ?L = "bottom H ?d hs" and ?direct = "2 * 2 ^ ?d - ?n"
  have len: "length ?L = 2 ^ ?d" using b by (intro length_bottom) auto
  have L: "?L = hs ! 0 # drop 1 (take ?direct hs) @ hash_pairs H (drop ?direct hs)"
    using b assms by (cases hs; cases ?direct) (auto simp: bottom_def)
  let ?ints = "drop 1 (take ?direct hs) @ hash_pairs H (drop ?direct hs)"
  have "length ?L = Suc (length ?ints)" by (subst L) (simp only: length_Cons)
  with len have ints: "length ?ints = 2 ^ ?d - 1" by linarith
  let ?branch = "siblings H ?d ?L"
  have "branch_loop H ?d (2 ^ ?d) ?ints (replicate ?d (replicate 32 0)) = ?branch @ drop ?d (replicate ?d (replicate 32 0))"
  proof (rule branch_loop_siblings [OF len])
    have "tl ?L = ?ints" by (subst L) (simp only: list.sel)
    then show "take (2 ^ ?d - 1) ?ints = tl ?L" unfolding ints [symmetric] by (simp only: take_all order.refl)
  qed (simp_all only: ints length_replicate order.refl)
  then have branch: "tree_branch H hs = Some ?branch"
    using n assms by (simp add: tree_branch_def Let_def floor_pow2_def tree_depth_def)
  have "length (siblings H d L) = d" for d L by (induction d arbitrary: L) auto
  then have "length ?branch = tree_depth ?n" using n by (simp add: tree_depth_def)
  moreover have "tree_hash_from_branch H ?branch (hs ! 0) = level_root H ?d ?L"
  proof -
    have "?L ! 0 = hs ! 0" by (subst L) (simp only: nth_Cons_0)
    with siblings_root [of ?d ?L H] len show ?thesis by (simp only: tree_hash_from_branch_fold order.refl)
  qed
  moreover have "tree_hash H hs = Some (level_root H ?d ?L)"
  proof (cases "2 ^ ?d \<le> ?n - 1")
    case True
    then have "top_bit (?n - 1) = ?d" using b by (intro top_bit_eq) auto
    moreover have "?n \<noteq> 1" using True by auto
    ultimately show ?thesis using tree_hash_root [OF assms, of H] by simp
  next
    case False
    with b(1) have eq: "?n = 2 ^ ?d" by simp
    show ?thesis
    proof (cases ?d)
      case 0
      with eq have "?n = 1" by (simp only: power_0)
      with 0 show ?thesis using tree_hash_root [OF assms, of H] L by simp
    next
      case (Suc k)
      with eq have n2: "?n = 2 * 2 ^ k" by (simp only: power_Suc)
      have "top_bit (?n - 1) = k" using n2 one_le_power [of "2::nat" k] by (intro top_bit_eq) simp_all
      moreover have "?n \<noteq> 1" using n2 by simp
      ultimately show ?thesis
        unfolding Suc using tree_hash_root [OF assms, of H] by (simp add: bottom_def n2)
    qed
  qed
  ultimately show ?thesis using branch by auto
qed

theorem tree_branch_root_witness:
  "tree_hash (\<lambda>bs. take 2 bs) [[1], [2], [3]] =
     Some (tree_hash_from_branch (\<lambda>bs. take 2 bs) [[2, 3]] [1])"
proof -
  have "top_bit (Suc (Suc (Suc 0))) = 1" by (intro top_bit_eq) simp_all
  then have "tree_branch (\<lambda>bs. take 2 bs) [[1], [2], [3]] = Some [[2, 3 :: u8]]"
    by (simp add: tree_branch_def Let_def floor_pow2_def tree_depth_def hash_pair_def branch_level_def)
  with tree_branch_root [of "[[1], [2], [3]]" "\<lambda>bs. take 2 bs"] show ?thesis by simp
qed

section \<open>The difficulty test as arithmetic\<close>

text \<open>A byte string as a little-endian number.\<close>

primrec le_nat :: "bytes \<Rightarrow> nat" where
  "le_nat [] = 0"
| "le_nat (b # bs) = unat b + 256 * le_nat bs"

lemma le_nat_bound: "le_nat bs < 256 ^ length bs"
proof (induction bs)
  case (Cons b bs)
  have "x + 256 * y < 256 * z" if "x < 256" "y < z" for x y z :: nat using that by linarith
  from this [OF unat_u8_less Cons] have "unat b + 256 * le_nat bs < 256 * 256 ^ length bs" .
  then show ?case by simp
qed simp

lemma unat_from_le: "8 * length bs \<le> LENGTH('a) \<Longrightarrow> unat (from_le bs :: 'a::len word) = le_nat bs"
proof (induction bs)
  case (Cons b bs)
  let ?w = "from_le bs :: 'a word"
  have w: "unat ?w = le_nat bs" using Cons by simp
  have "ucast b OR push_bit 8 ?w = ucast b + push_bit 8 ?w"
    by (rule disjunctive_add [symmetric]) (auto simp: bit_simps dest: bit_imp_le_length)
  moreover have "unat (push_bit 8 ?w) = 256 * le_nat bs \<and> unat (push_bit 8 ?w) + unat b < 2 ^ LENGTH('a)"
  proof -
    have "le_nat (b # bs) < 256 ^ length (b # bs)" by (rule le_nat_bound)
    also have "256 ^ length (b # bs) = (2::nat) ^ (8 * length (b # bs))" unfolding power_mult by simp
    also have "\<dots> \<le> 2 ^ LENGTH('a)" using Cons.prems by (intro power_increasing) auto
    finally have "unat b + 256 * le_nat bs < 2 ^ LENGTH('a)" by simp
    moreover from this have "unat (push_bit 8 ?w) = 256 * le_nat bs"
      by (simp add: push_bit_eq_mult unat_word_ariths w take_bit_eq_mod mod_mult_right_eq)
    ultimately show ?thesis by simp
  qed
  moreover have "unat (ucast b :: 'a word) = unat b"
    using Cons.prems by (intro unat_ucast_up) simp
  ultimately show ?case by (simp add: unat_add_small)
qed simp

lemma le_nat_split: "n \<le> length h \<Longrightarrow> le_nat h = le_nat (take n h) + 256 ^ n * le_nat (drop n h)"
proof (induction h arbitrary: n)
  case (Cons b h)
  then show ?case by (cases n) simp_all
qed simp

lemma le_nat_words:
  assumes "length h = 32"
  shows "le_nat h = le_nat (take 8 h) + 2 ^ 64 * le_nat (take 8 (drop 8 h)) +
    (2 ^ 64) ^ 2 * le_nat (take 8 (drop 16 h)) + (2 ^ 64) ^ 3 * le_nat (take 8 (drop 24 h))"
  using assms le_nat_split [of 8 h] le_nat_split [of 8 "drop 8 h"] le_nat_split [of 8 "drop 16 h"] by simp

text \<open>The schoolbook product: what is left below the top word never reaches it.\<close>

lemma carry_sum:
  fixes B :: nat
  assumes "p0 = a0 + B * h0" "p1 = a1 + B * h1" "p2 = a2 + B * h2" "a1 + h0 = b1 + B * c1" "a2 + h1 + c1 = b2 + B * c2"
  shows "p0 + B * p1 + B ^ 2 * p2 + B ^ 3 * p3 = (a0 + B * b1 + B ^ 2 * b2) + B ^ 3 * (p3 + h2 + c2)"
proof -
  have "p0 + B * p1 + B ^ 2 * p2 + B ^ 3 * p3 = a0 + B * (a1 + h0) + B ^ 2 * (a2 + h1) + B ^ 3 * (p3 + h2)"
    unfolding assms(1-3) by (simp add: algebra_simps power2_eq_square power3_eq_cube)
  also have "\<dots> = a0 + B * b1 + B ^ 2 * (a2 + h1 + c1) + B ^ 3 * (p3 + h2)"
    unfolding assms(4) by (simp add: algebra_simps power2_eq_square)
  also have "\<dots> = (a0 + B * b1 + B ^ 2 * b2) + B ^ 3 * (p3 + h2 + c2)"
    unfolding assms(5) by (simp add: algebra_simps power2_eq_square power3_eq_cube)
  finally show ?thesis .
qed

lemma carry_chain:
  fixes p0 p1 p2 p3 B :: nat
  assumes "0 < B" and s1: "s1 = p1 mod B + p0 div B" and s2: "s2 = p2 mod B + p1 div B + s1 div B"
  shows "p0 + B * p1 + B ^ 2 * p2 + B ^ 3 * p3 < B ^ 4 \<longleftrightarrow> p3 + p2 div B + s2 div B < B"
proof -
  let ?low = "p0 mod B + B * (s1 mod B) + B ^ 2 * (s2 mod B)" and ?s3 = "p3 + p2 div B + s2 div B"
  have eq: "p0 + B * p1 + B ^ 2 * p2 + B ^ 3 * p3 = ?low + B ^ 3 * ?s3"
    using carry_sum [of p0 "p0 mod B" B "p0 div B" p1 "p1 mod B" "p1 div B" p2 "p2 mod B" "p2 div B"
        "s1 mod B" "s1 div B" "s2 mod B" "s2 div B" p3] by (simp add: s1 s2)
  have B4: "B ^ 4 = B ^ 3 * B" by (simp add: power_numeral_reduce)
  have low: "?low < B ^ 3"
  proof -
    have "p0 mod B \<le> B - 1" "s1 mod B \<le> B - 1" "s2 mod B \<le> B - 1" using assms(1) by (simp_all add: Suc_leI less_Suc_eq_le [symmetric])
    then have "?low \<le> (B - 1) + B * (B - 1) + B ^ 2 * (B - 1)" by (intro add_mono mult_left_mono) auto
    also have "\<dots> = B ^ 3 - 1" using assms(1) by (cases B) (simp_all add: algebra_simps power2_eq_square power3_eq_cube)
    finally show ?thesis using zero_less_power [OF assms(1), of 3] by linarith
  qed
  show ?thesis
  proof
    assume "p0 + B * p1 + B ^ 2 * p2 + B ^ 3 * p3 < B ^ 4"
    then have "B ^ 3 * ?s3 < B ^ 3 * B" unfolding eq B4 by linarith
    then show "?s3 < B" by simp
  next
    assume "?s3 < B"
    then have "B ^ 3 * (?s3 + 1) \<le> B ^ 3 * B" by (intro mult_left_mono) auto
    with low show "p0 + B * p1 + B ^ 2 * p2 + B ^ 3 * p3 < B ^ 4"
      unfolding eq B4 by (simp only: distrib_left)
  qed
qed

lemma unat_hash_word:
  assumes "length h = 32" and "i < 4"
  shows "unat (hash_word h i) = le_nat (take 8 (drop (8 * i) h))"
  using assms by (simp add: hash_word_def unat_from_le)

lemma unat_add3: "unat a + unat b + unat c < 2 ^ LENGTH('a) \<Longrightarrow> unat (a + b + c) = unat a + unat b + unat c"
  for a b c :: "'a::len word"
  by (simp add: unat_add_small)

lemma unat_low64: "unat (w AND 0xFFFFFFFFFFFFFFFF :: 128 word) = unat w mod 2 ^ 64"
proof -
  have "0xFFFFFFFFFFFFFFFF = (mask 64 :: 128 word)" by (simp add: mask_eq_exp_minus_1)
  then show ?thesis by (simp only: take_bit_eq_mod flip: take_bit_eq_mask) (simp add: unat_mod)
qed

lemma drop_bit_64_0: "drop_bit 64 (w :: 128 word) = 0 \<longleftrightarrow> unat w < 2 ^ 64"
  by (simp add: word_unat_eq_iff unat_drop_bit div_eq_0_iff)

text \<open>\<open>check_hash\<close> accepts a hash exactly when, read as a 256-bit little-endian number and multiplied by
  the difficulty, it stays below \<open>2 ^ 256\<close>.\<close>

lemma check_hash_iff:
  assumes "length h = 32"
  shows "check_hash h d \<longleftrightarrow> le_nat h * unat d < 2 ^ 256"
proof -
  let ?B = "2 ^ 64 :: nat"
  define W where "W i = le_nat (take 8 (drop (8 * i) h))" for i
  define p where "p i = W i * unat d" for i
  have W: "W i < ?B" if "i < 4" for i
  proof -
    have "length (take 8 (drop (8 * i) h)) = 8" using that assms by simp
    from le_nat_bound [of "take 8 (drop (8 * i) h)", unfolded this] show ?thesis by (simp add: W_def)
  qed
  have d: "unat d < ?B" by simp
  have "p i < ?B * ?B" if "i < 4" for i
    unfolding p_def by (rule mult_strict_mono [OF W [OF that] d]) simp_all
  then have p: "p i < 2 ^ LENGTH(128)" if "i < 4" for i using that by simp
  have prod: "unat (hash_word h i * ucast d) = p i" if "i < 4" for i
    using that p [OF that] by (simp add: unat_word_ariths unat_hash_word [OF assms] p_def W_def)
  have prods: "unat (hash_word h 0 * ucast d) = p 0" "unat (hash_word h 1 * ucast d) = p 1"
      "unat (hash_word h 2 * ucast d) = p 2" "unat (hash_word h 3 * ucast d) = p 3"
    by (rule prod; simp)+
  have total: "le_nat h * unat d = p 0 + ?B * p 1 + ?B ^ 2 * p 2 + ?B ^ 3 * p 3"
    unfolding le_nat_words [OF assms] p_def W_def by (simp add: algebra_simps)
  define s1 where "s1 = p 1 mod ?B + p 0 div ?B"
  define s2 where "s2 = p 2 mod ?B + p 1 div ?B + s1 div ?B"
  have iff: "le_nat h * unat d < 2 ^ 256 \<longleftrightarrow> p 3 + p 2 div ?B + s2 div ?B < ?B"
    unfolding total using carry_chain [of ?B s1 "p 1" "p 0" s2 "p 2" "p 3"] by (simp add: s1_def s2_def)
  have q: "p i div ?B < ?B" if "i < 4" for i
    using p [OF that] by (simp add: less_mult_imp_div_less)
  have "s1 < 2 * ?B" using q [of 0] mod_less_divisor [of ?B "p 1"] unfolding s1_def by linarith
  then have s1': "unat ((hash_word h 1 * ucast d AND 0xFFFFFFFFFFFFFFFF) + drop_bit 64 (hash_word h 0 * ucast d)) = s1"
    by (subst unat_add_small) (simp_all add: unat_low64 unat_drop_bit prods s1_def del: One_nat_def)
  have "p 2 mod ?B < ?B" "p 1 div ?B < ?B" "p 2 div ?B < ?B" "s1 div ?B \<le> s1" "s2 div ?B \<le> s2"
    using q [of 1] q [of 2] by (simp_all del: One_nat_def)
  note small = this \<open>s1 < 2 * ?B\<close>
  have big: "8 * ?B < 2 ^ LENGTH(128)" by simp
  have s2': "unat ((hash_word h 2 * ucast d AND 0xFFFFFFFFFFFFFFFF) + drop_bit 64 (hash_word h 1 * ucast d) + drop_bit 64 x) = s2"
    if "unat x = s1" for x
    unfolding s2_def
    by (subst unat_add3; simp only: unat_low64 unat_drop_bit prods that)
       (use small big in linarith)
  have "s2 < 4 * ?B" using small unfolding s2_def by linarith
  have s3': "unat (hash_word h 3 * ucast d + drop_bit 64 (hash_word h 2 * ucast d) + drop_bit 64 y) =
      p 3 + p 2 div ?B + s2 div ?B" if "p 3 < ?B" "unat y = s2" for y
    by (subst unat_add3; simp only: unat_drop_bit prods that)
       (use small big that(1) \<open>s2 < 4 * ?B\<close> in linarith)
  show ?thesis
  proof (cases "p 3 < ?B")
    case True
    then show ?thesis
      unfolding iff check_hash_def Let_def drop_bit_64_0 prods
      by (simp only: s3' [OF True s2' [OF s1']] if_False) simp
  next
    case False
    then show ?thesis
      unfolding iff by (simp add: check_hash_def Let_def drop_bit_64_0 prods)
  qed
qed

lemma le_nat_zeros: "le_nat (replicate n 0 @ bs) = 256 ^ n * le_nat bs"
  by (induction n) simp_all

section \<open>The sponge absorbs an injective padding\<close>

lemma chunks_remainder: "0 < n \<Longrightarrow> concat (chunks n xs) @ remainder n xs = xs"
proof (induction n xs rule: chunks.induct)
  case (1 n xs)
  show ?case
  proof (cases "length xs < n")
    case True
    then show ?thesis by (simp add: chunks.simps remainder_def)
  next
    case False
    have "length xs div n = Suc ((length xs - n) div n)" using False 1(2) by (simp add: le_div_geq)
    then have "remainder n xs = remainder n (drop n xs)" by (simp add: remainder_def add.commute)
    with 1 False show ?thesis by (subst chunks.simps) simp
  qed
qed

lemma length_chunks: "0 < n \<Longrightarrow> length (chunks n xs) = length xs div n"
proof (induction n xs rule: chunks.induct)
  case (1 n xs)
  show ?case using 1 by (subst chunks.simps) (simp add: le_div_geq)
qed

lemma chunks_lengths: "b \<in> set (chunks n xs) \<Longrightarrow> length b = n"
proof (induction n xs rule: chunks.induct)
  case (1 n xs)
  from 1(2) show ?case by (subst (asm) chunks.simps) (use 1(1) in \<open>auto split: if_splits\<close>)
qed

lemma length_remainder: "0 < n \<Longrightarrow> length (remainder n xs) = length xs mod n"
  by (simp add: remainder_def minus_mult_div_eq_mod)

lemma last_block_nth:
  assumes "length r < RATE" and "i < RATE"
  shows "last_block r ! i = ((if i < length r then r ! i else if i = length r then 1 else 0) OR
    (if i = RATE - 1 then 0x80 else 0))"
  using assms by (auto simp: last_block_def Let_def nth_append nth_list_update RATE_def)

lemma last_block_inj:
  assumes "length r < RATE" "length r' < RATE" "last_block r = last_block r'"
  shows "r = r'"
proof -
  have no: "\<not> length r < length r'" if "length r < RATE" "length r' < RATE" "last_block r = last_block r'" for r r'
  proof
    assume "length r < length r'"
    then have "last_block r ! length r' = (0 OR (if length r' = RATE - 1 then 0x80 else 0))"
      using that by (subst last_block_nth) auto
    moreover have "last_block r' ! length r' = (1 OR (if length r' = RATE - 1 then 0x80 else 0))"
      using that by (subst last_block_nth) auto
    ultimately show False using that(3) by (simp split: if_splits)
  qed
  with assms have len: "length r = length r'" by (metis linorder_neqE_nat)
  show ?thesis
  proof (rule nth_equalityI [OF len])
    fix i assume i: "i < length r"
    have "last_block r ! i = r ! i" if "length r < RATE" "i < length r" for r
      using that by (subst last_block_nth) auto
    with assms i len show "r ! i = r' ! i" by metis
  qed
qed

definition keccak_blocks :: "bytes \<Rightarrow> bytes list" where
  "keccak_blocks data = chunks RATE data @ [last_block (remainder RATE data)]"

text \<open>\<open>cn_fast_hash\<close> absorbs whole 136-byte blocks, the padding included, and no two inputs are
  padded to the same blocks.\<close>

theorem keccak_padding_injective:
  "absorb f data = fold (\<lambda>block st. f (xor_block st block)) (keccak_blocks data) (replicate 25 0) \<and>
   list_all (\<lambda>block. length block = RATE) (keccak_blocks data) \<and> inj keccak_blocks"
proof (intro conjI injI)
  show "absorb f data = fold (\<lambda>block st. f (xor_block st block)) (keccak_blocks data) (replicate 25 0)"
    by (simp add: absorb_def keccak_blocks_def)
  have rem: "length (remainder RATE xs) < RATE" for xs :: bytes by (simp add: length_remainder RATE_def)
  then have "length (last_block (remainder RATE data)) = RATE"
    by (auto simp: last_block_def Let_def less_imp_le)
  then show "list_all (\<lambda>block. length block = RATE) (keccak_blocks data)"
    by (auto simp: keccak_blocks_def list_all_iff chunks_lengths)
  fix x y :: bytes
  assume "keccak_blocks x = keccak_blocks y"
  then have "chunks RATE x = chunks RATE y" "remainder RATE x = remainder RATE y"
    using last_block_inj [OF rem rem] by (auto simp: keccak_blocks_def)
  then show "x = y" using chunks_remainder [of RATE x] chunks_remainder [of RATE y] by (simp add: RATE_def)
qed

end
