(* ===== verification/Base58.thy ===== *)
theory Base58
  imports Varint Pow Constants
begin

text \<open>
  Block base58 and addresses (\<open>base58.rs\<close>). A string is the list of its bytes. The hash \<open>H\<close> of the
  checksum and the curve check \<open>check_key\<close> are arguments. The 128-bit numbers of \<open>decode_block\<close> are
  \<open>nat\<close>: a block has at most eleven characters, so \<open>order\<close> stays below \<open>58 ^ 12\<close>.
\<close>

section \<open>Blocks\<close>

definition ALPHABET :: bytes where
  "ALPHABET = map of_char ''123456789ABCDEFGHJKLMNPQRSTUVWXYZabcdefghijkmnopqrstuvwxyz''"

abbreviation (input) FULL_BLOCK_SIZE :: nat where "FULL_BLOCK_SIZE \<equiv> 8"
abbreviation (input) FULL_ENCODED_BLOCK_SIZE :: nat where "FULL_ENCODED_BLOCK_SIZE \<equiv> 11"
definition ENCODED_BLOCK_SIZES :: "nat list" where "ENCODED_BLOCK_SIZES = [0, 2, 3, 5, 6, 7, 9, 10, 11]"
abbreviation (input) ADDR_CHECKSUM_SIZE :: nat where "ADDR_CHECKSUM_SIZE \<equiv> 4"

lemmas base58_sizes = ENCODED_BLOCK_SIZES_def

datatype base58_error =
  InvalidCharacter nat u8
| InvalidLength nat
| BlockOverflow
| TooShort
| BadChecksum
| BadTag
| WrongPrefix u64
| WrongAddressLength nat
| WrongPayloadLength nat
| BadPaymentId
| BadPublicKey

fun position :: "('a \<Rightarrow> bool) \<Rightarrow> 'a list \<Rightarrow> nat option" where
  "position P [] = None"
| "position P (x # xs) = (if P x then Some 0 else map_option Suc (position P xs))"

definition reverse :: "u8 \<Rightarrow> nat option" where
  "reverse c = position (\<lambda>a. a = c) ALPHABET"

definition block_num :: "bytes \<Rightarrow> u64" where
  "block_num block = fold (\<lambda>b num. push_bit 8 num OR ucast b) block 0"

text \<open>The slots of the output are filled from the last to the first.\<close>

primrec encode_digits :: "nat \<Rightarrow> u64 \<Rightarrow> bytes \<Rightarrow> bytes" where
  "encode_digits 0 num out = out"
| "encode_digits (Suc n) num out = encode_digits n (num div 58) (ALPHABET ! unat (num mod 58) # out)"

definition encode_block :: "bytes \<Rightarrow> nat \<Rightarrow> bytes" where
  "encode_block block n = encode_digits n (block_num block) []"

definition b58_encode :: "bytes \<Rightarrow> bytes" where
  "b58_encode data =
     (if data = [] then []
      else
        let last = length data mod FULL_BLOCK_SIZE in
        concat (map (\<lambda>b. encode_block b FULL_ENCODED_BLOCK_SIZE) (chunks FULL_BLOCK_SIZE data)) @
        (if last > 0 then encode_block (remainder FULL_BLOCK_SIZE data) (ENCODED_BLOCK_SIZES ! last) else []))"

text \<open>The characters of the block come last first; the index of one is the number still to come.\<close>

fun decode_loop :: "nat \<Rightarrow> bytes \<Rightarrow> nat \<Rightarrow> nat \<Rightarrow> base58_error + nat" where
  "decode_loop offset [] num order = Inr num"
| "decode_loop offset (c # cs) num order =
     (case reverse c of None \<Rightarrow> Inl (InvalidCharacter (offset + length cs) c)
      | Some d \<Rightarrow>
          let num = num + order * d in
          if num > 2 ^ 64 - 1 then Inl BlockOverflow else decode_loop offset cs num (order * 58))"

definition decode_block :: "bytes \<Rightarrow> nat \<Rightarrow> nat \<Rightarrow> base58_error + bytes" where
  "decode_block block res_size offset =
     (case decode_loop offset (rev block) 0 1 of Inl e \<Rightarrow> Inl e
      | Inr num \<Rightarrow>
          if res_size < FULL_BLOCK_SIZE \<and> 2 ^ (8 * res_size) \<le> num then Inl BlockOverflow
          else Inr (drop (8 - res_size) (rev (to_le 8 (of_nat num :: u64)))))"

fun decode_blocks :: "nat \<Rightarrow> bytes list \<Rightarrow> bytes \<Rightarrow> base58_error + bytes" where
  "decode_blocks i [] out = Inr out"
| "decode_blocks i (b # bs) out =
     (case decode_block b FULL_BLOCK_SIZE (i * 11) of Inl e \<Rightarrow> Inl e
      | Inr bytes \<Rightarrow> decode_blocks (Suc i) bs (out @ bytes))"

definition b58_decode :: "bytes \<Rightarrow> base58_error + bytes" where
  "b58_decode s =
     (if s = [] then Inr []
      else
        let full = length s div FULL_ENCODED_BLOCK_SIZE;
            last = length s mod FULL_ENCODED_BLOCK_SIZE
        in case (if last = 0 then Some 0 else position (\<lambda>n. n = last) ENCODED_BLOCK_SIZES) of
          None \<Rightarrow> Inl (InvalidLength (length s))
        | Some last_decoded \<Rightarrow>
            (case decode_blocks 0 (chunks FULL_ENCODED_BLOCK_SIZE s) [] of Inl e \<Rightarrow> Inl e
             | Inr out \<Rightarrow>
                 if last > 0 then
                   (case decode_block (remainder FULL_ENCODED_BLOCK_SIZE s) last_decoded (full * 11) of
                      Inl e \<Rightarrow> Inl e | Inr bytes \<Rightarrow> Inr (out @ bytes))
                 else Inr out))"

section \<open>Addresses\<close>

definition encode_addr :: "(bytes \<Rightarrow> hash) \<Rightarrow> u64 \<Rightarrow> bytes \<Rightarrow> bytes" where
  "encode_addr H tag data =
     (let buf = encode tag @ data; h = H buf in b58_encode (buf @ take ADDR_CHECKSUM_SIZE h))"

definition decode_addr :: "(bytes \<Rightarrow> hash) \<Rightarrow> bytes \<Rightarrow> base58_error + (u64 \<times> bytes)" where
  "decode_addr H addr =
     (case b58_decode addr of Inl e \<Rightarrow> Inl e
      | Inr data \<Rightarrow>
          if length data \<le> ADDR_CHECKSUM_SIZE then Inl TooShort
          else
            let checksum = drop (length data - ADDR_CHECKSUM_SIZE) data;
                data = take (length data - ADDR_CHECKSUM_SIZE) data;
                h = H data
            in if take ADDR_CHECKSUM_SIZE h \<noteq> checksum then Inl BadChecksum
               else (case read_varint data of Inl _ \<Rightarrow> Inl BadTag
                 | Inr (tag, n) \<Rightarrow> Inr (tag, drop n data)))"

record address =
  spend_public_key :: bytes
  view_public_key :: bytes
  addr_payment_id :: "bytes option"

abbreviation (input) STANDARD_ADDRESS_LENGTH :: nat where "STANDARD_ADDRESS_LENGTH \<equiv> 98"
abbreviation (input) INTEGRATED_ADDRESS_LENGTH :: nat where "INTEGRATED_ADDRESS_LENGTH \<equiv> 120"
abbreviation (input) INTEGRATED_ADDRESS_LENGTH_LONG :: nat where "INTEGRATED_ADDRESS_LENGTH_LONG \<equiv> 186"

definition standard_address :: "(bytes \<Rightarrow> hash) \<Rightarrow> bytes \<Rightarrow> bytes \<Rightarrow> bytes" where
  "standard_address H spend view = encode_addr H CRYPTONOTE_PUBLIC_ADDRESS_BASE58_PREFIX (spend @ view)"

definition is_ascii_hexdigit :: "u8 \<Rightarrow> bool" where
  "is_ascii_hexdigit c \<longleftrightarrow> (48 \<le> c \<and> c \<le> 57) \<or> (65 \<le> c \<and> c \<le> 70) \<or> (97 \<le> c \<and> c \<le> 102)"

definition integrated_address :: "(bytes \<Rightarrow> hash) \<Rightarrow> bytes \<Rightarrow> bytes \<Rightarrow> bytes \<Rightarrow> base58_error + bytes" where
  "integrated_address H spend view payment_id_hex =
     (if \<not> (length payment_id_hex = 16 \<or> length payment_id_hex = 64) \<or>
         \<not> list_all is_ascii_hexdigit payment_id_hex then Inl BadPaymentId
      else Inr (encode_addr H CRYPTONOTE_PUBLIC_ADDRESS_BASE58_PREFIX (payment_id_hex @ spend @ view)))"

text \<open>
  Invalid UTF-8 and a byte that is no hex digit are the same error in the code, and a string of hex
  digits is valid UTF-8, so the second check stands for both.
\<close>

definition parse_address :: "(bytes \<Rightarrow> hash) \<Rightarrow> (bytes \<Rightarrow> bool) \<Rightarrow> bytes \<Rightarrow> base58_error + address" where
  "parse_address H check_key addr =
     (case decode_addr H addr of Inl e \<Rightarrow> Inl e
      | Inr (tag, data) \<Rightarrow>
          if tag \<noteq> CRYPTONOTE_PUBLIC_ADDRESS_BASE58_PREFIX then Inl (WrongPrefix tag)
          else
            (case (if length addr = STANDARD_ADDRESS_LENGTH then Some 0
                   else if length addr = INTEGRATED_ADDRESS_LENGTH then Some 16
                   else if length addr = INTEGRATED_ADDRESS_LENGTH_LONG then Some 64 else None) of
               None \<Rightarrow> Inl (WrongAddressLength (length addr))
             | Some pid_len \<Rightarrow>
                 if length data \<noteq> pid_len + 64 then Inl (WrongPayloadLength (length data))
                 else if pid_len > 0 \<and> \<not> list_all is_ascii_hexdigit (take pid_len data) then Inl BadPaymentId
                 else
                   let spend = take 32 (drop pid_len data);
                       view = drop (pid_len + 32) data
                   in if \<not> check_key spend \<or> \<not> check_key view then Inl BadPublicKey
                      else Inr \<lparr>spend_public_key = spend, view_public_key = view,
                        addr_payment_id = (if pid_len > 0 then Some (take pid_len data) else None)\<rparr>))"

section \<open>Digits\<close>

lemma ALPHABET_facts: "length ALPHABET = 58" "distinct ALPHABET"
  by (simp_all add: ALPHABET_def)

lemma position_iff: "distinct xs \<Longrightarrow> position (\<lambda>a. a = c) xs = Some i \<longleftrightarrow> i < length xs \<and> xs ! i = c"
proof (induction xs arbitrary: i)
  case (Cons x xs)
  then show ?case by (cases i) (auto simp: in_set_conv_nth)
qed simp

lemma reverse_iff: "reverse c = Some d \<longleftrightarrow> d < 58 \<and> ALPHABET ! d = c"
  using position_iff [OF ALPHABET_facts(2)] by (simp add: reverse_def ALPHABET_facts(1))

primrec le_digits :: "nat \<Rightarrow> nat \<Rightarrow> bytes" where
  "le_digits 0 v = []"
| "le_digits (Suc n) v = ALPHABET ! (v mod 58) # le_digits n (v div 58)"

fun digits_value :: "bytes \<Rightarrow> nat option" where
  "digits_value [] = Some 0"
| "digits_value (c # cs) =
     (case reverse c of None \<Rightarrow> None | Some d \<Rightarrow> map_option (\<lambda>v. d + 58 * v) (digits_value cs))"

lemma length_le_digits [simp]: "length (le_digits n v) = n"
  by (induction n arbitrary: v) auto

lemma digits_value_iff:
  "digits_value cs = Some v \<longleftrightarrow> cs = le_digits (length cs) v \<and> v < 58 ^ length cs"
proof (induction cs arbitrary: v)
  case (Cons c cs)
  have "digits_value (c # cs) = Some v \<longleftrightarrow> (\<exists>d w. reverse c = Some d \<and> digits_value cs = Some w \<and> v = d + 58 * w)"
    by (auto split: option.splits)
  also have "\<dots> \<longleftrightarrow> (\<exists>d w. d < 58 \<and> ALPHABET ! d = c \<and> cs = le_digits (length cs) w \<and> w < 58 ^ length cs \<and> v = d + 58 * w)"
    by (simp only: reverse_iff Cons.IH conj_assoc)
  also have "\<dots> \<longleftrightarrow> ALPHABET ! (v mod 58) = c \<and> cs = le_digits (length cs) (v div 58) \<and> v div 58 < 58 ^ length cs"
  proof
    assume "ALPHABET ! (v mod 58) = c \<and> cs = le_digits (length cs) (v div 58) \<and> v div 58 < 58 ^ length cs"
    then show "\<exists>d w. d < 58 \<and> ALPHABET ! d = c \<and> cs = le_digits (length cs) w \<and> w < 58 ^ length cs \<and> v = d + 58 * w"
      by (intro exI [of _ "v mod 58"] exI [of _ "v div 58"]) simp
  next
    assume "\<exists>d w. d < 58 \<and> ALPHABET ! d = c \<and> cs = le_digits (length cs) w \<and> w < 58 ^ length cs \<and> v = d + 58 * w"
    then obtain d w where *: "d < 58" "ALPHABET ! d = c" "cs = le_digits (length cs) w" "w < 58 ^ length cs" "v = d + 58 * w"
      by blast
    then have "v mod 58 = d" "v div 58 = w" by simp_all
    with * show "ALPHABET ! (v mod 58) = c \<and> cs = le_digits (length cs) (v div 58) \<and> v div 58 < 58 ^ length cs" by simp
  qed
  also have "v div 58 < 58 ^ length cs \<longleftrightarrow> v < 58 ^ length (c # cs)"
    by (simp add: div_less_iff_less_mult mult.commute)
  finally show ?case by auto
qed auto

lemma decode_loop_iff:
  assumes "num \<le> 2 ^ 64 - 1" "0 < order"
  shows "decode_loop offset cs num order = Inr v \<longleftrightarrow>
    (\<exists>x. digits_value cs = Some x \<and> v = num + order * x \<and> v \<le> 2 ^ 64 - 1)"
  using assms
proof (induction cs arbitrary: num order)
  case (Cons c cs)
  show ?case
  proof (cases "reverse c")
    case (Some d)
    show ?thesis
    proof (cases "num + order * d > 2 ^ 64 - 1")
      case True
      have "num + order * (d + 58 * x) > 2 ^ 64 - 1" for x
        using True by (simp add: distrib_left)
      with True Some show ?thesis by (auto simp: not_le)
    next
      case False
      have eq: "num + order * (d + 58 * x) = num + order * d + order * 58 * x" for x
        by (simp add: distrib_left)
      have "decode_loop offset (c # cs) num order = decode_loop offset cs (num + order * d) (order * 58)"
        using False Some by (simp add: Let_def)
      also have "\<dots> = Inr v \<longleftrightarrow>
          (\<exists>x. digits_value cs = Some x \<and> v = num + order * d + order * 58 * x \<and> v \<le> 2 ^ 64 - 1)"
        using False Cons.prems by (intro Cons.IH) linarith+
      finally show ?thesis unfolding eq [symmetric] using Some by auto
    qed
  qed simp
qed auto

section \<open>Blocks, both ways\<close>

lemma block_num_le: "block_num block = from_le (rev block)"
proof -
  have "fold (\<lambda>b num. push_bit 8 num OR ucast b) block (from_le acc) = from_le (rev block @ acc)" for acc
    by (induction block arbitrary: acc) (simp_all add: or.commute flip: from_le.simps)
  from this [of "[]"] show ?thesis by (simp add: block_num_def)
qed

lemma encode_digits_eq: "encode_digits n num out = rev (le_digits n (unat num)) @ out"
proof (induction n arbitrary: num out)
  case (Suc n)
  have "unat (num mod 58) = unat num mod 58" "unat (num div 58) = unat num div 58"
    by (simp_all add: unat_mod unat_div)
  with Suc show ?case by simp
qed simp

lemma encode_block_eq: "length block \<le> 8 \<Longrightarrow> encode_block block n = rev (le_digits n (le_nat (rev block)))"
  by (simp add: encode_block_def encode_digits_eq block_num_le unat_from_le)

lemma le_nat_to_le: "le_nat (to_le n (w::'a::len word)) = unat w mod 256 ^ n"
proof (induction n arbitrary: w)
  case (Suc n)
  have "unat (ucast w :: u8) = unat w mod 256"
    by (simp add: unsigned_ucast_eq take_bit_eq_mod)
  moreover have "unat w mod (256 * 256 ^ n) = unat w mod 256 + 256 * (unat w div 256 mod 256 ^ n)"
    by (simp add: mod_mult2_eq)
  ultimately show ?case using Suc [of "drop_bit 8 w"] by (simp add: unat_drop_bit)
qed simp

lemma to_le_le_nat: "length bs \<le> 8 \<Longrightarrow> to_le (length bs) (of_nat (le_nat bs) :: u64) = bs"
proof -
  assume "length bs \<le> 8"
  then have "of_nat (le_nat bs) = (from_le bs :: u64)" "8 * length bs \<le> LENGTH(64)"
    by (simp_all flip: unat_from_le [where 'a = 64])
  then show ?thesis by (simp only: to_le_from_le)
qed

lemma take_to_le: "k \<le> n \<Longrightarrow> take k (to_le n w) = to_le k w"
proof (induction n arbitrary: k w)
  case (Suc n)
  then show ?case by (cases k) auto
qed simp

lemma decode_block_value:
  assumes "k \<le> 8"
  shows "decode_block s k offset = Inr b \<longleftrightarrow> length b = k \<and> digits_value (rev s) = Some (le_nat (rev b))"
proof -
  have lim: "2 ^ (8 * k) = (256::nat) ^ k" by (simp add: power_mult)
  have k64: "(256::nat) ^ k \<le> 2 ^ 64" using power_increasing [of k 8 "256::nat"] assms by simp
  have drop: "drop (8 - k) (rev (to_le 8 w)) = rev (to_le k (w::u64))" for w
    using take_to_le [OF assms, of w] assms by (simp add: rev_take [symmetric] drop_rev)
  have "decode_block s k offset = Inr b \<longleftrightarrow>
      (\<exists>v. digits_value (rev s) = Some v \<and> v < 256 ^ k \<and> b = rev (to_le k (of_nat v :: u64)))"
  proof -
    have range: "(v \<le> 2 ^ 64 - 1 \<and> \<not> (k < 8 \<and> 256 ^ k \<le> v)) \<longleftrightarrow> v < 256 ^ k" for v :: nat
    proof (cases "k = 8")
      case False
      then show ?thesis using assms k64 by auto
    qed auto
    have "decode_block s k offset = Inr b \<longleftrightarrow>
        (\<exists>v. decode_loop offset (rev s) 0 1 = Inr v \<and> \<not> (k < 8 \<and> 256 ^ k \<le> v) \<and> b = rev (to_le k (of_nat v :: u64)))"
      unfolding decode_block_def drop by (auto simp: lim split: sum.splits if_splits)
    also have "\<dots> \<longleftrightarrow> (\<exists>v. digits_value (rev s) = Some v \<and> (v \<le> 2 ^ 64 - 1 \<and> \<not> (k < 8 \<and> 256 ^ k \<le> v)) \<and>
        b = rev (to_le k (of_nat v :: u64)))"
      by (subst decode_loop_iff) auto
    finally show ?thesis unfolding range .
  qed
  also have "\<dots> \<longleftrightarrow> length b = k \<and> digits_value (rev s) = Some (le_nat (rev b))"
  proof
    assume "\<exists>v. digits_value (rev s) = Some v \<and> v < 256 ^ k \<and> b = rev (to_le k (of_nat v :: u64))"
    then obtain v where v: "digits_value (rev s) = Some v" "v < 256 ^ k" "b = rev (to_le k (of_nat v :: u64))" by blast
    have "unat (of_nat v :: u64) = v" using v(2) k64 by (intro unat_of_nat_less) simp
    with v show "length b = k \<and> digits_value (rev s) = Some (le_nat (rev b))" by (simp add: le_nat_to_le)
  next
    assume *: "length b = k \<and> digits_value (rev s) = Some (le_nat (rev b))"
    then have "b = rev (to_le k (of_nat (le_nat (rev b)) :: u64))" using to_le_le_nat [of "rev b"] assms by simp
    with * le_nat_bound [of "rev b"] show "\<exists>v. digits_value (rev s) = Some v \<and> v < 256 ^ k \<and> b = rev (to_le k (of_nat v :: u64))"
      by auto
  qed
  finally show ?thesis .
qed

lemma block_sizes_suffice: "k \<le> 8 \<Longrightarrow> (256::nat) ^ k \<le> 58 ^ (ENCODED_BLOCK_SIZES ! k)"
proof -
  assume "k \<le> 8"
  then have "k = 0 \<or> k = 1 \<or> k = 2 \<or> k = 3 \<or> k = 4 \<or> k = 5 \<or> k = 6 \<or> k = 7 \<or> k = 8" by linarith
  then show ?thesis by (elim disjE) (simp_all add: ENCODED_BLOCK_SIZES_def)
qed

lemma decode_block_iff:
  assumes "k \<le> 8" and "length s = ENCODED_BLOCK_SIZES ! k"
  shows "decode_block s k offset = Inr b \<longleftrightarrow> length b = k \<and> s = encode_block b (ENCODED_BLOCK_SIZES ! k)"
proof -
  have "le_nat (rev b) < 58 ^ length s" if "length b = k"
    using le_nat_bound [of "rev b"] block_sizes_suffice [OF assms(1)] that assms(2) by simp
  then show ?thesis
    unfolding decode_block_value [OF assms(1)] digits_value_iff
    using assms by (auto simp: encode_block_eq rev_swap)
qed

section \<open>Strings, both ways\<close>

lemma chunks_append:
  assumes "list_all (\<lambda>b. length b = n) bs" "length r < n"
  shows "chunks n (concat bs @ r) = bs" and "remainder n (concat bs @ r) = r"
proof -
  show c: "chunks n (concat bs @ r) = bs"
    using assms by (induction bs) (simp_all add: chunks.simps)
  have n: "0 < n" using assms(2) by simp
  have "concat (chunks n (concat bs @ r)) @ remainder n (concat bs @ r) = concat bs @ r"
    by (rule chunks_remainder [OF n])
  then show "remainder n (concat bs @ r) = r" unfolding c by simp
qed

lemma decode_blocks_iff:
  assumes "list_all (\<lambda>s. length s = 11) ss"
  shows "decode_blocks i ss out = Inr d \<longleftrightarrow>
    (\<exists>bs. d = out @ concat bs \<and> list_all (\<lambda>b. length b = 8) bs \<and> ss = map (\<lambda>b. encode_block b 11) bs)"
  using assms
proof (induction ss arbitrary: i out)
  case (Cons s ss)
  have s: "decode_block s 8 (i * 11) = Inr b \<longleftrightarrow> length b = 8 \<and> s = encode_block b 11" for b
    using decode_block_iff [of 8 s "i * 11" b] Cons.prems by (simp add: ENCODED_BLOCK_SIZES_def)
  have "decode_blocks i (s # ss) out = Inr d \<longleftrightarrow>
      (\<exists>b. decode_block s 8 (i * 11) = Inr b \<and> decode_blocks (Suc i) ss (out @ b) = Inr d)"
    by (auto split: sum.splits)
  also have "\<dots> \<longleftrightarrow> (\<exists>b bs. length b = 8 \<and> s = encode_block b 11 \<and> d = out @ b @ concat bs \<and>
      list_all (\<lambda>b. length b = 8) bs \<and> ss = map (\<lambda>b. encode_block b 11) bs)"
    using Cons by (simp add: s)
  also have "\<dots> \<longleftrightarrow> (\<exists>bs. d = out @ concat bs \<and> list_all (\<lambda>b. length b = 8) bs \<and> s # ss = map (\<lambda>b. encode_block b 11) bs)"
  proof
    assume "\<exists>b bs. length b = 8 \<and> s = encode_block b 11 \<and> d = out @ b @ concat bs \<and>
      list_all (\<lambda>b. length b = 8) bs \<and> ss = map (\<lambda>b. encode_block b 11) bs"
    then obtain b bs where "length b = 8" "s = encode_block b 11" "d = out @ b @ concat bs"
      "list_all (\<lambda>b. length b = 8) bs" "ss = map (\<lambda>b. encode_block b 11) bs" by blast
    then show "\<exists>bs. d = out @ concat bs \<and> list_all (\<lambda>b. length b = 8) bs \<and> s # ss = map (\<lambda>b. encode_block b 11) bs"
      by (intro exI [of _ "b # bs"]) simp
  next
    assume "\<exists>bs. d = out @ concat bs \<and> list_all (\<lambda>b. length b = 8) bs \<and> s # ss = map (\<lambda>b. encode_block b 11) bs"
    then obtain bs where
      "d = out @ concat bs \<and> list_all (\<lambda>b. length b = 8) bs \<and> s # ss = map (\<lambda>b. encode_block b 11) bs" ..
    then show "\<exists>b bs. length b = 8 \<and> s = encode_block b 11 \<and> d = out @ b @ concat bs \<and>
      list_all (\<lambda>b. length b = 8) bs \<and> ss = map (\<lambda>b. encode_block b 11) bs"
      by (cases bs) auto
  qed
  finally show ?case .
qed auto

lemma length_encode_block [simp]: "length (encode_block b n) = n"
  by (simp add: encode_block_def encode_digits_eq)

lemma position_sizes: "position (\<lambda>n. n = l) ENCODED_BLOCK_SIZES = Some k \<longleftrightarrow> k \<le> 8 \<and> ENCODED_BLOCK_SIZES ! k = l"
proof -
  have "distinct ENCODED_BLOCK_SIZES" "length ENCODED_BLOCK_SIZES = 9" by (simp_all add: ENCODED_BLOCK_SIZES_def)
  then show ?thesis by (auto simp: position_iff)
qed

lemma encode_last_size: "k < 8 \<Longrightarrow> ENCODED_BLOCK_SIZES ! k < 11" "k \<le> 8 \<Longrightarrow> ENCODED_BLOCK_SIZES ! k = 0 \<longleftrightarrow> k = 0"
  "k \<le> 8 \<Longrightarrow> ENCODED_BLOCK_SIZES ! k < 11 \<Longrightarrow> k < 8"
proof -
  have "k = 0 \<or> k = 1 \<or> k = 2 \<or> k = 3 \<or> k = 4 \<or> k = 5 \<or> k = 6 \<or> k = 7 \<or> k = 8" if "k \<le> 8" using that by linarith
  then show "k < 8 \<Longrightarrow> ENCODED_BLOCK_SIZES ! k < 11" "k \<le> 8 \<Longrightarrow> ENCODED_BLOCK_SIZES ! k = 0 \<longleftrightarrow> k = 0"
    "k \<le> 8 \<Longrightarrow> ENCODED_BLOCK_SIZES ! k < 11 \<Longrightarrow> k < 8"
    by (auto simp: ENCODED_BLOCK_SIZES_def)
qed

text \<open>The shape of both sides: whole blocks and a shorter tail.\<close>

definition b58_shape :: "bytes list \<Rightarrow> bytes \<Rightarrow> bytes" where
  "b58_shape bs r = concat (map (\<lambda>b. encode_block b 11) bs) @ encode_block r (ENCODED_BLOCK_SIZES ! length r)"

lemma encode_shape:
  assumes "list_all (\<lambda>b. length b = 8) bs" "length r < 8"
  shows "b58_encode (concat bs @ r) = b58_shape bs r"
proof -
  have "length (concat bs) = 8 * length bs" using assms(1) by (induction bs) auto
  then have "length (concat bs @ r) mod 8 = length r" using assms(2) by simp
  moreover have "encode_block [] 0 = []" by (simp add: encode_block_def)
  moreover have "bs = []" if "concat bs @ r = []" using that assms(1) by (cases bs) auto
  ultimately show ?thesis
    using chunks_append [OF assms] unfolding b58_encode_def b58_shape_def base58_sizes by (auto simp: Let_def)
qed

lemma split_blocks: obtains bs r where "d = concat bs @ r" "list_all (\<lambda>b. length b = 8) bs" "length (r :: bytes) < 8"
  using that [of "chunks 8 d" "remainder 8 d"] chunks_remainder [of 8 d] chunks_lengths [of _ 8 d]
    length_remainder [of 8 d] by (auto simp: list_all_iff)

lemma shape_chunks:
  assumes "length r < 8"
  shows "chunks 11 (b58_shape bs r) = map (\<lambda>b. encode_block b 11) bs"
    and "remainder 11 (b58_shape bs r) = encode_block r (ENCODED_BLOCK_SIZES ! length r)"
    and "length (b58_shape bs r) mod 11 = ENCODED_BLOCK_SIZES ! length r"
proof -
  let ?r = "encode_block r (ENCODED_BLOCK_SIZES ! length r)"
  have all: "list_all (\<lambda>b. length b = 11) (map (\<lambda>b. encode_block b 11) bs)" by (simp add: list_all_iff)
  have "length ?r < 11" using encode_last_size(1) [OF assms] by simp
  from chunks_append [OF all this] show "chunks 11 (b58_shape bs r) = map (\<lambda>b. encode_block b 11) bs"
    and rem: "remainder 11 (b58_shape bs r) = ?r" unfolding b58_shape_def by auto
  show "length (b58_shape bs r) mod 11 = ENCODED_BLOCK_SIZES ! length r"
    using length_remainder [of 11 "b58_shape bs r"] rem by simp
qed

lemma decode_shape:
  assumes "list_all (\<lambda>b. length b = 8) bs" "length r < 8"
  shows "b58_decode (b58_shape bs r) = Inr (concat bs @ r)"
proof (cases "b58_shape bs r = []")
  case True
  then have "bs = []" "ENCODED_BLOCK_SIZES ! length r = 0"
    using shape_chunks(1) [OF assms(2), of bs] shape_chunks(3) [OF assms(2), of bs] by (simp_all add: chunks.simps)
  moreover from this(2) have "r = []" using encode_last_size(2) [of "length r"] assms(2) by simp
  ultimately show ?thesis using True by (simp add: b58_decode_def)
next
  case False
  note sc = shape_chunks [OF assms(2), of bs]
  have blocks: "decode_blocks 0 (map (\<lambda>b. encode_block b 11) bs) [] = Inr (concat bs)"
    using assms(1) by (subst decode_blocks_iff) (auto simp: list_all_iff)
  have last: "(if ENCODED_BLOCK_SIZES ! length r = 0 then Some 0
      else position (\<lambda>n. n = ENCODED_BLOCK_SIZES ! length r) ENCODED_BLOCK_SIZES) = Some (length r)"
    using encode_last_size(2) [of "length r"] assms(2) by (auto simp: position_sizes)
  have "decode_block (encode_block r (ENCODED_BLOCK_SIZES ! length r)) (length r) offset = Inr r" for offset
    using assms(2) by (subst decode_block_iff) auto
  then show ?thesis
    using False last blocks encode_last_size(2) [of "length r"] assms(2)
    by (simp add: b58_decode_def sc Let_def)
qed

lemma decode_only_shape:
  assumes "b58_decode s = Inr d"
  shows "\<exists>bs r. list_all (\<lambda>b. length b = 8) bs \<and> length r < 8 \<and> s = b58_shape bs r \<and> d = concat bs @ r"
proof (cases "s = []")
  case True
  with assms show ?thesis
    by (intro exI [of _ "[]"]) (simp add: b58_decode_def b58_shape_def ENCODED_BLOCK_SIZES_def encode_block_def)
next
  case False
  let ?last = "length s mod 11"
  obtain k out where k: "(if ?last = 0 then Some 0 else position (\<lambda>n. n = ?last) ENCODED_BLOCK_SIZES) = Some k"
      and out: "decode_blocks 0 (chunks 11 s) [] = Inr out"
      and tail: "if ?last > 0 then \<exists>b. decode_block (remainder 11 s) k (length s div 11 * 11) = Inr b \<and> d = out @ b
        else d = out"
    using assms False
    by (auto simp: b58_decode_def Let_def split: option.splits sum.splits if_splits)
  obtain bs where bs: "out = concat bs" "list_all (\<lambda>b. length b = 8) bs" "chunks 11 s = map (\<lambda>b. encode_block b 11) bs"
    using out decode_blocks_iff [of "chunks 11 s"] chunks_lengths [of _ 11 s] by (auto simp: list_all_iff)
  have s: "s = concat (map (\<lambda>b. encode_block b 11) bs) @ remainder 11 s"
    using chunks_remainder [of 11 s] bs(3) by simp
  have rem: "length (remainder 11 s) = ?last" by (simp add: length_remainder)
  have k8: "k \<le> 8" "ENCODED_BLOCK_SIZES ! k = ?last"
    using k by (auto simp: position_sizes ENCODED_BLOCK_SIZES_def split: if_splits)
  then have "k < 8" using encode_last_size(3) [of k] by simp
  show ?thesis
  proof (cases "?last > 0")
    case True
    then obtain b where b: "decode_block (remainder 11 s) k (length s div 11 * 11) = Inr b" "d = out @ b"
      using tail by auto
    have "length b = k \<and> remainder 11 s = encode_block b (ENCODED_BLOCK_SIZES ! k)"
      using b(1) k8 rem by (subst (asm) decode_block_iff) auto
    then show ?thesis
      using s bs b(2) \<open>k < 8\<close> by (intro exI [of _ bs] exI [of _ b]) (simp add: b58_shape_def)
  next
    case False
    then have "remainder 11 s = []" "d = out" using rem tail by auto
    then show ?thesis
      using s bs by (intro exI [of _ bs] exI [of _ "[]"])
        (simp add: b58_shape_def ENCODED_BLOCK_SIZES_def encode_block_def)
  qed
qed

text \<open>Base58 is a bijection onto the strings that decode.\<close>

lemma b58_decode_iff: "b58_decode s = Inr d \<longleftrightarrow> s = b58_encode d"
proof
  assume "b58_decode s = Inr d"
  then show "s = b58_encode d" using decode_only_shape [of s d] by (auto simp: encode_shape)
next
  assume s: "s = b58_encode d"
  obtain bs r where d: "d = concat bs @ r" "list_all (\<lambda>b. length b = 8) bs" "length r < 8" by (rule split_blocks)
  then show "b58_decode s = Inr d" by (simp add: s encode_shape decode_shape)
qed

section \<open>Addresses, both ways\<close>

lemma length_b58_encode: "length (b58_encode d) = 11 * (length d div 8) + ENCODED_BLOCK_SIZES ! (length d mod 8)"
proof -
  obtain bs r where d: "d = concat bs @ r" "list_all (\<lambda>b. length b = 8) bs" "length r < 8" by (rule split_blocks)
  have "length (concat bs) = 8 * length bs" using d(2) by (induction bs) auto
  moreover have "length (concat (map (\<lambda>b. encode_block b 11) bs)) = 11 * length bs" by (induction bs) auto
  ultimately show ?thesis using d by (simp add: encode_shape b58_shape_def)
qed

lemma decode_addr_iff:
  assumes H: "\<And>x. length (H x) = 32"
  shows "decode_addr H s = Inr (tag, data) \<longleftrightarrow> s = encode_addr H tag data"
proof
  assume "s = encode_addr H tag data"
  then have "b58_decode s = Inr ((encode tag @ data) @ take 4 (H (encode tag @ data)))"
    by (simp add: encode_addr_def b58_decode_iff)
  moreover have "0 < length (encode tag)" by (subst encode_rec) simp
  ultimately show "decode_addr H s = Inr (tag, data)"
    using H by (simp add: decode_addr_def read_varint_encode)
next
  assume d: "decode_addr H s = Inr (tag, data)"
  then obtain bs where "b58_decode s = Inr bs" "4 < length bs" and
      sum: "take 4 (H (take (length bs - 4) bs)) = drop (length bs - 4) bs" and
      rv: "\<exists>n. read_varint (take (length bs - 4) bs) = Inr (tag, n) \<and> data = drop n (take (length bs - 4) bs)"
    by (auto simp: decode_addr_def Let_def split: sum.splits if_splits)
  then obtain n where n: "read_varint (take (length bs - 4) bs) = Inr (tag, n)" "data = drop n (take (length bs - 4) bs)"
    by blast
  from read_varint_sound [OF n(1)] obtain rest where "take (length bs - 4) bs = encode tag @ rest" "n = length (encode tag)"
    by metis
  with n have "take (length bs - 4) bs = encode tag @ data" by simp
  with sum have "bs = (encode tag @ data) @ take 4 (H (encode tag @ data))"
    by (metis append_take_drop_id)
  with \<open>b58_decode s = Inr bs\<close> show "s = encode_addr H tag data"
    by (simp add: encode_addr_def b58_decode_iff)
qed

lemma encode_prefix_length: "length (encode CRYPTONOTE_PUBLIC_ADDRESS_BASE58_PREFIX) = 3"
  by (simp add: const_defs encode_eval)

lemma length_encode_addr:
  assumes "\<And>x. length (H x) = 32"
  shows "length (encode_addr H CRYPTONOTE_PUBLIC_ADDRESS_BASE58_PREFIX data) =
    11 * ((length data + 7) div 8) + ENCODED_BLOCK_SIZES ! ((length data + 7) mod 8)"
  using assms by (simp add: encode_addr_def length_b58_encode encode_prefix_length Let_def add.commute [of 7])

definition address_ok :: "(bytes \<Rightarrow> bool) \<Rightarrow> address \<Rightarrow> bool" where
  "address_ok check_key a \<longleftrightarrow> length (spend_public_key a) = 32 \<and> length (view_public_key a) = 32 \<and>
     check_key (spend_public_key a) \<and> check_key (view_public_key a)"

definition address_string :: "(bytes \<Rightarrow> hash) \<Rightarrow> address \<Rightarrow> base58_error + bytes" where
  "address_string H a =
     (case addr_payment_id a of None \<Rightarrow> Inr (standard_address H (spend_public_key a) (view_public_key a))
      | Some pid \<Rightarrow> integrated_address H (spend_public_key a) (view_public_key a) pid)"

text \<open>C37: an address string parses to an address exactly when it is the string that the builders make of
  it: \<open>standard_address\<close> without a payment id, \<open>integrated_address\<close> with one. So every address built from
  two valid keys parses back, and no address has a second spelling.\<close>

theorem parse_address_iff:
  assumes "\<And>x. length (H x) = 32"
  shows "parse_address H check_key s = Inr a \<longleftrightarrow> address_ok check_key a \<and> address_string H a = Inr s"
proof
  assume ok: "address_ok check_key a \<and> address_string H a = Inr s"
  then have len: "length (spend_public_key a) = 32" "length (view_public_key a) = 32" by (simp_all add: address_ok_def)
  let ?data = "(case addr_payment_id a of None \<Rightarrow> [] | Some pid \<Rightarrow> pid) @ spend_public_key a @ view_public_key a"
  have s: "s = encode_addr H CRYPTONOTE_PUBLIC_ADDRESS_BASE58_PREFIX ?data"
      and pid: "\<And>p. addr_payment_id a = Some p \<Longrightarrow> (length p = 16 \<or> length p = 64) \<and> list_all is_ascii_hexdigit p"
    using ok by (auto simp: address_string_def standard_address_def integrated_address_def split: option.splits if_splits)
  have "decode_addr H s = Inr (CRYPTONOTE_PUBLIC_ADDRESS_BASE58_PREFIX, ?data)"
    unfolding decode_addr_iff [OF assms] by (rule s)
  moreover have "length s = (if addr_payment_id a = None then 98 else if length (the (addr_payment_id a)) = 16 then 120 else 186)"
    unfolding s length_encode_addr [OF assms]
    using len pid by (cases "addr_payment_id a") (auto simp: ENCODED_BLOCK_SIZES_def)
  ultimately show "parse_address H check_key s = Inr a"
    using ok len pid
    by (cases a; cases "addr_payment_id a") (auto simp: parse_address_def address_ok_def Let_def)
next
  assume p: "parse_address H check_key s = Inr a"
  then obtain data pid_len where
      d: "decode_addr H s = Inr (CRYPTONOTE_PUBLIC_ADDRESS_BASE58_PREFIX, data)"
      and pl: "pid_len = 0 \<or> pid_len = 16 \<or> pid_len = 64" and len: "length data = pid_len + 64"
      and hex: "pid_len > 0 \<longrightarrow> list_all is_ascii_hexdigit (take pid_len data)"
      and keys: "check_key (take 32 (drop pid_len data))" "check_key (drop (pid_len + 32) data)"
      and a: "a = \<lparr>spend_public_key = take 32 (drop pid_len data), view_public_key = drop (pid_len + 32) data,
        addr_payment_id = (if pid_len > 0 then Some (take pid_len data) else None)\<rparr>"
    by (auto simp: parse_address_def Let_def split: sum.splits if_splits)
  have "take pid_len data @ take 32 (drop pid_len data) @ drop (pid_len + 32) data = data"
    by (metis append_take_drop_id drop_drop add.commute)
  then show "address_ok check_key a \<and> address_string H a = Inr s"
    using d [unfolded decode_addr_iff [OF assms]] pl len hex keys
    by (auto simp: a address_ok_def address_string_def standard_address_def integrated_address_def)
qed

theorem parse_address_iff_witness:
  "\<exists>s. parse_address (\<lambda>_. replicate 32 1) (\<lambda>_. True) s =
     Inr \<lparr>spend_public_key = replicate 32 2, view_public_key = replicate 32 3, addr_payment_id = Some (replicate 16 48)\<rparr>"
proof -
  let ?a = "\<lparr>spend_public_key = replicate 32 2, view_public_key = replicate 32 3, addr_payment_id = Some (replicate 16 48)\<rparr>"
  have "address_ok (\<lambda>_. True) ?a" by (simp add: address_ok_def)
  moreover have "address_string (\<lambda>_. replicate 32 1) ?a =
      Inr (encode_addr (\<lambda>_. replicate 32 1) CRYPTONOTE_PUBLIC_ADDRESS_BASE58_PREFIX
        (replicate 16 48 @ replicate 32 2 @ replicate 32 3))"
    by (simp add: address_string_def integrated_address_def is_ascii_hexdigit_def list_all_iff)
  ultimately show ?thesis using parse_address_iff [of "\<lambda>_. replicate 32 1" "\<lambda>_. True" _ ?a] by auto
qed

end
