(* ===== verification/Block.thy ===== *)
theory Block
  imports Tx_Extra Base58
begin

text \<open>
  Blocks (\<open>block.rs\<close>): the template and its merge-mining parent block, their wire format, the hashing
  blobs, the block id, the proof-of-work check and the genesis block. The fast hash \<open>H\<close>, the slow hash
  and argon2id are arguments, as in \<open>Pow\<close>.
\<close>

section \<open>Templates\<close>

abbreviation (input) BLOCK_MAJOR_VERSION_1 :: u8 where "BLOCK_MAJOR_VERSION_1 \<equiv> 1"
abbreviation (input) BLOCK_MAJOR_VERSION_2 :: u8 where "BLOCK_MAJOR_VERSION_2 \<equiv> 2"
abbreviation (input) BLOCK_MAJOR_VERSION_7 :: u8 where "BLOCK_MAJOR_VERSION_7 \<equiv> 7"
definition MAX_BLOCK_MAJOR_VERSION :: u8 where "MAX_BLOCK_MAJOR_VERSION = BLOCK_MAJOR_VERSION_7"

lemmas block_versions = MAX_BLOCK_MAJOR_VERSION_def

record parent_block =
  pb_major_version :: u8
  pb_minor_version :: u8
  pb_previous_block_hash :: hash
  pb_transaction_count :: u16
  pb_base_transaction_branch :: "hash list"
  pb_base_transaction :: transaction_prefix
  pb_blockchain_branch :: "hash list"
  pb_merge_mining_tag :: "merge_mining_tag option"

record block_template =
  bt_major_version :: u8
  bt_minor_version :: u8
  bt_timestamp :: u64
  bt_previous_block_hash :: hash
  bt_nonce :: u32
  bt_parent_block :: "parent_block option"
  bt_base_transaction :: transaction
  bt_transaction_hashes :: "hash list"

definition parent_block_new ::
  "u8 \<Rightarrow> u8 \<Rightarrow> hash \<Rightarrow> u16 \<Rightarrow> hash list \<Rightarrow> transaction_prefix \<Rightarrow> hash list \<Rightarrow> parent_block" where
  "parent_block_new major minor prev tx_count tx_branch base_tx chain_branch =
     \<lparr>pb_major_version = major, pb_minor_version = minor, pb_previous_block_hash = prev,
      pb_transaction_count = tx_count, pb_base_transaction_branch = tx_branch,
      pb_base_transaction = base_tx, pb_blockchain_branch = chain_branch,
      pb_merge_mining_tag = pe_merge_mining_tag (parse_extra (extra base_tx))\<rparr>"

section \<open>The parent block on the wire\<close>

definition parent_checks :: "parent_block \<Rightarrow> bool \<Rightarrow> unit result" where
  "parent_checks pb header_only =
     (if pb_transaction_count pb < 1 then Inl (Malformed ''parent numberOfTransactions'')
      else if length (pb_base_transaction_branch pb) \<noteq> tree_depth (unat (pb_transaction_count pb)) then
        Inl (Malformed ''miner transaction branch size'')
      else if \<not> header_only then
        (case pb_merge_mining_tag pb of None \<Rightarrow> Inl (Malformed ''merge mining tag missing'')
         | Some tag \<Rightarrow>
             if mm_depth tag > 256 then Inl (Malformed ''merge mining tag depth'')
             else if unat (mm_depth tag) \<noteq> length (pb_blockchain_branch pb) then
               Inl (Malformed ''blockchain branch size != mm depth'')
             else Inr ())
      else Inr ())"

definition parent_write ::
  "(bytes \<Rightarrow> hash) \<Rightarrow> parent_block \<Rightarrow> u64 \<Rightarrow> u32 \<Rightarrow> bool \<Rightarrow> bool \<Rightarrow> writer \<Rightarrow> writer result" where
  "parent_write H pb block_timestamp block_nonce hashing header_only w =
     (case parent_checks pb header_only of Inl e \<Rightarrow> Inl e
      | Inr _ \<Rightarrow>
          let w = w_varint (w_varint w (ucast (pb_major_version pb))) (ucast (pb_minor_version pb));
              w = w_varint w block_timestamp;
              w = w_raw w (pb_previous_block_hash pb);
              w = w_u32_le w block_nonce;
              w = (if hashing then
                     w_raw w (tree_hash_from_branch H (pb_base_transaction_branch pb)
                       (base_hash H (pb_base_transaction pb)))
                   else w);
              w = w_varint w (ucast (pb_transaction_count pb))
          in if header_only then Inr w
             else
               let w = fold (\<lambda>h w. w_raw w h) (pb_base_transaction_branch pb) w;
                   w = base_write (pb_base_transaction pb) w
               in Inr (fold (\<lambda>h w. w_raw w h) (pb_blockchain_branch pb) w))"

definition parent_read :: "(parent_block \<times> u64 \<times> u32) rd" where
  "parent_read =
     rbind (varint_bits 8) (\<lambda>major.
     rbind (varint_bits 8) (\<lambda>minor.
     rbind r_varint (\<lambda>timestamp.
     rbind r_hash (\<lambda>prev.
     rbind u32_le (\<lambda>nonce.
     rbind (varint_bits 16) (\<lambda>tx_num.
     if tx_num < 1 then rfail (Malformed ''parent numberOfTransactions'')
     else
       let tx_count = ucast tx_num :: u16 in
       rbind (read_n (tree_depth (unat tx_count)) r_hash) (\<lambda>tx_branch.
       rbind base_read (\<lambda>base_tx.
       let mm_tag = pe_merge_mining_tag (parse_extra (extra base_tx)) in
       case mm_tag of None \<Rightarrow> rfail (Malformed ''merge mining tag missing'')
       | Some tag \<Rightarrow>
           if mm_depth tag > 256 then rfail (Malformed ''merge mining tag depth'')
           else
             rbind (read_n (unat (mm_depth tag)) r_hash) (\<lambda>chain_branch.
             rret (\<lparr>pb_major_version = ucast major, pb_minor_version = ucast minor,
                pb_previous_block_hash = prev, pb_transaction_count = tx_count,
                pb_base_transaction_branch = tx_branch, pb_base_transaction = base_tx,
                pb_blockchain_branch = chain_branch, pb_merge_mining_tag = mm_tag\<rparr>,
               timestamp, nonce))))))))))"

section \<open>The template on the wire\<close>

definition write_header :: "block_template \<Rightarrow> writer \<Rightarrow> writer" where
  "write_header b w =
     (let w = w_varint (w_varint w (ucast (bt_major_version b))) (ucast (bt_minor_version b)) in
      if bt_major_version b = BLOCK_MAJOR_VERSION_1 then
        w_u32_le (w_raw (w_varint w (bt_timestamp b)) (bt_previous_block_hash b)) (bt_nonce b)
      else w_raw w (bt_previous_block_hash b))"

definition block_to_bytes :: "(bytes \<Rightarrow> hash) \<Rightarrow> block_template \<Rightarrow> bytes result" where
  "block_to_bytes H b =
     (if bt_major_version b = 0 \<or> bt_major_version b > MAX_BLOCK_MAJOR_VERSION then
        Inl (Malformed ''block major version'')
      else
        let w = write_header b [] in
        case (if bt_major_version b \<ge> BLOCK_MAJOR_VERSION_2 then
                (case bt_parent_block b of None \<Rightarrow> Inl (Malformed ''parent block missing'')
                 | Some pb \<Rightarrow> parent_write H pb (bt_timestamp b) (bt_nonce b) False False w)
              else Inr w) of
          Inl e \<Rightarrow> Inl e
        | Inr w \<Rightarrow>
            (case tx_write (bt_base_transaction b) w of Inl e \<Rightarrow> Inl e
             | Inr w \<Rightarrow>
                 let w = w_varint w (of_nat (length (bt_transaction_hashes b)))
                 in Inr (fold (\<lambda>h w. w_raw w h) (bt_transaction_hashes b) w)))"

definition read_header :: "u8 \<Rightarrow> (u64 \<times> hash \<times> u32 \<times> parent_block option) rd" where
  "read_header major_version =
     (if major_version = BLOCK_MAJOR_VERSION_1 then
        rbind r_varint (\<lambda>ts. rbind r_hash (\<lambda>prev. rbind u32_le (\<lambda>nonce. rret (ts, prev, nonce, None))))
      else
        rbind r_hash (\<lambda>prev. rbind parent_read (\<lambda>(pb, ts, nonce). rret (ts, prev, nonce, Some pb))))"

definition block_read :: "block_template rd" where
  "block_read =
     rbind (varint_bits 8) (\<lambda>major.
       let major_version = ucast major :: u8 in
       if major_version = 0 \<or> major_version > MAX_BLOCK_MAJOR_VERSION then
         rfail (Malformed ''block major version'')
       else
         rbind (varint_bits 8) (\<lambda>minor.
         rbind (read_header major_version) (\<lambda>(timestamp, prev, nonce, parent).
         rbind tx_read (\<lambda>base_transaction.
         rbind (read_vec 32 r_hash) (\<lambda>transaction_hashes.
         rret \<lparr>bt_major_version = major_version, bt_minor_version = ucast minor, bt_timestamp = timestamp,
           bt_previous_block_hash = prev, bt_nonce = nonce, bt_parent_block = parent,
           bt_base_transaction = base_transaction, bt_transaction_hashes = transaction_hashes\<rparr>)))))"

definition block_from_bytes :: "bytes \<Rightarrow> block_template result" where
  "block_from_bytes data = from_bytes block_read data"

section \<open>Hashes and proof of work\<close>

definition hash_as_object :: "(bytes \<Rightarrow> hash) \<Rightarrow> bytes \<Rightarrow> hash" where
  "hash_as_object H blob = H (encode (of_nat (length blob)) @ blob)"

definition all_transaction_hashes :: "(bytes \<Rightarrow> hash) \<Rightarrow> block_template \<Rightarrow> hash list result" where
  "all_transaction_hashes H b =
     (case tx_hash H (bt_base_transaction b) of Inl e \<Rightarrow> Inl e | Inr h \<Rightarrow> Inr (h # bt_transaction_hashes b))"

text \<open>The list is never empty, so the assertion of \<open>tree_hash\<close> holds.\<close>

definition transaction_tree_hash :: "(bytes \<Rightarrow> hash) \<Rightarrow> block_template \<Rightarrow> hash result" where
  "transaction_tree_hash H b =
     (case all_transaction_hashes H b of Inl e \<Rightarrow> Inl e | Inr hs \<Rightarrow> Inr (the (tree_hash H hs)))"

definition header_hashing_blob :: "(bytes \<Rightarrow> hash) \<Rightarrow> block_template \<Rightarrow> bytes result" where
  "header_hashing_blob H b =
     (let w = write_header b [] in
      case transaction_tree_hash H b of Inl e \<Rightarrow> Inl e
      | Inr h \<Rightarrow> Inr (w_varint (w_raw w h) (of_nat (length (bt_transaction_hashes b)) + 1)))"

definition parent_hashing_blob :: "(bytes \<Rightarrow> hash) \<Rightarrow> block_template \<Rightarrow> bool \<Rightarrow> bytes result" where
  "parent_hashing_blob H b header_only =
     (case bt_parent_block b of None \<Rightarrow> Inl (Malformed ''parent block missing'')
      | Some pb \<Rightarrow> parent_write H pb (bt_timestamp b) (bt_nonce b) True header_only [])"

definition auxiliary_header_hash :: "(bytes \<Rightarrow> hash) \<Rightarrow> block_template \<Rightarrow> hash result" where
  "auxiliary_header_hash H b = map_sum id (hash_as_object H) (header_hashing_blob H b)"

definition block_hash :: "(bytes \<Rightarrow> hash) \<Rightarrow> block_template \<Rightarrow> hash result" where
  "block_hash H b =
     (case header_hashing_blob H b of Inl e \<Rightarrow> Inl e
      | Inr blob \<Rightarrow>
          if bt_major_version b \<ge> BLOCK_MAJOR_VERSION_2 then
            (case parent_hashing_blob H b False of Inl e \<Rightarrow> Inl e
             | Inr pblob \<Rightarrow> Inr (hash_as_object H (blob @ pblob)))
          else Inr (hash_as_object H blob))"

definition pow_input :: "(bytes \<Rightarrow> hash) \<Rightarrow> block_template \<Rightarrow> bytes result" where
  "pow_input H b =
     (if bt_major_version b = BLOCK_MAJOR_VERSION_1 then header_hashing_blob H b
      else parent_hashing_blob H b True)"

text \<open>\<open>None\<close> is a panic of the slow hash.\<close>

definition pow_hash ::
  "(bytes \<Rightarrow> hash) \<Rightarrow> (bytes \<Rightarrow> cn_params \<Rightarrow> hash) \<Rightarrow> (bytes \<Rightarrow> bytes \<Rightarrow> hash) \<Rightarrow> block_template \<Rightarrow> hash result option" where
  "pow_hash H slow argon2id b =
     (case pow_input H b of Inl e \<Rightarrow> Some (Inl e)
      | Inr blob \<Rightarrow>
          map_option (\<lambda>h. case h of None \<Rightarrow> Inl (Malformed ''no PoW for this block version'') | Some h \<Rightarrow> Inr h)
            (pow_hash_for_block_version slow argon2id (bt_major_version b) blob))"

section \<open>The genesis block\<close>

text \<open>\<open>GENESIS_COINBASE_TX_HEX\<close>, decoded.\<close>

definition GENESIS_COINBASE_TX :: bytes where
  "GENESIS_COINBASE_TX =
     [0x01, 0x28, 0x01, 0xff, 0x00, 0x03, 0x80, 0x90, 0xca, 0xd2, 0xc6, 0x0e, 0x02, 0x48, 0x4a, 0xb5, 0x63, 0xa5, 0xec, 0x4c,
      0xb8, 0xaa, 0x15, 0x9b, 0x87, 0x8e, 0x4c, 0xa0, 0xa4, 0x17, 0xe7, 0x25, 0x8e, 0xc4, 0xfd, 0x33, 0x81, 0x28, 0x05, 0x9f,
      0x2b, 0x71, 0x93, 0xdc, 0xaa, 0x80, 0x90, 0xca, 0xd2, 0xc6, 0x0e, 0x02, 0x65, 0x5e, 0xd6, 0xab, 0x14, 0x0e, 0xf3, 0xca,
      0x45, 0xd8, 0xd9, 0x13, 0x12, 0x5b, 0x8b, 0xc8, 0x91, 0x7c, 0x59, 0x0a, 0xf4, 0xd1, 0xb9, 0xd7, 0xb4, 0xa6, 0x73, 0x96,
      0xe4, 0xa7, 0x64, 0x08, 0x80, 0x90, 0xca, 0xd2, 0xc6, 0x0e, 0x02, 0x0e, 0x06, 0xbf, 0x15, 0x87, 0xf9, 0x76, 0x8c, 0xfd,
      0x73, 0x5a, 0x95, 0xe8, 0x25, 0x4e, 0x98, 0xc6, 0x86, 0x04, 0xf6, 0x90, 0xe6, 0x99, 0xf8, 0x40, 0x30, 0x58, 0x42, 0x2e,
      0xde, 0x04, 0x28, 0x21, 0x01, 0xc4, 0x7e, 0xee, 0x4c, 0xfe, 0xf6, 0xf3, 0x0b, 0x53, 0x68, 0xd0, 0x25, 0x1a, 0xd6, 0x6a,
      0x58, 0x00, 0xe2, 0xf0, 0xb2, 0xb7, 0x0a, 0x4a, 0x30, 0x34, 0xc7, 0xbb, 0xa3, 0xc5, 0xd0, 0xd6, 0xe0]"

definition GENESIS_NONCE :: u32 where "GENESIS_NONCE = 70"

text \<open>\<open>Inl\<close> stands for the panic of \<open>expect\<close> if the constant did not parse.\<close>

definition genesis_block :: "block_template result" where
  "genesis_block =
     (case tx_from_bytes GENESIS_COINBASE_TX of Inl e \<Rightarrow> Inl e
      | Inr base_transaction \<Rightarrow>
          Inr \<lparr>bt_major_version = BLOCK_MAJOR_VERSION_1, bt_minor_version = 0, bt_timestamp = 0,
            bt_previous_block_hash = replicate 32 0, bt_nonce = GENESIS_NONCE, bt_parent_block = None,
            bt_base_transaction = base_transaction, bt_transaction_hashes = []\<rparr>)"

definition genesis_block_hash :: "(bytes \<Rightarrow> hash) \<Rightarrow> hash result" where
  "genesis_block_hash H = (case genesis_block of Inl e \<Rightarrow> Inl e | Inr b \<Rightarrow> block_hash H b)"

section \<open>The proof-of-work check\<close>

definition check_proof_of_work_with ::
  "(bytes \<Rightarrow> hash) \<Rightarrow> block_template \<Rightarrow> hash \<Rightarrow> u64 \<Rightarrow> bool result" where
  "check_proof_of_work_with H b pow difficulty =
     (if \<not> check_hash pow difficulty then Inr False
      else if bt_major_version b = BLOCK_MAJOR_VERSION_1 then Inr True
      else
        (case bt_parent_block b of None \<Rightarrow> Inl (Malformed ''parent block missing'')
         | Some pb \<Rightarrow>
             (case pb_merge_mining_tag pb of None \<Rightarrow> Inr False
              | Some tag \<Rightarrow>
                  if length (pb_blockchain_branch pb) > 256 then Inr False
                  else
                    (case auxiliary_header_hash H b of Inl e \<Rightarrow> Inl e
                     | Inr aux \<Rightarrow>
                         (case genesis_block_hash H of Inl e \<Rightarrow> Inl e
                          | Inr genesis \<Rightarrow>
                              Inr (tree_hash_from_branch_with_path H (pb_blockchain_branch pb) aux (Some genesis) =
                                merkle_root tag))))))"

definition check_proof_of_work ::
  "(bytes \<Rightarrow> hash) \<Rightarrow> (bytes \<Rightarrow> cn_params \<Rightarrow> hash) \<Rightarrow> (bytes \<Rightarrow> bytes \<Rightarrow> hash) \<Rightarrow> block_template \<Rightarrow> u64 \<Rightarrow>
   bool result option" where
  "check_proof_of_work H slow argon2id b difficulty =
     map_option (\<lambda>h. case h of Inl e \<Rightarrow> Inl e | Inr pow \<Rightarrow> check_proof_of_work_with H b pow difficulty)
       (pow_hash H slow argon2id b)"

definition validate_parent_block :: "(bytes \<Rightarrow> hash) \<Rightarrow> block_template \<Rightarrow> bool result" where
  "validate_parent_block H b =
     (if bt_major_version b < BLOCK_MAJOR_VERSION_2 then Inr True
      else
        (case bt_parent_block b of None \<Rightarrow> Inl (Malformed ''parent block missing'')
         | Some pb \<Rightarrow>
             if bt_major_version b = BLOCK_MAJOR_VERSION_2 \<and> pb_major_version pb > BLOCK_MAJOR_VERSION_1 then
               Inr False
             else
               (case parent_write H pb (bt_timestamp b) (bt_nonce b) False False [] of Inl e \<Rightarrow> Inl e
                | Inr w \<Rightarrow> Inr (length w \<le> 2048))))"

definition coinbase_output_total :: "block_template \<Rightarrow> u64 option" where
  "coinbase_output_total b = sum_outputs (prefix (bt_base_transaction b))"

definition coinbase_height :: "block_template \<Rightarrow> u64 option" where
  "coinbase_height b =
     (case inputs (prefix (bt_base_transaction b)) of [Base index] \<Rightarrow> Some index | _ \<Rightarrow> None)"

section \<open>The wire format, both ways\<close>

lemma from_bytes_reads: "reads p bs v \<Longrightarrow> from_bytes p bs = Inr v"
  using readsD [of p bs v "[]" "[]"] by (simp add: from_bytes_def reader_new_def finish_def)

lemma from_bytes_parses:
  assumes "parses p Q" and "from_bytes p bs = Inr v"
  shows "Q v bs"
proof -
  from assms(2) obtain r where p: "p (reader_new bs) = Inr (v, r)" and fin: "finish r = Inr ()"
    by (auto simp: from_bytes_def split: sum.splits)
  have "rd_wf (reader_new bs)" by (simp add: rd_wf_def reader_new_def)
  from parsesE [OF assms(1) this p] obtain cs where
    "r = reader_new bs\<lparr>rpos := rpos (reader_new bs) + length cs\<rparr>" "Q v cs" "bs = cs @ drop (length cs) bs"
    by (auto simp: reader_new_def)
  with fin show ?thesis by (auto simp: finish_def reader_new_def split: if_splits)
qed

lemma unat_ucast_down: "unat (ucast (w :: 'a::len word) :: 'b::len word) = unat w mod 2 ^ LENGTH('b)"
  by (simp add: unsigned_ucast_eq take_bit_eq_mod)

lemma ucast_u8_u64 [simp]: "ucast (ucast (v::u8) :: u64) = v" "unat (w::u64) < 2 ^ 8 \<Longrightarrow> ucast (ucast w :: u8) = w"
  by (simp_all add: word_unat_eq_iff unat_ucast_down [where 'a = 64 and 'b = 8])

lemma ucast_u16_u64 [simp]: "ucast (ucast (v::u16) :: u64) = v" "unat (w::u64) < 2 ^ 16 \<Longrightarrow> ucast (ucast w :: u16) = w"
  by (simp_all add: word_unat_eq_iff unat_ucast_down [where 'a = 64 and 'b = 16])

text \<open>
  The encoding of a block. The parent coinbase of version 2 and above carries one more varint, which
  the reader drops, so an encoding is given by the block and that varint.
\<close>

definition enc_base :: "transaction_prefix \<Rightarrow> u64 \<Rightarrow> bytes" where
  "enc_base p ignored = enc_prefix p @ (if 2 \<le> version p then encode ignored else [])"

definition enc_parent :: "parent_block \<Rightarrow> u64 \<Rightarrow> u32 \<Rightarrow> u64 \<Rightarrow> bytes" where
  "enc_parent pb ts nonce ignored =
     encode (ucast (pb_major_version pb)) @ encode (ucast (pb_minor_version pb)) @ encode ts @
     pb_previous_block_hash pb @ to_le 4 nonce @ encode (ucast (pb_transaction_count pb)) @
     concat (pb_base_transaction_branch pb) @ enc_base (pb_base_transaction pb) ignored @
     concat (pb_blockchain_branch pb)"

definition parent_ok :: "parent_block \<Rightarrow> bool" where
  "parent_ok pb \<longleftrightarrow> length (pb_previous_block_hash pb) = 32 \<and> 1 \<le> pb_transaction_count pb \<and>
     length (pb_base_transaction_branch pb) = tree_depth (unat (pb_transaction_count pb)) \<and>
     list_all (\<lambda>h. length h = 32) (pb_base_transaction_branch pb) \<and> prefix_ok (pb_base_transaction pb) \<and>
     pb_merge_mining_tag pb = pe_merge_mining_tag (parse_extra (extra (pb_base_transaction pb))) \<and>
     (case pb_merge_mining_tag pb of None \<Rightarrow> False
      | Some tag \<Rightarrow> mm_depth tag \<le> 256 \<and> length (pb_blockchain_branch pb) = unat (mm_depth tag)) \<and>
     list_all (\<lambda>h. length h = 32) (pb_blockchain_branch pb)"

lemma reads_base: "prefix_ok p \<Longrightarrow> reads base_read (enc_base p ignored) p"
  unfolding base_read_def enc_base_def
  by (rule any_prefix.reads_bind) (auto intro: reads_rret varint64.reads_last)

lemma parses_base: "parses base_read (\<lambda>p bs. prefix_ok p \<and> (\<exists>ignored. bs = enc_base p ignored))"
  unfolding base_read_def
  by (rule any_prefix.parses_bind)
     (auto simp: enc_base_def intro!: varint64.parses_last parses_mono [OF parses_rret])

lemma reads_parent:
  assumes "parent_ok pb"
  shows "reads parent_read (enc_parent pb ts nonce ignored) (pb, ts, nonce)"
proof -
  obtain tag where tag: "pb_merge_mining_tag pb = Some tag" "mm_depth tag \<le> 256"
      "length (pb_blockchain_branch pb) = unat (mm_depth tag)"
    using assms by (auto simp: parent_ok_def split: option.splits)
  have branch: "reads (read_n (tree_depth (unat (pb_transaction_count pb))) r_hash)
      (concat (pb_base_transaction_branch pb)) (pb_base_transaction_branch pb)"
    using hash.dec_n_enc [of "pb_base_transaction_branch pb"] assms by (simp add: parent_ok_def)
  have chain: "reads (read_n (unat (mm_depth tag)) r_hash) (concat (pb_blockchain_branch pb)) (pb_blockchain_branch pb)"
    using hash.dec_n_enc [of "pb_blockchain_branch pb"] assms tag by (simp add: parent_ok_def)
  have one: "\<not> (ucast (pb_transaction_count pb) :: u64) < 1"
    using assms by (simp add: parent_ok_def word_less_nat_alt word_le_nat_alt)
  have pe: "pe_merge_mining_tag (parse_extra (extra (pb_base_transaction pb))) = Some tag"
    using assms tag by (simp add: parent_ok_def)
  have "\<not> mm_depth tag > 256" using tag(2) by simp
  then show ?thesis
    unfolding parent_read_def enc_parent_def
    using assms tag one
    by (intro varint8.reads_bind varint64.reads_bind hash.reads_bind u32.reads_bind varint16.reads_bind)
       (auto simp: parent_ok_def Let_def pe intro!: reads_rbind [OF branch] reads_rbind [OF reads_base] reads_map [OF chain])
qed

lemma parses_parent:
  "parses parent_read (\<lambda>(pb, ts, nonce) bs. parent_ok pb \<and> (\<exists>ignored. bs = enc_parent pb ts nonce ignored))"
  unfolding parent_read_def Let_def
  apply (intro varint8.parses_bind varint64.parses_bind hash.parses_bind u32.parses_bind varint16.parses_bind)
  apply (split if_split, intro conjI impI parses_rfail)
  apply (rule parses_rbind [OF hash.enc_dec_n], rule parses_rbind [OF parses_base])
  apply (split option.split, intro conjI impI allI parses_rfail)
  apply (split if_split, intro conjI impI parses_rfail)
  apply (rule parses_rbind_rret, rule parses_mono [OF hash.enc_dec_n])
  apply (auto simp: parent_ok_def enc_parent_def word_less_nat_alt word_le_nat_alt
      unat_ucast_down [where 'a = 64 and 'b = 16])
  done

definition enc_header :: "block_template \<Rightarrow> u64 \<Rightarrow> bytes" where
  "enc_header b ignored =
     (case bt_parent_block b of
        None \<Rightarrow> encode (bt_timestamp b) @ bt_previous_block_hash b @ to_le 4 (bt_nonce b)
      | Some pb \<Rightarrow> bt_previous_block_hash b @ enc_parent pb (bt_timestamp b) (bt_nonce b) ignored)"

definition enc_block :: "block_template \<Rightarrow> u64 \<Rightarrow> bytes" where
  "enc_block b ignored =
     encode (ucast (bt_major_version b)) @ encode (ucast (bt_minor_version b)) @ enc_header b ignored @
     enc_tx (bt_base_transaction b) @ enc_vec (\<lambda>h. h) (bt_transaction_hashes b)"

definition block_ok :: "block_template \<Rightarrow> bool" where
  "block_ok b \<longleftrightarrow> 1 \<le> bt_major_version b \<and> bt_major_version b \<le> 7 \<and>
     length (bt_previous_block_hash b) = 32 \<and>
     (case bt_parent_block b of None \<Rightarrow> bt_major_version b = 1
      | Some pb \<Rightarrow> bt_major_version b \<noteq> 1 \<and> parent_ok pb) \<and>
     tx_ok (bt_base_transaction b) \<and> ok_vec (\<lambda>h. length h = 32) (bt_transaction_hashes b)"

interpretation hashes: counted_codec "\<lambda>bs. bs" r_hash "\<lambda>bs. length bs = 32" 32
  by unfold_locales simp_all

lemma reads_header:
  assumes "block_ok b"
  shows "reads (read_header (bt_major_version b)) (enc_header b ignored)
    (bt_timestamp b, bt_previous_block_hash b, bt_nonce b, bt_parent_block b)"
proof (cases "bt_parent_block b")
  case None
  with assms show ?thesis
    unfolding read_header_def enc_header_def
    by (auto simp: block_ok_def block_versions intro!: varint64.reads_bind hash.reads_bind u32.reads_last)
next
  case (Some pb)
  have "reads (rbind parent_read (\<lambda>(pb, ts, nonce). rret (ts, bt_previous_block_hash b, nonce, Some pb)))
      (enc_parent pb (bt_timestamp b) (bt_nonce b) ignored @ [])
      (bt_timestamp b, bt_previous_block_hash b, bt_nonce b, Some pb)"
    using assms Some by (intro reads_rbind [OF reads_parent]) (auto simp: block_ok_def intro: reads_rret)
  with Some assms show ?thesis
    unfolding read_header_def enc_header_def
    by (auto simp: block_ok_def block_versions intro!: hash.reads_bind)
qed

lemma parses_header:
  "parses (read_header major) (\<lambda>(ts, prev, nonce, parent) bs. length prev = 32 \<and>
     (case parent of None \<Rightarrow> major = 1 \<and> bs = encode ts @ prev @ to_le 4 nonce
      | Some pb \<Rightarrow> major \<noteq> 1 \<and> parent_ok pb \<and> (\<exists>ignored. bs = prev @ enc_parent pb ts nonce ignored)))"
proof (cases "major = 1")
  case True
  then show ?thesis
    unfolding read_header_def
    by (auto simp: block_versions intro!: varint64.parses_bind hash.parses_bind u32.parses_last)
next
  case False
  have "parses (rbind parent_read (\<lambda>(pb, ts, nonce). rret (ts, p, nonce, Some pb)))
     (\<lambda>w bs. case w of (ts, prev, nonce, parent) \<Rightarrow> length prev = 32 \<and>
       (case parent of None \<Rightarrow> False
        | Some pb \<Rightarrow> parent_ok pb \<and> (\<exists>ignored. p @ bs = prev @ enc_parent pb ts nonce ignored)))"
    if "length p = 32" for p
    using that by (intro parses_rbind [OF parses_parent]) (auto intro!: parses_mono [OF parses_rret])
  note inner = this
  have header: "read_header major = rbind r_hash (\<lambda>prev. rbind parent_read
      (\<lambda>(pb, ts, nonce). rret (ts, prev, nonce, Some pb)))"
    using False by (simp add: read_header_def block_versions)
  show ?thesis
    unfolding header
    by (rule hash.parses_bind, erule parses_mono [OF inner]) (use False in \<open>auto split: option.splits\<close>)
qed


lemma reads_block:
  assumes "block_ok b"
  shows "reads block_read (enc_block b ignored) b"
proof -
  have tail: "reads (rbind tx_read (\<lambda>t. rbind (read_vec 32 r_hash) (\<lambda>hs.
      rret \<lparr>bt_major_version = bt_major_version b, bt_minor_version = bt_minor_version b,
        bt_timestamp = bt_timestamp b, bt_previous_block_hash = bt_previous_block_hash b,
        bt_nonce = bt_nonce b, bt_parent_block = bt_parent_block b,
        bt_base_transaction = t, bt_transaction_hashes = hs\<rparr>)))
     (enc_tx (bt_base_transaction b) @ enc_vec (\<lambda>h. h) (bt_transaction_hashes b)) b"
    using assms by (intro tx.reads_bind hashes.vec.reads_last) (auto simp: block_ok_def)
  have header: "reads (rbind (read_header (bt_major_version b)) (\<lambda>(timestamp, prev, nonce, parent).
      rbind tx_read (\<lambda>t. rbind (read_vec 32 r_hash) (\<lambda>hs.
      rret \<lparr>bt_major_version = bt_major_version b, bt_minor_version = bt_minor_version b,
        bt_timestamp = timestamp, bt_previous_block_hash = prev, bt_nonce = nonce, bt_parent_block = parent,
        bt_base_transaction = t, bt_transaction_hashes = hs\<rparr>))))
     (enc_header b ignored @ enc_tx (bt_base_transaction b) @ enc_vec (\<lambda>h. h) (bt_transaction_hashes b)) b"
    using tail by (intro reads_rbind [OF reads_header [OF assms]]) simp
  have "bt_major_version b \<noteq> 0" "\<not> bt_major_version b > 7"
    using assms by (auto simp: block_ok_def)
  with header show ?thesis
    unfolding block_read_def enc_block_def
    by (auto simp: block_versions Let_def intro!: varint8.reads_bind)
qed

lemma parses_block: "parses block_read (\<lambda>b bs. block_ok b \<and> (\<exists>ignored. bs = enc_block b ignored))"
  unfolding block_read_def Let_def
  apply (rule varint8.parses_bind)
  apply (split if_split, intro conjI impI parses_rfail)
  apply (rule varint8.parses_bind, rule parses_rbind [OF parses_header])
  apply (simp only: prod.case split_paired_all)
  apply (rule tx.parses_bind, rule hashes.vec.parses_last)
  apply (auto simp: block_ok_def enc_block_def enc_header_def block_versions word_less_nat_alt word_le_nat_alt
      Suc_le_eq unat_gt_0 split: option.splits)
  done

lemma fold_raw': "fold (\<lambda>h w. w @ h) hs w = w @ concat hs"
  by (induction hs arbitrary: w) simp_all

lemma parent_write_ok:
  assumes "parent_ok pb"
  shows "parent_write H pb ts nonce False False w = Inr (w @ enc_parent pb ts nonce 0)"
proof -
  have "parent_checks pb False = Inr ()"
    using assms by (auto simp: parent_checks_def parent_ok_def split: option.splits)
  then show ?thesis
    by (simp add: parent_write_def enc_parent_def codec_simps fold_raw' enc_base_def base_write_def Let_def)
qed

lemma tx_write_ok:
  assumes "tx_ok t"
  shows "tx_write t w = Inr (w @ enc_tx t)"
proof -
  have "tx_write t w = Inr w' \<longleftrightarrow> w' = w @ enc_tx t \<and> tx_to_bytes t = Inr (enc_tx t)" for w'
    by (auto simp: tx_to_bytes_iff tx_write_def codec_simps enc_tx_def sigs_write_iff ring_size_def
      list_ex_iff list_all_iff dest: list_all2_lengthD split: input.splits if_splits)
  with assms show ?thesis by (simp add: tx_ok_to_bytes)
qed

lemma u8_ge_2: "v \<noteq> 0 \<Longrightarrow> v \<noteq> 1 \<Longrightarrow> 2 \<le> (v :: u8)"
  by (simp add: word_le_nat_alt word_unat_eq_iff)

lemma block_to_bytes_ok:
  assumes "block_ok b"
  shows "block_to_bytes H b = Inr (enc_block b 0)"
proof -
  have "bt_major_version b \<noteq> 0" "\<not> bt_major_version b > 7" "tx_ok (bt_base_transaction b)"
    using assms by (auto simp: block_ok_def)
  moreover have "\<not> (2 :: u8) \<le> 1" by (simp add: word_le_nat_alt)
  ultimately show ?thesis
    using assms
    by (auto simp: block_ok_def block_to_bytes_def enc_block_def enc_header_def enc_vec_def write_header_def Let_def
       block_versions codec_simps fold_raw' tx_write_ok parent_write_ok u8_ge_2 split: option.splits)
qed


lemma block_from_bytes_iff:
  "block_from_bytes data = Inr b \<longleftrightarrow> block_ok b \<and> (\<exists>ignored. data = enc_block b ignored)"
  unfolding block_from_bytes_def
  using from_bytes_reads [OF reads_block] from_bytes_parses [OF parses_block] by blast

lemma enc_block_ignored:
  assumes "case bt_parent_block b of None \<Rightarrow> True | Some pb \<Rightarrow> version (pb_base_transaction pb) < 2"
  shows "enc_block b ignored = enc_block b 0"
  using assms by (auto simp: enc_block_def enc_header_def enc_parent_def enc_base_def split: option.splits)

text \<open>A merge-mined block: its parent's coinbase is version 1 and carries the merge-mining tag.\<close>

definition example_parent_coinbase :: transaction_prefix where
  "example_parent_coinbase = \<lparr>version = 1, unlock_time = 40, inputs = [Base 9], outputs = [],
     extra = [3, 33, 0] @ replicate 32 7\<rparr>"

definition example_block :: block_template where
  "example_block = \<lparr>bt_major_version = 7, bt_minor_version = 0, bt_timestamp = 300,
     bt_previous_block_hash = replicate 32 1, bt_nonce = 5,
     bt_parent_block = Some (parent_block_new 1 0 (replicate 32 2) 1 [] example_parent_coinbase []),
     bt_base_transaction = example_tx, bt_transaction_hashes = [replicate 32 8]\<rparr>"

lemma example_tag:
  "pe_merge_mining_tag (parse_extra ([3, 33, 0] @ replicate 32 7)) =
     Some \<lparr>mm_depth = 0, merkle_root = replicate 32 7\<rparr>"
  using parse_extra_mm [of "\<lparr>mm_depth = 0, merkle_root = replicate 32 7\<rparr>" pe0 "0 # replicate 32 7"]
  by (simp add: parse_extra_pe0 encode_eval) (simp add: pe0_def)


lemma example_block_ok: "block_ok example_block"
  using example_tag top_bit.simps [of 1]
  by (simp add: example_block_def block_ok_def parent_block_new_def parent_ok_def example_parent_coinbase_def
      prefix_ok_def input_ok_def ok_vec_def example_tx_ok tree_depth_def)

text \<open>C26: every well-formed block, merge-mined or not, serializes, and its bytes parse back to it.\<close>

theorem block_roundtrip:
  assumes "block_ok b"
  shows "\<exists>data. block_to_bytes H b = Inr data \<and> block_from_bytes data = Inr b"
  using assms by (auto simp: block_to_bytes_ok block_from_bytes_iff)

theorem block_roundtrip_witness:
  "\<exists>data. block_to_bytes (\<lambda>_. replicate 32 0) example_block = Inr data \<and>
     block_from_bytes data = Inr example_block"
  by (rule block_roundtrip [OF example_block_ok])

text \<open>C27: bytes that parse as a block are what the block serializes to, unless the parent block's coinbase
  is version 2 or above, whose extra varint the parser drops.\<close>

theorem block_encoding_canonical:
  assumes "block_from_bytes data = Inr b"
    and "case bt_parent_block b of None \<Rightarrow> True | Some pb \<Rightarrow> version (pb_base_transaction pb) < 2"
  shows "block_to_bytes H b = Inr data"
proof -
  obtain ignored where "block_ok b" "data = enc_block b ignored"
    using assms(1) by (auto simp: block_from_bytes_iff)
  with assms(2) show ?thesis by (simp add: block_to_bytes_ok enc_block_ignored [of b ignored])
qed

theorem block_encoding_canonical_witness:
  "block_from_bytes (enc_block example_block 3) = Inr example_block \<and>
   block_to_bytes (\<lambda>_. replicate 32 0) example_block = Inr (enc_block example_block 3)"
proof -
  have "block_from_bytes (enc_block example_block 3) = Inr example_block"
    using example_block_ok by (auto simp: block_from_bytes_iff)
  with block_encoding_canonical [OF this, of "\<lambda>_. replicate 32 0"] show ?thesis
    by (simp add: example_block_def parent_block_new_def example_parent_coinbase_def)
qed

section \<open>The genesis block\<close>

definition genesis_tx :: transaction where
  "genesis_tx = \<lparr>prefix = \<lparr>version = 1, unlock_time = 40, inputs = [Base 0],
      outputs =
        [\<lparr>out_amount = 500000000000, out_key = [0x48, 0x4a, 0xb5, 0x63, 0xa5, 0xec, 0x4c, 0xb8, 0xaa, 0x15, 0x9b, 0x87, 0x8e, 0x4c, 0xa0, 0xa4, 0x17, 0xe7, 0x25, 0x8e, 0xc4, 0xfd, 0x33, 0x81, 0x28, 0x05, 0x9f, 0x2b, 0x71, 0x93, 0xdc, 0xaa]\<rparr>,
         \<lparr>out_amount = 500000000000, out_key = [0x65, 0x5e, 0xd6, 0xab, 0x14, 0x0e, 0xf3, 0xca, 0x45, 0xd8, 0xd9, 0x13, 0x12, 0x5b, 0x8b, 0xc8, 0x91, 0x7c, 0x59, 0x0a, 0xf4, 0xd1, 0xb9, 0xd7, 0xb4, 0xa6, 0x73, 0x96, 0xe4, 0xa7, 0x64, 0x08]\<rparr>,
         \<lparr>out_amount = 500000000000, out_key = [0x0e, 0x06, 0xbf, 0x15, 0x87, 0xf9, 0x76, 0x8c, 0xfd, 0x73, 0x5a, 0x95, 0xe8, 0x25, 0x4e, 0x98, 0xc6, 0x86, 0x04, 0xf6, 0x90, 0xe6, 0x99, 0xf8, 0x40, 0x30, 0x58, 0x42, 0x2e, 0xde, 0x04, 0x28]\<rparr>],
      extra = [0x01, 0xc4, 0x7e, 0xee, 0x4c, 0xfe, 0xf6, 0xf3, 0x0b, 0x53, 0x68, 0xd0, 0x25, 0x1a, 0xd6, 0x6a, 0x58, 0x00, 0xe2, 0xf0, 0xb2, 0xb7, 0x0a, 0x4a, 0x30, 0x34, 0xc7, 0xbb, 0xa3, 0xc5, 0xd0, 0xd6, 0xe0]\<rparr>, signatures = []\<rparr>"

lemma genesis_tx_ok: "tx_ok genesis_tx"
  by (simp add: genesis_tx_def tx_ok_def prefix_ok_def input_ok_def output_ok_def ok_vec_def tag_defs
      is_coinbase_def CURRENT_TRANSACTION_VERSION_def ring_size_def)

lemma genesis_tx_enc: "enc_tx genesis_tx = GENESIS_COINBASE_TX"
  by (simp add: genesis_tx_def GENESIS_COINBASE_TX_def enc_tx_def enc_prefix_def enc_input_def enc_output_def
      enc_vec_def tag_defs encode_eval)

lemma genesis_tx_parses: "tx_from_bytes GENESIS_COINBASE_TX = Inr genesis_tx"
  by (simp add: tx_from_bytes_def tx.from_bytes_iff genesis_tx_ok genesis_tx_enc)

text \<open>The genesis constant parses, as the coinbase of height 0 with unlock time 40, and pays exactly
  \<open>GENESIS_BLOCK_REWARD\<close>; the block around it is well formed, so neither \<open>expect\<close> of \<open>genesis_block\<close> panics.\<close>

theorem genesis_block_valid:
  "\<exists>b. genesis_block = Inr b \<and> block_ok b \<and> coinbase_height b = Some 0 \<and>
     coinbase_output_total b = Some GENESIS_BLOCK_REWARD \<and>
     unlock_time (prefix (bt_base_transaction b)) = 40 \<and> bt_transaction_hashes b = []"
proof -
  have "sum_outputs (prefix genesis_tx) = Some GENESIS_BLOCK_REWARD"
    by (simp add: genesis_tx_def sum_outputs_def const_defs checked_add_def word_less_nat_alt)
  then show ?thesis
    using genesis_tx_ok
    by (simp add: genesis_block_def genesis_tx_parses block_ok_def block_versions coinbase_height_def
        coinbase_output_total_def ok_vec_def) (simp add: genesis_tx_def)
qed

section \<open>The proof-of-work rule\<close>

lemma genesis_block_hash_ok: "\<exists>h. genesis_block_hash H = Inr h"
  by (simp add: genesis_block_hash_def genesis_block_def genesis_tx_parses block_hash_def header_hashing_blob_def
      transaction_tree_hash_def all_transaction_hashes_def tx_hash_def tx_ok_to_bytes [OF genesis_tx_ok]
      block_versions word_le_nat_alt)

text \<open>C28: a block is accepted at a difficulty exactly when its proof-of-work hash, read as a 256-bit
  little-endian number, times the difficulty stays below \<open>2 ^ 256\<close>, and, above version 1, its parent
  carries a merge-mining tag whose root is reached from the block's own header hash along the blockchain
  branch, with the genesis id as the path; and a hash that meets a difficulty meets every lower one.\<close>

theorem check_proof_of_work_rule:
  assumes "length pow = 32"
  shows "(check_proof_of_work_with H b pow difficulty = Inr True \<longleftrightarrow>
      le_nat pow * unat difficulty < 2 ^ 256 \<and>
      (bt_major_version b = 1 \<or>
       (\<exists>pb tag aux genesis. bt_parent_block b = Some pb \<and> pb_merge_mining_tag pb = Some tag \<and>
          length (pb_blockchain_branch pb) \<le> 256 \<and> auxiliary_header_hash H b = Inr aux \<and>
          genesis_block_hash H = Inr genesis \<and>
          tree_hash_from_branch_with_path H (pb_blockchain_branch pb) aux (Some genesis) = merkle_root tag))) \<and>
    (check_proof_of_work_with H b pow difficulty = Inr True \<longrightarrow> easier \<le> difficulty \<longrightarrow>
      check_proof_of_work_with H b pow easier = Inr True)"
proof -
  have iff: "check_proof_of_work_with H b pow d = Inr True \<longleftrightarrow>
      le_nat pow * unat d < 2 ^ 256 \<and>
      (bt_major_version b = 1 \<or>
       (\<exists>pb tag aux genesis. bt_parent_block b = Some pb \<and> pb_merge_mining_tag pb = Some tag \<and>
          length (pb_blockchain_branch pb) \<le> 256 \<and> auxiliary_header_hash H b = Inr aux \<and>
          genesis_block_hash H = Inr genesis \<and>
          tree_hash_from_branch_with_path H (pb_blockchain_branch pb) aux (Some genesis) = merkle_root tag))" for d
    by (auto simp: check_proof_of_work_with_def check_hash_iff [OF assms] block_versions
        split: option.splits sum.splits)
  have mono: "le_nat pow * unat easier < 2 ^ 256"
    if "le_nat pow * unat difficulty < 2 ^ 256" "easier \<le> difficulty"
    by (rule le_less_trans [OF mult_le_mono2 that(1)]) (use that(2) in \<open>simp add: word_le_nat_alt\<close>)
  show ?thesis unfolding iff using mono by blast
qed

theorem check_proof_of_work_rule_witness:
  "check_proof_of_work_with (\<lambda>_. replicate 32 0) (example_block \<lparr>bt_major_version := 1\<rparr>)
     (replicate 31 0 @ [1]) 200 = Inr True \<and>
   check_proof_of_work_with (\<lambda>_. replicate 32 0) (example_block \<lparr>bt_major_version := 1\<rparr>)
     (replicate 31 0 @ [1]) 256 \<noteq> Inr True"
  using check_proof_of_work_rule [of "replicate 31 0 @ [1]" "\<lambda>_. replicate 32 0"
      "example_block \<lparr>bt_major_version := 1\<rparr>" 255 200]
    check_proof_of_work_rule [of "replicate 31 0 @ [1]" "\<lambda>_. replicate 32 0"
      "example_block \<lparr>bt_major_version := 1\<rparr>" 256 0]
  by (simp add: le_nat_zeros word_le_nat_alt)

end
