(* ===== verification/Reward.thy ===== *)
theory Reward
  imports Difficulty Fees_Mixins Block
begin

text \<open>
  The block reward with its size penalty (\<open>wrkz-chain/src/reward.rs\<close>) and the fusion rule
  (\<open>wrkz-chain/src/fusion.rs\<close>). The 128-bit intermediate values keep their width; the division by a
  zero median, which the callers exclude, is a panic.
\<close>

section \<open>The median and the penalty\<close>

definition median_value :: "u64 list \<Rightarrow> u64" where
  "median_value v =
     (if v = [] then 0
      else if length v = 1 then v ! 0
      else
        let n = length v div 2;
            v = sort v
        in if length v mod 2 = 1 then v ! n
           else ucast ((ucast (v ! (n - 1)) + ucast (v ! n) :: 128 word) div 2))"

definition get_penalized_amount :: "u64 \<Rightarrow> u64 \<Rightarrow> u64 \<Rightarrow> panic + u64" where
  "get_penalized_amount amount median_size current_block_size =
     (if amount = 0 then Inr 0
      else if current_block_size \<le> median_size then Inr amount
      else
        let factor = ucast current_block_size *
              saturating_sub (2 * ucast median_size) (ucast current_block_size) :: 128 word;
            product = ucast amount * factor;
            m = ucast median_size
        in if m = 0 then Inl DivideByZero else Inr (ucast (product div m div m)))"

record block_reward =
  reward :: u64
  emission_change :: int

definition base_reward :: "u64 \<Rightarrow> u64 \<Rightarrow> u64" where
  "base_reward already_generated_coins block_height =
     (if block_height \<ge> FIXED_REWARD_V1_HEIGHT then FIXED_REWARD_V1
      else drop_bit (unat EMISSION_SPEED_FACTOR) (saturating_sub MONEY_SUPPLY already_generated_coins))"

definition get_block_reward ::
  "u8 \<Rightarrow> u64 \<Rightarrow> u64 \<Rightarrow> u64 \<Rightarrow> u64 \<Rightarrow> u64 \<Rightarrow> panic + block_reward option" where
  "get_block_reward block_major_version median_size current_block_size already_generated_coins fees block_height =
     (let median_size = max median_size (of_nat (full_reward_zone block_major_version)) in
      if current_block_size > 2 * median_size then Inr None
      else
        (case get_penalized_amount (base_reward already_generated_coins block_height) median_size
                current_block_size of Inl p \<Rightarrow> Inl p
         | Inr penalized_base_reward \<Rightarrow>
             (case (if block_major_version \<ge> BLOCK_MAJOR_VERSION_2 then
                      get_penalized_amount fees median_size current_block_size
                    else Inr fees) of Inl p \<Rightarrow> Inl p
              | Inr penalized_fee \<Rightarrow>
                  Inr (Some \<lparr>reward = penalized_base_reward + penalized_fee,
                    emission_change = i64_wrap
                      (uint penalized_base_reward - (uint fees - uint penalized_fee))\<rparr>))))"

section \<open>Fusion transactions\<close>

text \<open>The loop over the inputs: the wrapping sum, or \<open>None\<close> at the first amount below the threshold.\<close>

fun fusion_input_amount :: "u64 \<Rightarrow> u64 \<Rightarrow> input list \<Rightarrow> u64 option" where
  "fusion_input_amount threshold acc [] = Some acc"
| "fusion_input_amount threshold acc (input # rest) =
     (let amount = (case input of Key amount _ _ \<Rightarrow> amount | Base _ \<Rightarrow> 0)
      in if amount < threshold then None else fusion_input_amount threshold (acc + amount) rest)"

definition is_fusion_transaction :: "transaction_prefix \<Rightarrow> nat \<Rightarrow> u64 \<Rightarrow> bool" where
  "is_fusion_transaction p tx_size height =
     (if tx_size > FUSION_TX_MAX_SIZE then False
      else if length (inputs p) < FUSION_TX_MIN_INPUT_COUNT then False
      else if length (inputs p) < length (outputs p) * FUSION_TX_MIN_IN_OUT_COUNT_RATIO then False
      else
        let threshold = default_fusion_dust_threshold height in
        case fusion_input_amount threshold 0 (inputs p) of
          None \<Rightarrow> False
        | Some input_amount \<Rightarrow>
            let input_amount =
                  (if FUSION_FEE_V1_HEIGHT \<le> height \<and> height < FUSION_ZERO_FEE_V2_HEIGHT then
                     input_amount - FUSION_FEE_V1
                   else input_amount)
            in sort (decompose_amount input_amount threshold) = map out_amount (outputs p))"

section \<open>The penalty\<close>

lemma square_bound: "(s :: nat) \<le> 2 * m \<Longrightarrow> s * (2 * m - s) \<le> m * m"
proof -
  assume "s \<le> 2 * m"
  then have "int (s * (2 * m - s)) = int m * int m - (int m - int s) * (int m - int s)"
    by (simp add: of_nat_diff algebra_simps)
  also have "\<dots> \<le> int m * int m" by simp
  finally show ?thesis by (metis of_nat_le_iff of_nat_mult)
qed

lemma unat_mult_small: "unat a * unat b < 2 ^ LENGTH('a) \<Longrightarrow> unat (a * b) = unat a * unat b"
  for a b :: "'a::len word"
  by (simp add: unat_word_ariths)

text \<open>What \<open>get_penalized_amount\<close> returns on whole numbers.\<close>

definition penalized :: "nat \<Rightarrow> nat \<Rightarrow> nat \<Rightarrow> nat" where
  "penalized a m s = (if s \<le> m then a else a * (s * (2 * m - s)) div (m * m))"

lemma penalized_le: "penalized a m s \<le> a"
proof (cases "s \<le> m \<or> 2 * m < s \<or> m = 0")
  case False
  then have "s * (2 * m - s) \<le> m * m" by (intro square_bound) simp
  then have "a * (s * (2 * m - s)) div (m * m) \<le> a * (m * m) div (m * m)"
    by (intro div_le_mono mult_le_mono2)
  also have "\<dots> = a" using False by simp
  finally show ?thesis by (simp add: penalized_def)
qed (auto simp: penalized_def)

lemma get_penalized_amount_eq:
  assumes "0 < m" and "unat m < 2 ^ 32" and "unat s \<le> 2 * unat m"
  shows "get_penalized_amount a m s = Inr (of_nat (penalized (unat a) (unat m) (unat s)))"
proof (cases "a = 0 \<or> s \<le> m")
  case True
  then show ?thesis by (auto simp: get_penalized_amount_def penalized_def word_le_nat_alt)
next
  case False
  let ?m = "ucast m :: 128 word" and ?s = "ucast s :: 128 word" and ?a = "ucast a :: 128 word"
  have m2: "unat (2 * ?m) = 2 * unat m" using assms(2) by (simp add: unat_word_ariths)
  have d: "unat (saturating_sub (2 * ?m) ?s) = 2 * unat m - unat s" by (simp add: arith_simps m2)
  have mm: "unat m * unat m < 2 ^ 64"
    using mult_strict_mono [OF assms(2,2)] by simp
  have sq: "unat s * (2 * unat m - unat s) \<le> unat m * unat m" by (rule square_bound [OF assms(3)])
  then have f: "unat (?s * saturating_sub (2 * ?m) ?s) = unat s * (2 * unat m - unat s)"
    using mm by (simp add: unat_word_ariths d)
  have "unat a * (unat s * (2 * unat m - unat s)) < 2 ^ 64 * 2 ^ 64"
    using sq mm by (intro mult_strict_mono) auto
  then have p: "unat (?a * (?s * saturating_sub (2 * ?m) ?s)) = unat a * (unat s * (2 * unat m - unat s))"
    using unat_mult_small [of ?a "?s * saturating_sub (2 * ?m) ?s"] by (simp add: f)
  have "?m \<noteq> 0" using assms(1) by (simp add: word_unat_eq_iff word_less_nat_alt)
  moreover have "unat (?a * (?s * saturating_sub (2 * ?m) ?s) div ?m div ?m) =
      penalized (unat a) (unat m) (unat s)"
    using False by (simp add: unat_div p penalized_def word_le_nat_alt div_mult2_eq)
  moreover from this have "ucast (?a * (?s * saturating_sub (2 * ?m) ?s) div ?m div ?m) =
      (of_nat (penalized (unat a) (unat m) (unat s)) :: u64)"
    by (metis of_nat_unat)
  ultimately show ?thesis using False by (simp add: get_penalized_amount_def Let_def)
qed


section \<open>The reward\<close>

lemma base_reward_bounds: "unat (base_reward coins h) \<le> 11920928" "unat h \<ge> 1500000 \<Longrightarrow> base_reward coins h = 1000000"
proof -
  have "unat (saturating_sub MONEY_SUPPLY coins) div 4194304 \<le> 50000000000000 div 4194304"
    by (rule div_le_mono) (simp add: arith_simps const_defs)
  then show "unat (base_reward coins h) \<le> 11920928" by (simp add: base_reward_def const_defs arith_simps)
qed (simp add: base_reward_def const_defs word_le_nat_alt)

lemma full_reward_zone_bounds: "10000 \<le> full_reward_zone v" "full_reward_zone v \<le> 100000"
  by (simp_all add: full_reward_zone_def const_defs)

text \<open>The fee that is penalized: all of it from block version 2 on, none before.\<close>

definition penalized_fees :: "u8 \<Rightarrow> nat \<Rightarrow> nat \<Rightarrow> nat \<Rightarrow> nat" where
  "penalized_fees v f m s = (if 2 \<le> v then penalized f m s else f)"

lemma get_block_reward_eq:
  assumes "unat median_size < 2 ^ 32"
    and m: "m = max (unat median_size) (full_reward_zone v)"
  shows "get_block_reward v median_size s coins fees h =
    Inr (if 2 * m < unat s then None
      else Some \<lparr>reward = of_nat (penalized (unat (base_reward coins h)) m (unat s)) +
                 of_nat (penalized_fees v (unat fees) m (unat s)),
             emission_change = i64_wrap (int (penalized (unat (base_reward coins h)) m (unat s)) -
               (uint fees - int (penalized_fees v (unat fees) m (unat s))))\<rparr>)"
proof -
  let ?m = "max median_size (of_nat (full_reward_zone v)) :: u64"
  have z: "unat (of_nat (full_reward_zone v) :: u64) = full_reward_zone v"
    using full_reward_zone_bounds [of v] by (intro unat_of_nat_less) simp
  have um: "unat ?m = m" using m z by (auto simp: max_def word_le_nat_alt)
  have m32: "m < 2 ^ 32" and pos: "0 < m" using assms full_reward_zone_bounds [of v] by auto
  have m0: "0 < ?m" using pos um by (simp add: word_less_nat_alt)
  have lt: "2 * ?m < s \<longleftrightarrow> 2 * m < unat s"
    using m32 by (simp add: word_less_nat_alt unat_word_ariths um)
  have pen: "get_penalized_amount a ?m s = Inr (of_nat (penalized (unat a) m (unat s)))" if "\<not> 2 * m < unat s" for a
    using get_penalized_amount_eq [OF m0, of s a] m32 um that by simp
  have u: "uint (of_nat (penalized (unat a) k l) :: u64) = int (penalized (unat a) k l)" for a :: u64 and k l
    using penalized_le [of "unat a" k l] unsigned_less [of a]
    by (simp add: uint_nat unat_of_nat_less [OF le_less_trans])
  show ?thesis
    by (simp add: get_block_reward_def Let_def lt pen block_versions penalized_fees_def u)
qed

text \<open>C33: with a median below \<open>2 ^ 32\<close> and fees below \<open>2 ^ 62\<close>, a block above twice its median is refused; any other gets a reward that is exactly the newly
  created coins plus the fees of its transactions, so what leaves circulation through the penalty is never
  paid out. The created coins are at most the base reward, and all of it, with all of the fees, up to the
  median. No size divides by zero.\<close>

theorem block_reward_conserves:
  assumes "unat median_size < 2 ^ 32" and "unat fees < 2 ^ 62"
    and "m = max (unat median_size) (full_reward_zone v)"
  shows "if 2 * m < unat s then get_block_reward v median_size s coins fees h = Inr None
    else \<exists>r. get_block_reward v median_size s coins fees h = Inr (Some r) \<and>
      uint (reward r) = emission_change r + uint fees \<and>
      emission_change r \<le> uint (base_reward coins h) \<and>
      (unat s \<le> m \<longrightarrow> reward r = base_reward coins h + fees)"
proof (cases "2 * m < unat s")
  case True
  then show ?thesis using get_block_reward_eq [OF assms(1,3)] by simp
next
  case False
  let ?b = "unat (base_reward coins h)" and ?f = "unat fees"
  let ?pb = "penalized ?b m (unat s)" and ?pf = "penalized_fees v ?f m (unat s)"
  have b: "?b \<le> 11920928" by (rule base_reward_bounds)
  have pb: "?pb \<le> ?b" and pf: "?pf \<le> ?f" by (auto simp: penalized_fees_def penalized_le)
  have f: "?f < 4611686018427387904" using assms(2) by simp
  have sum: "unat (of_nat ?pb + of_nat ?pf :: u64) = ?pb + ?pf"
    using pb pf b assms(2) by (simp add: unat_word_ariths unat_of_nat)
  have r: "uint (of_nat ?pb + of_nat ?pf :: u64) = int ?pb + int ?pf"
    unfolding uint_nat sum by simp
  have e: "i64_wrap (int ?pb - (uint fees - int ?pf)) = int ?pb - (uint fees - int ?pf)"
    using pb pf b f unfolding uint_nat by (intro i64_wrap_id [simplified]) linarith+
  have le: "int ?pb - (uint fees - int ?pf) \<le> uint (base_reward coins h)"
    using pb pf unfolding uint_nat by linarith
  show ?thesis
    using False get_block_reward_eq [OF assms(1,3), of s coins fees h] le
    by (simp add: r e) (simp add: penalized_def penalized_fees_def)
qed

theorem block_reward_conserves_witness:
  "\<exists>r. get_block_reward 7 0 150000 0 1000 2000000 = Inr (Some r) \<and>
     uint (reward r) = emission_change r + 1000 \<and> emission_change r \<le> 1000000 \<and>
   get_block_reward 7 0 200001 0 1000 2000000 = Inr None"
  using block_reward_conserves [of 0 1000 100000 7 150000 0 2000000]
    block_reward_conserves [of 0 1000 100000 7 200001 0 2000000]
  by (simp add: full_reward_zone_def const_defs base_reward_def word_le_nat_alt)

text \<open>C39: the sum of the reward and the fees is 64-bit. For a block up to its median, with a median below \<open>2 ^ 32\<close>, whose
  base reward and fees together reach \<open>2 ^ 64\<close>, the reward is short of their sum by \<open>2 ^ 64\<close> and below the base reward,
  while the coins counted as created are the base reward: that much of the fees is paid to nobody.\<close>

theorem block_reward_wraps:
  assumes "unat median_size < 2 ^ 32" and "m = max (unat median_size) (full_reward_zone v)" and "unat s \<le> m"
    and "2 ^ 64 \<le> unat (base_reward coins h) + unat fees"
  shows "\<exists>r. get_block_reward v median_size s coins fees h = Inr (Some r) \<and>
    unat (reward r) + 2 ^ 64 = unat (base_reward coins h) + unat fees \<and> reward r < base_reward coins h \<and>
    emission_change r = uint (base_reward coins h)"
proof -
  have "penalized a m (unat s) = a" "penalized_fees v a m (unat s) = a" for a
    using assms(3) by (simp_all add: penalized_def penalized_fees_def)
  moreover have "i64_wrap (uint (base_reward coins h)) = uint (base_reward coins h)"
    using base_reward_bounds(1) [of coins h] unfolding uint_nat by (intro i64_wrap_id [simplified]) linarith+
  ultimately have r: "get_block_reward v median_size s coins fees h =
      Inr (Some \<lparr>reward = base_reward coins h + fees, emission_change = uint (base_reward coins h)\<rparr>)"
    using get_block_reward_eq [OF assms(1,2), of s coins fees h] assms(3) by simp
  let ?sum = "unat (base_reward coins h) + unat fees"
  have f: "unat fees < 2 ^ 64" "(11920928 :: nat) < 2 ^ 64" using unat_u64_less [of fees] by simp_all
  then have "?sum - 2 ^ 64 < 2 ^ 64" using base_reward_bounds(1) [of coins h] by linarith
  then have "?sum mod 2 ^ 64 = ?sum - 2 ^ 64" using le_mod_geq [OF assms(4)] by simp
  moreover have "unat (base_reward coins h + fees) = ?sum mod 2 ^ 64" by (simp add: unat_word_ariths)
  ultimately have sum: "unat (base_reward coins h + fees) + 2 ^ 64 = ?sum" using assms(4) by linarith
  then have "base_reward coins h + fees < base_reward coins h" using f unfolding word_less_nat_alt by linarith
  then show ?thesis using r sum by simp
qed

theorem block_reward_wraps_witness:
  "\<exists>r. get_block_reward 7 0 0 0 (- 1) 2000000 = Inr (Some r) \<and> unat (reward r) + 2 ^ 64 = 1000000 + (2 ^ 64 - 1) \<and>
     reward r < 1000000 \<and> emission_change r = 1000000"
  using block_reward_wraps [of 0 100000 7 0 0 2000000 "- 1"]
  by (simp add: full_reward_zone_def const_defs base_reward_def word_le_nat_alt unsigned_minus_1_eq_mask mask_eq_exp_minus_1)

section \<open>The fee of a fusion transaction\<close>

lemma fusion_input_amount_sum:
  "fusion_input_amount threshold acc is = Some v \<Longrightarrow> v = acc + of_nat (sum_list (map in_value is))"
proof (induction "is" arbitrary: acc)
  case (Cons i "is")
  then show ?case
    by (cases i) (force simp: in_value_def Let_def add.assoc split: if_splits)+
qed simp

text \<open>A transaction that passes as a fusion transaction and has a fee at all pays exactly nothing, or
  exactly 10,000 between heights 864,864 and 1,123,000: the rule decides the fee to the unit, and the fee
  check of fusion transactions never refuses one.\<close>

theorem fusion_fee_exact:
  assumes "is_fusion_transaction (prefix t) tx_size h" and "fee t = Some f"
  shows "unat f = (if 864864 \<le> unat h \<and> unat h < 1123000 then 10000 else 0) \<and> is_valid_fusion_fee f h"
proof -
  let ?p = "prefix t" and ?w = "864864 \<le> unat h \<and> unat h < 1123000"
  let ?ins = "sum_list (map in_value (inputs ?p))" and ?th = "default_fusion_dust_threshold h"
  from assms(1) obtain v where v: "fusion_input_amount ?th 0 (inputs ?p) = Some v"
    and d: "sort (decompose_amount (if ?w then v - 10000 else v) ?th) = map out_amount (outputs ?p)"
    by (auto simp: is_fusion_transaction_def const_defs Let_def word_le_nat_alt word_less_nat_alt
        split: if_splits option.splits)
  have i: "?ins < 2 ^ 64" and io: "?ins = sum_list (map (\<lambda>v. unat (out_amount v)) (outputs ?p)) + unat f"
    using assms(2) by (simp_all add: fee_iff)
  have "sum_list (map (\<lambda>v. unat (out_amount v)) (outputs ?p)) = sum_list (map unat (map out_amount (outputs ?p)))"
    by (simp add: comp_def)
  also have "\<dots> = sum_list (map unat (decompose_amount (if ?w then v - 10000 else v) ?th))"
    unfolding d [symmetric] using decompose_amount_decomposes
    by (simp add: decomposes_def sorted_sort_id strict_sorted_imp_sorted)
  also have "\<dots> = unat (if ?w then v - 10000 else v)"
    using decompose_amount_decomposes by (simp add: decomposes_def)
  finally have out: "sum_list (map (\<lambda>v. unat (out_amount v)) (outputs ?p)) = unat (if ?w then v - 10000 else v)" .
  have uv: "unat v = ?ins" using fusion_input_amount_sum [OF v] i by (simp add: unat_of_nat_less)
  have wrap: "unat (v - 10000) = (if 10000 \<le> unat v then unat v - 10000 else unat v + 18446744073709541616)"
    by (simp add: unat_sub_if_size word_size)
  have eq: "unat v = unat (if ?w then v - 10000 else v) + unat f" using io uv out by linarith
  have "unat f = (if ?w then 10000 else 0)"
  proof (cases ?w)
    case True
    have *: "unat v = unat (v - 10000) + unat f" using eq unfolding if_P [OF True] .
    have "10000 \<le> unat v"
    proof (rule ccontr)
      assume "\<not> 10000 \<le> unat v"
      from wrap [unfolded if_not_P [OF this]] * show False by linarith
    qed
    from wrap [unfolded if_P [OF this]] * this show ?thesis unfolding if_P [OF True] by linarith
  next
    case False
    show ?thesis using eq unfolding if_not_P [OF False] by linarith
  qed
  then show ?thesis
    by (auto simp: is_valid_fusion_fee_def const_defs word_le_nat_alt word_less_nat_alt)
qed

definition example_fusion_tx :: transaction where
  "example_fusion_tx = \<lparr>prefix = \<lparr>version = 1, unlock_time = 0,
     inputs = replicate 12 (Key 100 [1] (replicate 32 1)),
     outputs = [\<lparr>out_amount = 200, out_key = replicate 32 0\<rparr>, \<lparr>out_amount = 1000, out_key = replicate 32 0\<rparr>],
     extra = []\<rparr>, signatures = []\<rparr>"

lemma fusion_input_amount_replicate:
  "fusion_input_amount 0 acc (replicate n (Key a offsets ki)) = Some (acc + of_nat n * a)"
  by (induction n arbitrary: acc) (simp_all add: algebra_simps)

theorem fusion_fee_exact_witness:
  "is_fusion_transaction (prefix example_fusion_tx) 500 4213649 \<and> fee example_fusion_tx = Some 0 \<and>
   is_valid_fusion_fee 0 4213649"
proof -
  have "decompose_amount 1200 0 = [200, 1000]"
    by (simp add: decompose_amount_def decompose_loop.simps Let_def)
  then have "is_fusion_transaction (prefix example_fusion_tx) 500 4213649"
    by (simp add: is_fusion_transaction_def example_fusion_tx_def const_defs default_fusion_dust_threshold_def
        fusion_input_amount_replicate)
  moreover have "fee example_fusion_tx = Some 0"
    by (simp add: fee_iff example_fusion_tx_def in_value_def sum_list_replicate)
  ultimately show ?thesis using fusion_fee_exact by blast
qed

end
