(* ===== verification/Checkpoints.thy ===== *)
theory Checkpoints
  imports Pow
begin

text \<open>
  The checkpoint table and its zone (\<open>wrkz-chain/src/checkpoints.rs\<close>). The ordered map of the code is an
  association list in ascending order of index; \<open>checkpoints_ok\<close> says so, and every operation keeps it.
  The bytes of the compiled-in table are an argument.
\<close>

section \<open>The table\<close>

record checkpoints =
  points :: "(u32 \<times> hash) list"
  disabled_from :: u64

definition ENTRY_LEN :: nat where "ENTRY_LEN = 4 + 32"

text \<open>\<open>BTreeMap::insert\<close>: a second value for a key replaces the first.\<close>

fun points_insert :: "u32 \<Rightarrow> hash \<Rightarrow> (u32 \<times> hash) list \<Rightarrow> (u32 \<times> hash) list" where
  "points_insert i h [] = [(i, h)]"
| "points_insert i h ((j, g) # rest) =
     (if i < j then (i, h) # (j, g) # rest
      else if i = j then (i, h) # rest
      else (j, g) # points_insert i h rest)"

definition checkpoints_none :: checkpoints where
  "checkpoints_none = \<lparr>points = [], disabled_from = - 1\<rparr>"

definition checkpoints_mainnet :: "bytes \<Rightarrow> checkpoints" where
  "checkpoints_mainnet table =
     \<lparr>points = fold (\<lambda>entry. points_insert (from_le (take 4 entry)) (drop 4 entry)) (chunks ENTRY_LEN table) [],
      disabled_from = - 1\<rparr>"

definition checkpoints_add :: "u32 \<Rightarrow> hash \<Rightarrow> checkpoints \<Rightarrow> checkpoints \<times> bool" where
  "checkpoints_add index h cp =
     (case map_of (points cp) index of
        None \<Rightarrow> (cp\<lparr>points := points_insert index h (points cp)\<rparr>, True)
      | Some _ \<Rightarrow> (cp, False))"

definition disable_from :: "u64 option \<Rightarrow> checkpoints \<Rightarrow> checkpoints" where
  "disable_from height cp = cp\<lparr>disabled_from := (case height of Some h \<Rightarrow> h | None \<Rightarrow> - 1)\<rparr>"

definition clamp_disabled :: "checkpoints \<Rightarrow> u32" where
  "clamp_disabled cp = (if unat (disabled_from cp) < 2 ^ 32 then ucast (disabled_from cp) else - 1)"

definition checkpoints_iter :: "checkpoints \<Rightarrow> (u32 \<times> hash) list" where
  "checkpoints_iter cp = filter (\<lambda>(i, _). i < clamp_disabled cp) (points cp)"

definition top_index :: "checkpoints \<Rightarrow> u32 option" where
  "top_index cp = (case rev (checkpoints_iter cp) of [] \<Rightarrow> None | (i, _) # _ \<Rightarrow> Some i)"

definition is_in_checkpoint_zone :: "u64 \<Rightarrow> checkpoints \<Rightarrow> bool" where
  "is_in_checkpoint_zone index cp =
     (if index \<ge> disabled_from cp then False
      else case top_index cp of Some t \<Rightarrow> index \<le> ucast t | None \<Rightarrow> False)"

definition checkpoints_get :: "u32 \<Rightarrow> checkpoints \<Rightarrow> hash option" where
  "checkpoints_get index cp = (if ucast index \<ge> disabled_from cp then None else map_of (points cp) index)"

definition check_block :: "u32 \<Rightarrow> hash \<Rightarrow> checkpoints \<Rightarrow> bool" where
  "check_block index h cp = (case checkpoints_get index cp of Some expected \<Rightarrow> expected = h | None \<Rightarrow> True)"

section \<open>The table stays ordered\<close>

definition checkpoints_ok :: "checkpoints \<Rightarrow> bool" where
  "checkpoints_ok cp \<longleftrightarrow> sorted_wrt (<) (map fst (points cp))"

lemma set_points_insert: "fst ` set (points_insert i h ps) = insert i (fst ` set ps)"
  by (induction i h ps rule: points_insert.induct) auto

lemma points_insert_sorted: "sorted_wrt (<) (map fst ps) \<Longrightarrow> sorted_wrt (<) (map fst (points_insert i h ps))"
proof (induction i h ps rule: points_insert.induct)
  case (2 i h j g rest)
  have "\<forall>k\<in>fst ` set (points_insert i h rest). j < k" if "j < i"
    using 2(2) that by (auto simp: set_points_insert)
  with 2 show ?case by (auto intro: less_trans)
qed simp

lemma map_of_points_insert:
  "sorted_wrt (<) (map fst ps) \<Longrightarrow> map_of (points_insert i h ps) = (map_of ps)(i \<mapsto> h)"
proof (induction i h ps rule: points_insert.induct)
  case (2 i h j g rest)
  then show ?case by (auto simp: fun_eq_iff)
qed simp

lemma checkpoints_ok_ops:
  "checkpoints_ok checkpoints_none"
  "checkpoints_ok cp \<Longrightarrow> checkpoints_ok (fst (checkpoints_add i h cp))"
  "checkpoints_ok cp \<Longrightarrow> checkpoints_ok (disable_from height cp)"
  "checkpoints_ok (checkpoints_mainnet table)"
proof -
  have "sorted_wrt (<) (map fst (fold (\<lambda>entry. points_insert (from_le (take 4 entry)) (drop 4 entry)) es ps))"
    if "sorted_wrt (<) (map fst ps)" for es ps
    using that by (induction es arbitrary: ps) (simp_all add: points_insert_sorted)
  then show "checkpoints_ok (checkpoints_mainnet table)"
    by (simp add: checkpoints_ok_def checkpoints_mainnet_def)
qed (auto simp: checkpoints_ok_def checkpoints_none_def checkpoints_add_def disable_from_def points_insert_sorted
      split: option.splits)

lemma last_sorted_max:
  assumes "sorted_wrt (<) (map fst xs)" and "rev xs = (i, h) # rest"
  shows "(i, h) \<in> set xs" "\<And>j g. (j, g) \<in> set xs \<Longrightarrow> j \<le> (i :: 'a::linorder)"
proof -
  have xs: "xs = rev rest @ [(i, h)]" using assms(2) by (simp add: rev_eq_Cons_iff)
  show "(i, h) \<in> set xs" by (simp add: xs)
  show "j \<le> i" if "(j, g) \<in> set xs" for j g
    using assms(1) that unfolding xs by (fastforce simp: sorted_wrt_append)
qed

lemma top_index_iff:
  assumes "checkpoints_ok cp"
  shows "(case top_index cp of Some t \<Rightarrow> index \<le> ucast t | None \<Rightarrow> False) \<longleftrightarrow>
    (\<exists>j \<in> fst ` set (points cp). j < clamp_disabled cp \<and> (index :: u64) \<le> ucast j)"
proof -
  have s: "sorted_wrt (<) (map fst (checkpoints_iter cp))"
    using assms by (simp add: checkpoints_ok_def checkpoints_iter_def sorted_wrt_map sorted_wrt_filter)
  have in_iter: "(j, h) \<in> set (checkpoints_iter cp) \<longleftrightarrow> (j, h) \<in> set (points cp) \<and> j < clamp_disabled cp" for j h
    by (auto simp: checkpoints_iter_def)
  show ?thesis
  proof (cases "rev (checkpoints_iter cp)")
    case Nil
    then have "set (checkpoints_iter cp) = {}" by simp
    then show ?thesis using in_iter Nil by (auto simp: top_index_def)
  next
    case (Cons x rest)
    obtain i h where x: "x = (i, h)" by fastforce
    note m = last_sorted_max [OF s Cons [unfolded x]]
    have up: "(ucast j :: u64) \<le> ucast i" if "j \<le> i" for j :: u32 using that by (simp add: word_le_nat_alt)
    have i: "i \<in> fst ` set (points cp)" "i < clamp_disabled cp"
      using m(1) in_iter by (force, blast)
    have "j \<le> i" if "j \<in> fst ` set (points cp)" "j < clamp_disabled cp" for j
      using that m(2) in_iter by force
    then have le: "index \<le> ucast i" if "j \<in> fst ` set (points cp)" "j < clamp_disabled cp" "index \<le> ucast j" for j
      using that order_trans [OF that(3) up] by blast
    have "top_index cp = Some i" by (simp add: top_index_def Cons x)
    then show ?thesis using i le by (simp only: option.case) blast
  qed
qed


section \<open>The zone\<close>

lemma clamp_disabled_iff:
  assumes "j \<noteq> - 1"
  shows "j < clamp_disabled cp \<longleftrightarrow> (ucast j :: u64) < disabled_from cp"
proof (cases "unat (disabled_from cp) < 2 ^ 32")
  case True
  have "unat (ucast (disabled_from cp) :: u32) = unat (disabled_from cp)"
    using True by (simp add: unsigned_ucast_eq take_bit_nat_eq_self)
  with True show ?thesis by (simp add: clamp_disabled_def word_less_nat_alt)
next
  case False
  moreover have "j < - 1" using assms by (simp add: word_order.not_eq_extremum)
  moreover have "unat j < 2 ^ 32" using unsigned_less [of j] by simp
  ultimately show ?thesis by (simp add: clamp_disabled_def word_less_nat_alt)
qed

text \<open>C34: for a table without an entry at the largest 32-bit index, an index is in the checkpoint zone exactly
  when it is below the disabled height and at or below some checkpoint still in force; disabling the table
  from a height takes every index from there on out of the zone and out of the table, and below it can only
  shrink the zone: it adds verification and never removes any.\<close>

theorem checkpoint_zone_rule:
  assumes "checkpoints_ok cp" and "- 1 \<notin> fst ` set (points cp)"
  shows "(is_in_checkpoint_zone index cp \<longleftrightarrow>
      index < disabled_from cp \<and> (\<exists>j. checkpoints_get j cp \<noteq> None \<and> index \<le> ucast j)) \<and>
    checkpoints_get i (disable_from (Some h) cp) =
      (if ucast i < h then checkpoints_get i (disable_from (Some (- 1)) cp) else None) \<and>
    (is_in_checkpoint_zone index (disable_from (Some h) cp) \<longrightarrow>
      index < h \<and> is_in_checkpoint_zone index (disable_from None cp))"
proof -
  have zone: "is_in_checkpoint_zone x c \<longleftrightarrow>
      x < disabled_from c \<and> (\<exists>j. checkpoints_get j c \<noteq> None \<and> x \<le> ucast j)"
    if ok: "checkpoints_ok c" "- 1 \<notin> fst ` set (points c)" for x c
  proof -
    have clamp: "j < clamp_disabled c \<longleftrightarrow> (ucast j :: u64) < disabled_from c" if "j \<in> fst ` set (points c)" for j
      using that ok(2) by (intro clamp_disabled_iff) force
    have dom: "checkpoints_get j c \<noteq> None \<longleftrightarrow> (ucast j :: u64) < disabled_from c \<and> j \<in> fst ` set (points c)" for j
      using map_of_eq_None_iff [of "points c" j]
      by (cases "disabled_from c \<le> ucast j") (simp_all add: checkpoints_get_def not_le del: not_None_eq)
    have "(\<exists>j \<in> fst ` set (points c). j < clamp_disabled c \<and> x \<le> ucast j) \<longleftrightarrow>
        (\<exists>j. checkpoints_get j c \<noteq> None \<and> x \<le> ucast j)"
      unfolding dom using clamp by blast
    then show ?thesis
      unfolding is_in_checkpoint_zone_def top_index_iff [OF ok(1)]
      by (cases "disabled_from c \<le> x") (simp_all only: if_True if_False not_le [symmetric] simp_thms)
  qed
  have ok: "checkpoints_ok (disable_from x cp)" "- 1 \<notin> fst ` set (points (disable_from x cp))" for x
    using assms by (simp_all add: checkpoints_ok_def disable_from_def)
  have max: "(ucast (j :: u32) :: u64) < - 1" for j
    using less_trans [OF unat_u32_less [of j], of 18446744073709551615] by (simp add: word_less_nat_alt)
  have get: "checkpoints_get j (disable_from x cp) =
      (case x of Some h \<Rightarrow> if ucast j < h then map_of (points cp) j else None | None \<Rightarrow> map_of (points cp) j)" for j x
    using max [of j] by (auto simp: checkpoints_get_def disable_from_def not_le split: option.splits)
  have below: "x < - 1" if "x \<le> ucast (j :: u32)" for x :: u64 and j using that max [of j] by (rule le_less_trans)
  show ?thesis
    unfolding zone [OF assms] zone [OF ok] get using max below
    by (simp add: disable_from_def) (metis option.distinct(1))
qed

theorem checkpoint_zone_rule_witness:
  "is_in_checkpoint_zone 4 \<lparr>points = [(2, [1]), (5, [2])], disabled_from = 100\<rparr> \<and>
   \<not> is_in_checkpoint_zone 6 \<lparr>points = [(2, [1]), (5, [2])], disabled_from = 100\<rparr>"
proof -
  let ?cp = "\<lparr>points = [(2, [1]), (5, [2])], disabled_from = 100\<rparr> :: checkpoints"
  have ok: "checkpoints_ok ?cp" "- 1 \<notin> fst ` set (points ?cp)"
    by (simp_all add: checkpoints_ok_def)
  have get: "checkpoints_get j ?cp \<noteq> None \<longleftrightarrow> j = 2 \<or> j = 5" for j
    by (cases "j = 2 \<or> j = 5") (auto simp: checkpoints_get_def)
  show ?thesis
    using checkpoint_zone_rule [OF ok, of 4 5 100, unfolded get] checkpoint_zone_rule [OF ok, of 6 5 100, unfolded get]
    by (simp add: ex_disj_distrib conj_disj_distribR)
qed

end
