(* ===== verification/Chain_Types.thy ===== *)
theory Chain_Types
  imports Reward Checkpoints
begin

text \<open>
  The rules a block or a transaction can be refused with (\<open>wrkz-chain/src/lib.rs\<close>, \<open>validate.rs\<close>), one
  constructor per variant, and the records of the chain state (\<open>records.rs\<close>) with their fixed-layout
  little-endian encodings. A \<open>chain_error\<close> that is not a rule carries its message.
\<close>

section \<open>Rules\<close>

datatype tx_rule =
    SizeTooLarge nat u64
  | EmptyInputs
  | InputUnknownType
  | InputIdenticalKeyImages
  | InputEmptyOutputUsage
  | InputInvalidDomainKeyImages
  | InputIdenticalOutputIndexes
  | InputKeyImageAlreadySpent hash
  | InputsAmountOverflow
  | OutputZeroAmount
  | OutputAmountTooLarge u64
  | OutputInvalidKey
  | OutputsAmountOverflow
  | WrongAmount
  | WrongFee u64 u64
  | ExtraTooLarge nat
  | UnlockTimeTooSmall u64 u64
  | ExcessiveOutputs nat
  | InvalidMixin mixin_error
  | PowInvalid u64
  | InputInvalidGlobalIndex u64 u64
  | InputSpendLockedOut u64 u64 u64
  | InputInvalidSignaturesCount nat nat
  | InputInvalidSignatures nat
  | ZeroInputSum

datatype rule =
    AlreadyExists
  | RejectedAsOrphaned
  | DeserializationFailed string
  | CumulativeBlockSizeTooBig u64 u64
  | WrongVersion u8 u8
  | ParentBlockWrongVersion
  | ParentBlockSizeTooBig
  | TimestampTooFarInFuture u64 u64
  | TimestampTooFarInPast u64 u64
  | CoinbaseInputWrongCount nat
  | CoinbaseInputUnexpectedType
  | BaseInputWrongBlockIndex u64 u64
  | CoinbaseWrongUnlockTime u64 u64
  | CoinbaseHasSignatures
  | CoinbaseOutputZeroAmount
  | CoinbaseOutputInvalidKey
  | CoinbaseOutputsAmountOverflow
  | DifficultyOverhead
  | TransactionDuplicates
  | TransactionInconsistency
  | BlockRewardMismatch u64 u64
  | CheckpointBlockHashMismatch hash hash
  | ProofOfWorkTooWeak u64
  | TransactionRule hash nat tx_rule
  | ReorganisationUnavailable u32
  | ReorganisationBelowBodyFloor u32 u32

datatype chain_error =
    Rule rule
  | Storage string
  | Corrupt string

datatype tx_error =
    TxRule tx_rule
  | Chain chain_error

section \<open>Records\<close>

record block_info =
  bi_block_hash :: hash
  bi_timestamp :: u64
  bi_block_size :: u32
  bi_cumulative_difficulty :: u64
  bi_already_generated_coins :: u64
  bi_already_generated_transactions :: u64

record output_record =
  or_public_key :: hash
  or_unlock_time :: u64
  or_transaction_hash :: hash
  or_output_index :: u16
  or_block_index :: u32

definition BLOCK_INFO_LEN :: nat where "BLOCK_INFO_LEN = 32 + 8 + 4 + 8 + 8 + 8"
definition OUTPUT_RECORD_LEN :: nat where "OUTPUT_RECORD_LEN = 32 + 8 + 32 + 2 + 4"

text \<open>\<open>hash_at\<close>, \<open>u64_at\<close>, \<open>u32_at\<close> and \<open>u16_at\<close>: a slice, whose length the callers have checked.\<close>

definition slice :: "bytes \<Rightarrow> nat \<Rightarrow> nat \<Rightarrow> bytes" where
  "slice b off n = take n (drop off b)"

definition block_info_encode :: "block_info \<Rightarrow> bytes" where
  "block_info_encode i =
     bi_block_hash i @ to_le 8 (bi_timestamp i) @ to_le 4 (bi_block_size i) @ to_le 8 (bi_cumulative_difficulty i) @
     to_le 8 (bi_already_generated_coins i) @ to_le 8 (bi_already_generated_transactions i)"

definition block_info_decode :: "bytes \<Rightarrow> chain_error + block_info" where
  "block_info_decode b =
     (if length b \<noteq> BLOCK_INFO_LEN then Inl (Corrupt ''block info'')
      else Inr \<lparr>bi_block_hash = slice b 0 32, bi_timestamp = from_le (slice b 32 8),
        bi_block_size = from_le (slice b 40 4), bi_cumulative_difficulty = from_le (slice b 44 8),
        bi_already_generated_coins = from_le (slice b 52 8),
        bi_already_generated_transactions = from_le (slice b 60 8)\<rparr>)"

definition output_record_encode :: "output_record \<Rightarrow> bytes" where
  "output_record_encode r =
     or_public_key r @ to_le 8 (or_unlock_time r) @ or_transaction_hash r @ to_le 2 (or_output_index r) @
     to_le 4 (or_block_index r)"

definition output_record_decode :: "bytes \<Rightarrow> chain_error + output_record" where
  "output_record_decode b =
     (if length b \<noteq> OUTPUT_RECORD_LEN then Inl (Corrupt ''output'')
      else Inr \<lparr>or_public_key = slice b 0 32, or_unlock_time = from_le (slice b 32 8),
        or_transaction_hash = slice b 40 32, or_output_index = from_le (slice b 72 2),
        or_block_index = from_le (slice b 74 4)\<rparr>)"

definition encode_hashes :: "hash list \<Rightarrow> bytes" where
  "encode_hashes hashes = concat hashes"

definition decode_hashes :: "bytes \<Rightarrow> chain_error + hash list" where
  "decode_hashes b =
     (if length b mod 32 \<noteq> 0 then Inl (Corrupt ''hash list'') else Inr (chunks 32 b))"

definition encode_payment_id_refs :: "(hash \<times> hash) list \<Rightarrow> bytes" where
  "encode_payment_id_refs refs = concat (map (\<lambda>(i, h). i @ h) refs)"

definition decode_payment_id_refs :: "bytes \<Rightarrow> chain_error + (hash \<times> hash) list" where
  "decode_payment_id_refs b =
     (if length b mod 64 \<noteq> 0 then Inl (Corrupt ''payment id reference list'')
      else Inr (map (\<lambda>c. (take 32 c, drop 32 c)) (chunks 64 b)))"

definition encode_output_refs :: "(u64 \<times> u32) list \<Rightarrow> bytes" where
  "encode_output_refs refs = concat (map (\<lambda>(amount, index). to_le 8 amount @ to_le 4 index) refs)"

definition decode_output_refs :: "bytes \<Rightarrow> chain_error + (u64 \<times> u32) list" where
  "decode_output_refs b =
     (if length b mod 12 \<noteq> 0 then Inl (Corrupt ''output reference list'')
      else Inr (map (\<lambda>c. (from_le (slice c 0 8), from_le (slice c 8 4))) (chunks 12 b)))"

definition encode_raw_block :: "bytes \<Rightarrow> bytes list \<Rightarrow> bytes" where
  "encode_raw_block block transactions =
     to_le 4 (of_nat (length block) :: u32) @ block @ to_le 4 (of_nat (length transactions) :: u32) @
     concat (map (\<lambda>t. to_le 4 (of_nat (length t) :: u32) @ t) transactions)"

text \<open>\<open>take\<close> of \<open>decode_raw_block\<close>, on the bytes not yet taken.\<close>

definition raw_take :: "nat \<Rightarrow> bytes \<Rightarrow> chain_error + bytes \<times> bytes" where
  "raw_take n b =
     (if n \<le> length b then Inr (take n b, drop n b) else Inl (Corrupt ''raw block record: truncated''))"

primrec raw_take_transactions :: "nat \<Rightarrow> bytes \<Rightarrow> chain_error + bytes list \<times> bytes" where
  "raw_take_transactions 0 b = Inr ([], b)"
| "raw_take_transactions (Suc k) b =
     (case raw_take 4 b of Inl e \<Rightarrow> Inl e
      | Inr (n, b) \<Rightarrow>
          (case raw_take (unat (from_le n :: u32)) b of Inl e \<Rightarrow> Inl e
           | Inr (t, b) \<Rightarrow>
               (case raw_take_transactions k b of Inl e \<Rightarrow> Inl e | Inr (ts, b) \<Rightarrow> Inr (t # ts, b))))"

definition decode_raw_block :: "bytes \<Rightarrow> chain_error + bytes \<times> bytes list" where
  "decode_raw_block b =
     (case raw_take 4 b of Inl e \<Rightarrow> Inl e
      | Inr (n, b) \<Rightarrow>
          (case raw_take (unat (from_le n :: u32)) b of Inl e \<Rightarrow> Inl e
           | Inr (block, b) \<Rightarrow>
               (case raw_take 4 b of Inl e \<Rightarrow> Inl e
                | Inr (k, b) \<Rightarrow>
                    (case raw_take_transactions (unat (from_le k :: u32)) b of Inl e \<Rightarrow> Inl e
                     | Inr (transactions, b) \<Rightarrow>
                         if b \<noteq> [] then Inl (Corrupt ''raw block record: trailing bytes'')
                         else Inr (block, transactions)))))"

section \<open>Round trips of the records\<close>

lemma slice_append:
  "length a = off \<Longrightarrow> slice (a @ b) off n = take n b"
  "off + n \<le> length a \<Longrightarrow> slice (a @ b) off n = slice a off n"
  by (simp_all add: slice_def)

lemma block_info_roundtrip:
  assumes "length (bi_block_hash i) = 32"
  shows "block_info_decode (block_info_encode i) = Inr i"
  using assms by (simp add: block_info_decode_def block_info_encode_def BLOCK_INFO_LEN_def slice_def)

lemma output_record_roundtrip:
  assumes "length (or_public_key r) = 32" "length (or_transaction_hash r) = 32"
  shows "output_record_decode (output_record_encode r) = Inr r"
  using assms by (simp add: output_record_decode_def output_record_encode_def OUTPUT_RECORD_LEN_def slice_def)

lemma chunks_concat:
  assumes "list_all (\<lambda>x. length x = n) xs" "0 < n"
  shows "chunks n (concat xs) = xs"
  using assms
proof (induction xs)
  case Nil
  then show ?case by (subst chunks.simps) simp
next
  case (Cons x xs)
  then show ?case by (subst chunks.simps) simp
qed

lemma length_concat_same: "list_all (\<lambda>x. length x = n) xs \<Longrightarrow> length (concat xs) = n * length xs"
  by (induction xs) auto

lemma decode_hashes_encode: "list_all (\<lambda>h. length h = 32) hs \<Longrightarrow> decode_hashes (encode_hashes hs) = Inr hs"
  by (simp add: decode_hashes_def encode_hashes_def chunks_concat length_concat_same)

lemma decode_output_refs_encode: "decode_output_refs (encode_output_refs refs) = Inr refs"
proof -
  have l: "list_all (\<lambda>x. length x = 12) (map (\<lambda>(amount :: u64, index :: u32). to_le 8 amount @ to_le 4 index) refs)"
    by (auto simp: list_all_iff)
  show ?thesis
    unfolding decode_output_refs_def encode_output_refs_def
    using length_concat_same [OF l] chunks_concat [OF l]
    by (simp add: comp_def case_prod_beta slice_def)
qed

lemma decode_payment_id_refs_encode:
  assumes "list_all (\<lambda>(i, h). length i = 32 \<and> length h = 32) refs"
  shows "decode_payment_id_refs (encode_payment_id_refs refs) = Inr refs"
proof -
  have l: "list_all (\<lambda>x. length x = 64) (map (\<lambda>(i, h). i @ h) refs)"
    using assms by (auto simp: list_all_iff)
  have "map (\<lambda>c. (take 32 c, drop 32 c)) (map (\<lambda>(i, h). i @ h) refs) = refs"
    using assms by (induction refs) auto
  then show ?thesis
    unfolding decode_payment_id_refs_def encode_payment_id_refs_def
    using length_concat_same [OF l] chunks_concat [OF l] by simp
qed

lemma raw_take_append: "length a = n \<Longrightarrow> raw_take n (a @ b) = Inr (a, b)"
  by (simp add: raw_take_def)

lemma raw_take_transactions_encode:
  "list_all (\<lambda>t. length t < 2 ^ 32) ts \<Longrightarrow>
   raw_take_transactions (length ts) (concat (map (\<lambda>t. to_le 4 (of_nat (length t) :: u32) @ t) ts) @ rest) =
     Inr (ts, rest)"
  by (induction ts) (simp_all add: raw_take_append unat_of_nat_less)

lemma decode_raw_block_encode:
  assumes "length block < 2 ^ 32" "length ts < 2 ^ 32" "list_all (\<lambda>t. length t < 2 ^ 32) ts"
  shows "decode_raw_block (encode_raw_block block ts) = Inr (block, ts)"
  using assms raw_take_transactions_encode [of ts "[]"]
  by (simp add: decode_raw_block_def encode_raw_block_def raw_take_append unat_of_nat_less)

end
