(* ===== verification/Validate.thy ===== *)
theory Validate
  imports Chain_Types
begin

text \<open>
  Transaction validation (\<open>wrkz-chain/src/validate.rs\<close>): the ten steps of \<open>ValidateTransaction\<close>, the
  batch of pure checks a block defers and settles in one pass, the inline validator of the pool, and the
  re-check of a pooled transaction. What the checks read of the chain is a record of functions, the trait
  \<open>ChainAccess\<close>; the curve and the slow hash are a record of functions as well. A check that both changes
  the validator state and may fail returns the state beside its result.
\<close>

section \<open>What the validator reads\<close>

text \<open>\<open>wrkz_pow::curve\<close> and \<open>wrkz_pow::cn_upx\<close>.\<close>

record crypto =
  cn_fast_hash :: "bytes \<Rightarrow> hash"
  cn_upx :: "bytes \<Rightarrow> hash"
  check_key :: "hash \<Rightarrow> bool"
  key_image_in_prime_subgroup :: "hash \<Rightarrow> bool"
  check_ring_signature :: "hash \<Rightarrow> hash \<Rightarrow> hash list \<Rightarrow> bytes list \<Rightarrow> bool"

record chain_access =
  ca_key_image_spent :: "hash \<Rightarrow> u64 \<Rightarrow> chain_error + bool"
  ca_key_outputs :: "u64 \<Rightarrow> u64 list \<Rightarrow> chain_error + output_record option list"
  ca_top_block_timestamp :: u64
  ca_now :: u64

record tx_context =
  block_height :: u64
  block_median_size :: u64
  block_timestamp :: u64
  is_pool_transaction :: bool
  ctx_checkpoints :: checkpoints

record tx_validation =
  tv_fee :: u64
  tv_is_fusion :: bool

text \<open>\<open>ValidatorState\<close> is its one field, the key images claimed so far.\<close>

type_synonym validator_state = "hash set"

definition is_spend_time_unlocked :: "chain_access \<Rightarrow> u64 \<Rightarrow> u64 \<Rightarrow> bool" where
  "is_spend_time_unlocked chain unlock at =
     (if unlock < CRYPTONOTE_MAX_BLOCK_NUMBER then
        at + CRYPTONOTE_LOCKED_TX_ALLOWED_DELTA_BLOCKS \<ge> unlock
      else if at \<ge> TRANSACTION_INPUT_BLOCKTIME_VALIDATION_HEIGHT then
        ca_top_block_timestamp chain + CRYPTONOTE_LOCKED_TX_ALLOWED_DELTA_SECONDS \<ge> unlock
      else ca_now chain + CRYPTONOTE_LOCKED_TX_ALLOWED_DELTA_SECONDS \<ge> unlock)"

section \<open>The batch\<close>

record gathered_ring =
  gr_tx_index :: nat
  gr_input_index :: nat
  gr_prefix_hash :: hash
  gr_image :: hash
  gr_ring :: "hash list"
  gr_signatures :: "bytes list"

datatype pure_check =
    KeyImageDomain nat nat hash
  | OutputKey nat nat hash
  | TxPow nat bytes u64
  | Ring gathered_ring

record batch =
  checks :: "pure_check list"
  members :: nat

definition batch_new :: batch where
  "batch_new = \<lparr>checks = [], members = 0\<rparr>"

fun check_weight :: "pure_check \<Rightarrow> nat" where
  "check_weight (KeyImageDomain _ _ _) = 10"
| "check_weight (OutputKey _ _ _) = 1"
| "check_weight (TxPow _ _ _) = 57"
| "check_weight (Ring r) = 20 * max (length (gr_ring r)) 1"

fun verify :: "crypto \<Rightarrow> pure_check \<Rightarrow> bool" where
  "verify c (KeyImageDomain _ _ ki) = key_image_in_prime_subgroup c ki"
| "verify c (OutputKey _ _ key) = check_key c key"
| "verify c (TxPow _ pre difficulty) = check_hash (cn_upx c pre) difficulty"
| "verify c (Ring r) = check_ring_signature c (gr_prefix_hash r) (gr_image r) (gr_ring r) (gr_signatures r)"

fun check_position :: "pure_check \<Rightarrow> nat \<times> nat \<times> nat" where
  "check_position (KeyImageDomain tx_index i _) = (tx_index, 0, i)"
| "check_position (OutputKey tx_index i _) = (tx_index, 1, i)"
| "check_position (TxPow tx_index _ _) = (tx_index, 2, 0)"
| "check_position (Ring r) = (gr_tx_index r, 3, gr_input_index r)"

fun failure :: "pure_check \<Rightarrow> nat \<times> tx_rule" where
  "failure (KeyImageDomain tx_index _ _) = (tx_index, InputInvalidDomainKeyImages)"
| "failure (OutputKey tx_index _ _) = (tx_index, OutputInvalidKey)"
| "failure (TxPow tx_index _ difficulty) = (tx_index, PowInvalid difficulty)"
| "failure (Ring r) = (gr_tx_index r, InputInvalidSignatures (gr_input_index r))"

definition batch_push :: "pure_check \<Rightarrow> batch \<Rightarrow> batch" where
  "batch_push ck b =
     b\<lparr>members := members b + (case ck of Ring r \<Rightarrow> length (gr_ring r) | _ \<Rightarrow> 1), checks := checks b @ [ck]\<rparr>"

text \<open>
  \<open>position\<close> of the first check that fails, the sequential branch of \<open>first_invalid_check\<close>; the parallel
  branch is the subject of the theory \<open>Parallel\<close>, which shows that it gives the same index.
\<close>

fun position_of :: "('a \<Rightarrow> bool) \<Rightarrow> 'a list \<Rightarrow> nat option" where
  "position_of P [] = None"
| "position_of P (x # xs) = (if P x then Some 0 else map_option Suc (position_of P xs))"

definition first_invalid :: "crypto \<Rightarrow> batch \<Rightarrow> (nat \<times> tx_rule) option" where
  "first_invalid c b =
     (case position_of (\<lambda>ck. \<not> verify c ck) (checks b) of
        None \<Rightarrow> None | Some i \<Rightarrow> Some (failure (checks b ! i)))"

abbreviation (input) RING_BATCH_MEMBER_LIMIT :: nat where "RING_BATCH_MEMBER_LIMIT \<equiv> 2 ^ 20"

section \<open>The steps\<close>

text \<open>The loop of \<open>validate_inputs\<close>: \<open>i\<close> is the input's index, \<open>seen\<close> the set \<open>in_this_tx\<close>.\<close>

fun validate_inputs_loop ::
  "crypto \<Rightarrow> nat \<Rightarrow> nat \<Rightarrow> hash set \<Rightarrow> u64 \<Rightarrow> validator_state \<Rightarrow> batch option \<Rightarrow> input list \<Rightarrow>
   (tx_rule + u64) \<times> validator_state \<times> batch option" where
  "validate_inputs_loop c tx_index i seen acc st deferred [] = (Inr acc, st, deferred)"
| "validate_inputs_loop c tx_index i seen acc st deferred (Base _ # rest) = (Inl InputUnknownType, st, deferred)"
| "validate_inputs_loop c tx_index i seen acc st deferred (Key amount offsets ki # rest) =
     (if ki \<in> seen then (Inl InputIdenticalKeyImages, st, deferred)
      else if offsets = [] then (Inl InputEmptyOutputUsage, st, deferred)
      else if deferred = None \<and> \<not> key_image_in_prime_subgroup c ki then
        (Inl InputInvalidDomainKeyImages, st, deferred)
      else
        let deferred = map_option (batch_push (KeyImageDomain tx_index i ki)) deferred in
        if 0 \<in> set (tl offsets) then (Inl InputIdenticalOutputIndexes, st, deferred)
        else if ki \<in> st then (Inl (InputKeyImageAlreadySpent ki), st, deferred)
        else
          let st = insert ki st in
          (case checked_add acc amount of
             None \<Rightarrow> (Inl InputsAmountOverflow, st, deferred)
           | Some acc \<Rightarrow> validate_inputs_loop c tx_index (Suc i) (insert ki seen) acc st deferred rest))"

definition validate_inputs ::
  "crypto \<Rightarrow> transaction \<Rightarrow> nat \<Rightarrow> validator_state \<Rightarrow> batch option \<Rightarrow>
   (tx_rule + u64) \<times> validator_state \<times> batch option" where
  "validate_inputs c tx tx_index st deferred =
     (if inputs (prefix tx) = [] then (Inl EmptyInputs, st, deferred)
      else validate_inputs_loop c tx_index 0 {} 0 st deferred (inputs (prefix tx)))"

fun validate_outputs_loop ::
  "crypto \<Rightarrow> u64 \<Rightarrow> nat \<Rightarrow> nat \<Rightarrow> u64 \<Rightarrow> batch option \<Rightarrow> tx_output list \<Rightarrow> (tx_rule + u64) \<times> batch option" where
  "validate_outputs_loop c height tx_index i acc deferred [] = (Inr acc, deferred)"
| "validate_outputs_loop c height tx_index i acc deferred (v # rest) =
     (if out_amount v = 0 then (Inl OutputZeroAmount, deferred)
      else if height \<ge> MAX_OUTPUT_SIZE_HEIGHT \<and> out_amount v > MAX_OUTPUT_SIZE_NODE then
        (Inl (OutputAmountTooLarge (out_amount v)), deferred)
      else if deferred = None \<and> \<not> check_key c (out_key v) then (Inl OutputInvalidKey, deferred)
      else
        let deferred = map_option (batch_push (OutputKey tx_index i (out_key v))) deferred in
        (case checked_add acc (out_amount v) of
           None \<Rightarrow> (Inl OutputsAmountOverflow, deferred)
         | Some acc \<Rightarrow> validate_outputs_loop c height tx_index (Suc i) acc deferred rest))"

definition validate_outputs ::
  "crypto \<Rightarrow> transaction \<Rightarrow> u64 \<Rightarrow> nat \<Rightarrow> batch option \<Rightarrow> (tx_rule + u64) \<times> batch option" where
  "validate_outputs c tx height tx_index deferred =
     validate_outputs_loop c height tx_index 0 0 deferred (outputs (prefix tx))"

definition validate_fee :: "transaction \<Rightarrow> bytes \<Rightarrow> u64 \<Rightarrow> u64 \<Rightarrow> u64 \<Rightarrow> tx_rule + (u64 \<times> bool)" where
  "validate_fee tx blob sum_of_inputs sum_of_outputs height =
     (if sum_of_inputs = 0 then Inl ZeroInputSum
      else if sum_of_outputs > sum_of_inputs then Inl WrongAmount
      else
        let f = sum_of_inputs - sum_of_outputs;
            is_fusion = is_fusion_transaction (prefix tx) (length blob) height
        in if is_fusion then
             if \<not> is_valid_fusion_fee f height then Inl (WrongFee f FUSION_FEE_V1) else Inr (f, is_fusion)
           else
             let minimum = required_minimum_fee (length blob) height in
             if \<not> is_valid_normal_fee f (length blob) height then Inl (WrongFee f minimum) else Inr (f, is_fusion))"

definition validate_extra :: "transaction \<Rightarrow> u64 \<Rightarrow> bool \<Rightarrow> tx_rule + unit" where
  "validate_extra tx height is_pool =
     (let enforce_from = MAX_EXTRA_SIZE_V2_HEIGHT + CRYPTONOTE_MINED_MONEY_UNLOCK_WINDOW in
      if (is_pool \<or> height \<ge> enforce_from) \<and> length (extra (prefix tx)) \<ge> MAX_EXTRA_SIZE_V2 then
        Inl (ExtraTooLarge (length (extra (prefix tx))))
      else Inr ())"

definition validate_unlock_time :: "transaction \<Rightarrow> u64 \<Rightarrow> u64 \<Rightarrow> tx_rule + unit" where
  "validate_unlock_time tx height timestamp =
     (if height \<le> UNLOCK_TIME_HEIGHT then Inr ()
      else
        let unlock = unlock_time (prefix tx);
            minimum =
              (if unlock > CRYPTONOTE_MAX_BLOCK_NUMBER then
                 saturating_add timestamp (MINIMUM_UNLOCK_TIME_BLOCKS * DIFFICULTY_TARGET)
               else height + MINIMUM_UNLOCK_TIME_BLOCKS)
        in if unlock < minimum then Inl (UnlockTimeTooSmall unlock minimum) else Inr ())"

definition validate_input_output_ratio :: "transaction \<Rightarrow> tx_context \<Rightarrow> tx_rule + unit" where
  "validate_input_output_ratio tx ctx =
     (if (is_pool_transaction ctx \<or> block_height ctx \<ge> NORMAL_TX_MAX_OUTPUT_COUNT_V1_HEIGHT) \<and>
         length (outputs (prefix tx)) > NORMAL_TX_MAX_OUTPUT_COUNT_V1 then
        Inl (ExcessiveOutputs (length (outputs (prefix tx))))
      else Inr ())"

text \<open>
  The difficulty behind the \<open>expect\<close> of the two proof-of-work steps, which run only from
  \<open>TRANSACTION_POW_HEIGHT\<close> on, where the option holds one.
\<close>

definition tx_pow_difficulty :: "transaction \<Rightarrow> bool \<Rightarrow> u64 \<Rightarrow> u64" where
  "tx_pow_difficulty tx is_fusion height =
     the (transaction_pow_difficulty height is_fusion (of_nat (length (inputs (prefix tx))))
       (of_nat (length (outputs (prefix tx)))))"

definition pow_fee_escape :: "u64 \<Rightarrow> bool \<Rightarrow> u64 \<Rightarrow> bool" where
  "pow_fee_escape f is_fusion height \<longleftrightarrow>
     height \<ge> TRANSACTION_POW_PASS_WITH_FEE_HEIGHT \<and> \<not> is_fusion \<and> f \<ge> TRANSACTION_POW_PASS_WITH_FEE"

definition validate_transaction_pow ::
  "crypto \<Rightarrow> transaction \<Rightarrow> bytes \<Rightarrow> u64 \<Rightarrow> bool \<Rightarrow> u64 \<Rightarrow> tx_rule + unit" where
  "validate_transaction_pow c tx prefix_bytes f is_fusion height =
     (let difficulty = tx_pow_difficulty tx is_fusion height in
      if check_hash (cn_upx c prefix_bytes) difficulty then Inr ()
      else if pow_fee_escape f is_fusion height then Inr ()
      else Inl (PowInvalid difficulty))"

definition gather_transaction_pow ::
  "transaction \<Rightarrow> bytes \<Rightarrow> u64 \<Rightarrow> bool \<Rightarrow> u64 \<Rightarrow> nat \<Rightarrow> batch \<Rightarrow> batch" where
  "gather_transaction_pow tx prefix_bytes f is_fusion height tx_index b =
     (if pow_fee_escape f is_fusion height then b
      else batch_push (TxPow tx_index prefix_bytes (tx_pow_difficulty tx is_fusion height)) b)"


text \<open>The ring members of one input, each resolved and unlocked, or the first rule they break.\<close>

fun resolve_ring ::
  "chain_access \<Rightarrow> tx_context \<Rightarrow> u64 \<Rightarrow> (u64 \<times> output_record option) list \<Rightarrow> tx_rule + hash list" where
  "resolve_ring chain ctx amount [] = Inr []"
| "resolve_ring chain ctx amount ((global_index, rec) # rest) =
     (case rec of
        None \<Rightarrow> Inl (InputInvalidGlobalIndex amount global_index)
      | Some r \<Rightarrow>
          if \<not> is_spend_time_unlocked chain (or_unlock_time r) (block_height ctx) then
            Inl (InputSpendLockedOut amount global_index (or_unlock_time r))
          else (case resolve_ring chain ctx amount rest of Inl e \<Rightarrow> Inl e | Inr ks \<Rightarrow> Inr (or_public_key r # ks)))"

fun gather_ring ::
  "chain_access \<Rightarrow> tx_context \<Rightarrow> transaction \<Rightarrow> nat \<Rightarrow> input \<Rightarrow> tx_error + (hash \<times> hash list \<times> bytes list)" where
  "gather_ring chain ctx tx input_index (Base _) = Inl (TxRule InputUnknownType)"
| "gather_ring chain ctx tx input_index (Key amount offsets ki) =
     (case ca_key_image_spent chain ki (block_height ctx) of
        Inl e \<Rightarrow> Inl (Chain e)
      | Inr True \<Rightarrow> Inl (TxRule (InputKeyImageAlreadySpent ki))
      | Inr False \<Rightarrow>
          (case relative_offsets_to_absolute offsets of
             None \<Rightarrow> Inl (TxRule (InputInvalidGlobalIndex amount (- 1)))
           | Some absolute \<Rightarrow>
               (case ca_key_outputs chain amount absolute of
                  Inl e \<Rightarrow> Inl (Chain e)
                | Inr found \<Rightarrow>
                    (case resolve_ring chain ctx amount (zip absolute found) of
                       Inl e \<Rightarrow> Inl (TxRule e)
                     | Inr ring \<Rightarrow>
                         let sigs = (if input_index < length (signatures tx) then signatures tx ! input_index else []) in
                         if (if is_pool_transaction ctx \<or>
                                block_height ctx \<ge> TRANSACTION_SIGNATURE_COUNT_VALIDATION_HEIGHT
                             then length ring \<noteq> length sigs else length sigs < length ring) then
                           Inl (TxRule (InputInvalidSignaturesCount (length ring) (length sigs)))
                         else Inr (ki, ring, take (length ring) sigs)))))"

fun gather_inputs_loop ::
  "chain_access \<Rightarrow> tx_context \<Rightarrow> transaction \<Rightarrow> hash \<Rightarrow> nat \<Rightarrow> nat \<Rightarrow> batch \<Rightarrow> input list \<Rightarrow>
   (tx_error + unit) \<times> batch" where
  "gather_inputs_loop chain ctx tx phash tx_index i b [] = (Inr (), b)"
| "gather_inputs_loop chain ctx tx phash tx_index i b (input # rest) =
     (case gather_ring chain ctx tx i input of
        Inl e \<Rightarrow> (Inl e, b)
      | Inr (ki, ring, sigs) \<Rightarrow>
          gather_inputs_loop chain ctx tx phash tx_index (Suc i)
            (batch_push (Ring \<lparr>gr_tx_index = tx_index, gr_input_index = i, gr_prefix_hash = phash,
               gr_image = ki, gr_ring = ring, gr_signatures = sigs\<rparr>) b) rest)"

definition gather_inputs_expensive ::
  "crypto \<Rightarrow> chain_access \<Rightarrow> tx_context \<Rightarrow> transaction \<Rightarrow> bytes \<Rightarrow> nat \<Rightarrow> batch \<Rightarrow> (tx_error + unit) \<times> batch" where
  "gather_inputs_expensive c chain ctx tx prefix_bytes tx_index b =
     gather_inputs_loop chain ctx tx (cn_fast_hash c prefix_bytes) tx_index 0 b (inputs (prefix tx))"

section \<open>The validators\<close>

text \<open>Steps 4 to 8, which neither read nor change the validator state, in the order both validators run them.\<close>

definition validate_fee_to_mixin ::
  "transaction \<Rightarrow> bytes \<Rightarrow> tx_context \<Rightarrow> u64 \<Rightarrow> u64 \<Rightarrow> tx_rule + (u64 \<times> bool)" where
  "validate_fee_to_mixin tx blob ctx sum_of_inputs sum_of_outputs =
     (case validate_fee tx blob sum_of_inputs sum_of_outputs (block_height ctx) of
        Inl e \<Rightarrow> Inl e
      | Inr (f, is_fusion) \<Rightarrow>
          (case validate_extra tx (block_height ctx) (is_pool_transaction ctx) of
             Inl e \<Rightarrow> Inl e
           | Inr _ \<Rightarrow>
               (case validate_unlock_time tx (block_height ctx) (block_timestamp ctx) of
                  Inl e \<Rightarrow> Inl e
                | Inr _ \<Rightarrow>
                    (case validate_input_output_ratio tx ctx of
                       Inl e \<Rightarrow> Inl e
                     | Inr _ \<Rightarrow>
                         (case validate_ring_sizes (ring_sizes (prefix tx)) (block_height ctx) of
                            Inl e \<Rightarrow> Inl (InvalidMixin e)
                          | Inr _ \<Rightarrow> Inr (f, is_fusion))))))"

definition max_tx_size :: "u64 \<Rightarrow> u64" where
  "max_tx_size median_size = median_size * 2 - of_nat CRYPTONOTE_COINBASE_BLOB_RESERVED_SIZE"

definition in_zone :: "tx_context \<Rightarrow> bool" where
  "in_zone ctx = is_in_checkpoint_zone (block_height ctx + 1) (ctx_checkpoints ctx)"

definition pow_applies :: "tx_context \<Rightarrow> bool" where
  "pow_applies ctx \<longleftrightarrow>
     block_height ctx \<ge> TRANSACTION_POW_HEIGHT \<and> (is_pool_transaction ctx \<or> \<not> in_zone ctx)"

text \<open>Steps 9 and 10, on the serialized prefix: into the batch, and on the spot.\<close>

definition gather_work ::
  "crypto \<Rightarrow> chain_access \<Rightarrow> tx_context \<Rightarrow> transaction \<Rightarrow> u64 \<Rightarrow> bool \<Rightarrow> nat \<Rightarrow> batch \<Rightarrow> (tx_error + unit) \<times> batch" where
  "gather_work c chain ctx tx f is_fusion tx_index b =
     (let prefix_bytes = prefix_to_bytes (prefix tx) in
      case (if pow_applies ctx \<and> is_pool_transaction ctx then
              (validate_transaction_pow c tx prefix_bytes f is_fusion (block_height ctx), b)
            else if pow_applies ctx then
              (Inr (), gather_transaction_pow tx prefix_bytes f is_fusion (block_height ctx) tx_index b)
            else (Inr (), b)) of
        (Inl e, b) \<Rightarrow> (Inl (TxRule e), b)
      | (Inr _, b) \<Rightarrow>
          if \<not> in_zone ctx then gather_inputs_expensive c chain ctx tx prefix_bytes tx_index b else (Inr (), b))"

text \<open>Steps 3 to 10, which read the validator state no more.\<close>

definition deferred_from_outputs ::
  "crypto \<Rightarrow> chain_access \<Rightarrow> tx_context \<Rightarrow> transaction \<Rightarrow> bytes \<Rightarrow> nat \<Rightarrow> u64 \<Rightarrow> batch \<Rightarrow>
   (tx_error + tx_validation) \<times> batch" where
  "deferred_from_outputs c chain ctx tx blob tx_index sum_of_inputs b =
     (case validate_outputs c tx (block_height ctx) tx_index (Some b) of
        (Inl e, d) \<Rightarrow> (Inl (TxRule e), the d)
      | (Inr sum_of_outputs, d) \<Rightarrow>
          (case validate_fee_to_mixin tx blob ctx sum_of_inputs sum_of_outputs of
             Inl e \<Rightarrow> (Inl (TxRule e), the d)
           | Inr (f, is_fusion) \<Rightarrow>
               (case gather_work c chain ctx tx f is_fusion tx_index (the d) of
                  (Inl e, b) \<Rightarrow> (Inl e, b)
                | (Inr _, b) \<Rightarrow> (Inr \<lparr>tv_fee = f, tv_is_fusion = is_fusion\<rparr>, b))))"

definition validate_transaction_deferred ::
  "crypto \<Rightarrow> chain_access \<Rightarrow> tx_context \<Rightarrow> transaction \<Rightarrow> bytes \<Rightarrow> nat \<Rightarrow> validator_state \<Rightarrow> batch \<Rightarrow>
   (tx_error + tx_validation) \<times> validator_state \<times> batch" where
  "validate_transaction_deferred c chain ctx tx blob tx_index st b =
     (let max_size = max_tx_size (block_median_size ctx) in
      if of_nat (length blob) > max_size then (Inl (TxRule (SizeTooLarge (length blob) max_size)), st, b)
      else
        (case validate_inputs c tx tx_index st (Some b) of
           (Inl e, st, d) \<Rightarrow> (Inl (TxRule e), st, the d)
         | (Inr sum_of_inputs, st, d) \<Rightarrow>
             (case deferred_from_outputs c chain ctx tx blob tx_index sum_of_inputs (the d) of
                (r, b) \<Rightarrow> (r, st, b))))"

definition validate_transaction ::
  "crypto \<Rightarrow> chain_access \<Rightarrow> tx_context \<Rightarrow> transaction \<Rightarrow> bytes \<Rightarrow> validator_state \<Rightarrow>
   (tx_error + tx_validation) \<times> validator_state" where
  "validate_transaction c chain ctx tx blob st =
     (case validate_transaction_deferred c chain ctx tx blob 0 st batch_new of
        (outcome, st, b) \<Rightarrow>
          (case first_invalid c b of
             Some (_, rl) \<Rightarrow> (Inl (TxRule rl), st)
           | None \<Rightarrow> (outcome, st)))"

fun check_inputs_loop ::
  "crypto \<Rightarrow> chain_access \<Rightarrow> tx_context \<Rightarrow> transaction \<Rightarrow> hash \<Rightarrow> nat \<Rightarrow> input list \<Rightarrow> tx_error + unit" where
  "check_inputs_loop c chain ctx tx phash i [] = Inr ()"
| "check_inputs_loop c chain ctx tx phash i (input # rest) =
     (case gather_ring chain ctx tx i input of
        Inl e \<Rightarrow> Inl e
      | Inr (ki, ring, sigs) \<Rightarrow>
          if \<not> check_ring_signature c phash ki ring sigs then Inl (TxRule (InputInvalidSignatures i))
          else check_inputs_loop c chain ctx tx phash (Suc i) rest)"

definition check_work ::
  "crypto \<Rightarrow> chain_access \<Rightarrow> tx_context \<Rightarrow> transaction \<Rightarrow> u64 \<Rightarrow> bool \<Rightarrow> tx_error + unit" where
  "check_work c chain ctx tx f is_fusion =
     (let prefix_bytes = prefix_to_bytes (prefix tx) in
      case (if pow_applies ctx then validate_transaction_pow c tx prefix_bytes f is_fusion (block_height ctx)
            else Inr ()) of
        Inl e \<Rightarrow> Inl (TxRule e)
      | Inr _ \<Rightarrow>
          if \<not> in_zone ctx then
            check_inputs_loop c chain ctx tx (cn_fast_hash c prefix_bytes) 0 (inputs (prefix tx))
          else Inr ())"

definition inline_from_outputs ::
  "crypto \<Rightarrow> chain_access \<Rightarrow> tx_context \<Rightarrow> transaction \<Rightarrow> bytes \<Rightarrow> u64 \<Rightarrow> tx_error + tx_validation" where
  "inline_from_outputs c chain ctx tx blob sum_of_inputs =
     (case validate_outputs c tx (block_height ctx) 0 None of
        (Inl e, _) \<Rightarrow> Inl (TxRule e)
      | (Inr sum_of_outputs, _) \<Rightarrow>
          (case validate_fee_to_mixin tx blob ctx sum_of_inputs sum_of_outputs of
             Inl e \<Rightarrow> Inl (TxRule e)
           | Inr (f, is_fusion) \<Rightarrow>
               (case check_work c chain ctx tx f is_fusion of
                  Inl e \<Rightarrow> Inl e
                | Inr _ \<Rightarrow> Inr \<lparr>tv_fee = f, tv_is_fusion = is_fusion\<rparr>)))"

definition validate_transaction_early_exit ::
  "crypto \<Rightarrow> chain_access \<Rightarrow> tx_context \<Rightarrow> transaction \<Rightarrow> bytes \<Rightarrow> validator_state \<Rightarrow>
   (tx_error + tx_validation) \<times> validator_state" where
  "validate_transaction_early_exit c chain ctx tx blob st =
     (let max_size = max_tx_size (block_median_size ctx) in
      if of_nat (length blob) > max_size then (Inl (TxRule (SizeTooLarge (length blob) max_size)), st)
      else
        (case validate_inputs c tx 0 st None of
           (Inl e, st, _) \<Rightarrow> (Inl (TxRule e), st)
         | (Inr sum_of_inputs, st, _) \<Rightarrow> (inline_from_outputs c chain ctx tx blob sum_of_inputs, st)))"

record revalidate_context =
  rc_block_height :: u64
  rc_block_median_size :: u64
  rc_block_timestamp :: u64

definition revalidate_after_height_change ::
  "crypto \<Rightarrow> revalidate_context \<Rightarrow> transaction \<Rightarrow> bytes \<Rightarrow> tx_rule + tx_validation" where
  "revalidate_after_height_change c ctx tx blob =
     (let h = rc_block_height ctx;
          max_size = max_tx_size (rc_block_median_size ctx) in
      if of_nat (length blob) > max_size then Inl (SizeTooLarge (length blob) max_size)
      else
        (case validate_extra tx h True of
           Inl e \<Rightarrow> Inl e
         | Inr _ \<Rightarrow>
             (case validate_ring_sizes (ring_sizes (prefix tx)) h of
                Inl e \<Rightarrow> Inl (InvalidMixin e)
              | Inr _ \<Rightarrow>
                  (case validate_inputs c tx 0 {} None of
                     (Inl e, _) \<Rightarrow> Inl e
                   | (Inr sum_of_inputs, _) \<Rightarrow>
                       (case validate_outputs c tx h 0 None of
                          (Inl e, _) \<Rightarrow> Inl e
                        | (Inr sum_of_outputs, _) \<Rightarrow>
                            (case validate_unlock_time tx h (rc_block_timestamp ctx) of
                               Inl e \<Rightarrow> Inl e
                             | Inr _ \<Rightarrow>
                                 (case validate_fee tx blob sum_of_inputs sum_of_outputs h of
                                    Inl e \<Rightarrow> Inl e
                                  | Inr (f, is_fusion) \<Rightarrow>
                                      (case (if TRANSACTION_POW_HEIGHT \<le> h \<and> h \<le> TRANSACTION_POW_HEIGHT + 100 then
                                               validate_transaction_pow c tx (prefix_to_bytes (prefix tx)) f is_fusion h
                                             else Inr ()) of
                                         Inl e \<Rightarrow> Inl e
                                       | Inr _ \<Rightarrow> Inr \<lparr>tv_fee = f, tv_is_fusion = is_fusion\<rparr>))))))))"

section \<open>The transactions of a block\<close>

text \<open>
  Step 8 of \<open>add_to_main\<close>: every transaction runs into one batch, which is settled when it reaches the
  member limit and at the end; an error other than a batched one is held back until the batch has been settled.
\<close>

definition batched_failure :: "hash list \<Rightarrow> nat \<times> tx_rule \<Rightarrow> chain_error" where
  "batched_failure hashes f = Rule (TransactionRule (hashes ! fst f) (fst f) (snd f))"

definition held_back :: "hash list \<Rightarrow> nat \<Rightarrow> tx_error \<Rightarrow> chain_error" where
  "held_back hashes i e =
     (case e of TxRule rl \<Rightarrow> Rule (TransactionRule (hashes ! i) i rl) | Chain e \<Rightarrow> e)"

definition settle :: "crypto \<Rightarrow> hash list \<Rightarrow> batch \<Rightarrow> chain_error + 'a \<Rightarrow> chain_error + 'a" where
  "settle c hashes b outcome =
     (case first_invalid c b of Some f \<Rightarrow> Inl (batched_failure hashes f) | None \<Rightarrow> outcome)"

fun validate_block_transactions ::
  "crypto \<Rightarrow> chain_access \<Rightarrow> tx_context \<Rightarrow> hash list \<Rightarrow> nat \<Rightarrow> u64 \<Rightarrow> validator_state \<Rightarrow> batch \<Rightarrow>
   (transaction \<times> bytes) list \<Rightarrow> chain_error + (u64 \<times> validator_state)" where
  "validate_block_transactions c chain ctx hashes i cumulative_fee st b [] =
     settle c hashes b (Inr (cumulative_fee, st))"
| "validate_block_transactions c chain ctx hashes i cumulative_fee st b ((tx, blob) # rest) =
     (case validate_transaction_deferred c chain ctx tx blob i st b of
        (Inl e, _, b) \<Rightarrow> settle c hashes b (Inl (held_back hashes i e))
      | (Inr v, st, b) \<Rightarrow>
          let cumulative_fee = saturating_add cumulative_fee (tv_fee v) in
          if members b \<ge> RING_BATCH_MEMBER_LIMIT then
            (case first_invalid c b of
               Some f \<Rightarrow> Inl (batched_failure hashes f)
             | None \<Rightarrow>
                 validate_block_transactions c chain ctx hashes (Suc i) cumulative_fee st batch_new rest)
          else validate_block_transactions c chain ctx hashes (Suc i) cumulative_fee st b rest)"

text \<open>
  The reference: the sequential validator, which runs every check of a transaction where it stands and stops the
  block at the first failure.
\<close>

fun validate_block_sequential ::
  "crypto \<Rightarrow> chain_access \<Rightarrow> tx_context \<Rightarrow> hash list \<Rightarrow> nat \<Rightarrow> u64 \<Rightarrow> validator_state \<Rightarrow>
   (transaction \<times> bytes) list \<Rightarrow> chain_error + (u64 \<times> validator_state)" where
  "validate_block_sequential c chain ctx hashes i cumulative_fee st [] = Inr (cumulative_fee, st)"
| "validate_block_sequential c chain ctx hashes i cumulative_fee st ((tx, blob) # rest) =
     (case validate_transaction_early_exit c chain ctx tx blob st of
        (Inl e, _) \<Rightarrow> Inl (held_back hashes i e)
      | (Inr v, st) \<Rightarrow>
          validate_block_sequential c chain ctx hashes (Suc i) (saturating_add cumulative_fee (tv_fee v)) st rest)"

section \<open>Deferring a check does not change what is reported\<close>

lemma position_of_find: "position_of P xs = None \<longleftrightarrow> find P xs = None"
  by (induction xs) auto

lemma position_of_nth: "position_of P xs = Some i \<Longrightarrow> i < length xs \<and> find P xs = Some (xs ! i)"
  by (induction xs arbitrary: i) (auto split: if_splits)

text \<open>The first check of a list that fails.\<close>

definition fails :: "crypto \<Rightarrow> pure_check list \<Rightarrow> pure_check option" where
  "fails c = find (\<lambda>ck. \<not> verify c ck)"

lemma fails_simps [simp]:
  "fails c [] = None"
  "fails c (ck # cs) = (if verify c ck then fails c cs else Some ck)"
  by (simp_all add: fails_def)

lemma fails_append [simp]:
  "fails c (cs @ ds) = (case fails c cs of None \<Rightarrow> fails c ds | Some ck \<Rightarrow> Some ck)"
  by (induction cs) auto

lemma fails_set: "fails c cs = Some ck \<Longrightarrow> ck \<in> set cs"
  by (induction cs) (auto split: if_splits)

lemma fails_None_iff: "fails c cs = None \<longleftrightarrow> (\<forall>ck \<in> set cs. verify c ck)"
  by (induction cs) auto

lemma first_invalid_fails: "first_invalid c b = map_option failure (fails c (checks b))"
proof (cases "position_of (\<lambda>ck. \<not> verify c ck) (checks b)")
  case None
  then have "fails c (checks b) = None" by (simp add: fails_def position_of_find)
  then show ?thesis using None by (simp add: first_invalid_def)
next
  case (Some i)
  then show ?thesis using position_of_nth [OF Some] by (simp add: first_invalid_def fails_def)
qed

lemma checks_push [simp]: "checks (batch_push ck b) = checks b @ [ck]"
  by (simp add: batch_push_def)

lemma checks_new [simp]: "checks batch_new = []"
  by (simp add: batch_new_def)

text \<open>
  A deferred run adds the checks \<open>cs\<close>, all of transaction \<open>k\<close>, to its batch. If one of them fails the inline run
  ends in the failure of the first that does; if none fails the two runs end alike.
\<close>

definition agrees ::
  "crypto \<Rightarrow> nat \<Rightarrow> (tx_rule \<Rightarrow> 'e) \<Rightarrow> pure_check list \<Rightarrow> ('e + 'a) \<times> 's \<Rightarrow> ('e + 'a) \<times> 's \<Rightarrow> bool" where
  "agrees c k conv cs inline deferred \<longleftrightarrow>
     (\<forall>ck \<in> set cs. fst (failure ck) = k) \<and>
     (case fails c cs of
        None \<Rightarrow> inline = deferred
      | Some ck \<Rightarrow> fst inline = Inl (conv (snd (failure ck))))"

lemma agrees_Nil [simp]: "agrees c k conv [] r r' \<longleftrightarrow> r = r'"
  by (simp add: agrees_def)

lemma agrees_Cons:
  "agrees c k conv (ck # cs) r r' \<longleftrightarrow>
     fst (failure ck) = k \<and> (\<forall>ck \<in> set cs. fst (failure ck) = k) \<and>
     (if verify c ck then agrees c k conv cs r r' else fst r = Inl (conv (snd (failure ck))))"
  by (auto simp: agrees_def)

lemma agrees_all: "agrees c k conv cs r r' \<Longrightarrow> ck \<in> set cs \<Longrightarrow> fst (failure ck) = k"
  by (simp add: agrees_def)

lemma validate_inputs_loop_agrees:
  "\<exists>b' cs. snd (snd (validate_inputs_loop c k i seen acc st (Some b) ins)) = Some b' \<and>
     checks b' = checks b @ cs \<and>
     agrees c k (\<lambda>rl. rl) cs
       (fst (validate_inputs_loop c k' i seen acc st None ins),
        fst (snd (validate_inputs_loop c k' i seen acc st None ins)))
       (fst (validate_inputs_loop c k i seen acc st (Some b) ins),
        fst (snd (validate_inputs_loop c k i seen acc st (Some b) ins)))"
proof (induction ins arbitrary: i seen acc st b)
  case Nil
  then show ?case by simp
next
  case (Cons inp ins)
  show ?case
  proof (cases inp)
    case (Base x)
    then show ?thesis by simp
  next
    case (Key amount offsets ki)
    let ?b = "batch_push (KeyImageDomain k i ki) b"
    consider "ki \<in> seen \<or> offsets = []"
      | "ki \<notin> seen" "offsets \<noteq> []" "0 \<in> set (tl offsets) \<or> ki \<in> st \<or> checked_add acc amount = None"
      | acc' where "ki \<notin> seen" "offsets \<noteq> []" "0 \<notin> set (tl offsets)" "ki \<notin> st" "checked_add acc amount = Some acc'"
      by fastforce
    then show ?thesis
    proof cases
      case 1
      then show ?thesis using Key by auto
    next
      case 2
      then show ?thesis
        using Key by (intro exI [of _ ?b] exI [of _ "[KeyImageDomain k i ki]"])
          (auto simp: agrees_Cons Let_def split: option.splits)
    next
      case 3
      have d: "validate_inputs_loop c k i seen acc st (Some b) (inp # ins) =
          validate_inputs_loop c k (Suc i) (insert ki seen) acc' (insert ki st) (Some ?b) ins"
        using Key 3 by simp
      have n: "validate_inputs_loop c k' i seen acc st None (inp # ins) =
          (if key_image_in_prime_subgroup c ki
           then validate_inputs_loop c k' (Suc i) (insert ki seen) acc' (insert ki st) None ins
           else (Inl InputInvalidDomainKeyImages, st, None))"
        using Key 3 by simp
      obtain b' cs where "snd (snd (validate_inputs_loop c k (Suc i) (insert ki seen) acc' (insert ki st) (Some ?b) ins)) = Some b'"
        and cs: "checks b' = checks ?b @ cs"
        "agrees c k (\<lambda>rl. rl) cs
          (fst (validate_inputs_loop c k' (Suc i) (insert ki seen) acc' (insert ki st) None ins),
           fst (snd (validate_inputs_loop c k' (Suc i) (insert ki seen) acc' (insert ki st) None ins)))
          (fst (validate_inputs_loop c k (Suc i) (insert ki seen) acc' (insert ki st) (Some ?b) ins),
           fst (snd (validate_inputs_loop c k (Suc i) (insert ki seen) acc' (insert ki st) (Some ?b) ins)))"
        using Cons.IH by blast
      then show ?thesis
        unfolding d n by (intro exI [of _ b'] exI [of _ "KeyImageDomain k i ki # cs"])
          (auto simp: agrees_Cons agrees_all)
    qed
  qed
qed

lemma validate_outputs_loop_agrees:
  "\<exists>b' cs. snd (validate_outputs_loop c h k i acc (Some b) outs) = Some b' \<and>
     checks b' = checks b @ cs \<and>
     agrees c k (\<lambda>rl. rl) cs (fst (validate_outputs_loop c h k' i acc None outs), ())
       (fst (validate_outputs_loop c h k i acc (Some b) outs), ())"
proof (induction outs arbitrary: i acc b)
  case Nil
  then show ?case by simp
next
  case (Cons v outs)
  let ?b = "batch_push (OutputKey k i (out_key v)) b"
  let ?big = "h \<ge> MAX_OUTPUT_SIZE_HEIGHT \<and> out_amount v > MAX_OUTPUT_SIZE_NODE"
  consider "out_amount v = 0 \<or> ?big"
    | "out_amount v \<noteq> 0" "\<not> ?big" "checked_add acc (out_amount v) = None"
    | acc' where "out_amount v \<noteq> 0" "\<not> ?big" "checked_add acc (out_amount v) = Some acc'"
    by fastforce
  then show ?case
  proof cases
    case 1
    then show ?thesis by auto
  next
    case 2
    then show ?thesis
      by (intro exI [of _ ?b] exI [of _ "[OutputKey k i (out_key v)]"]) (auto simp: agrees_Cons Let_def)
  next
    case 3
    have d: "validate_outputs_loop c h k i acc (Some b) (v # outs) =
        validate_outputs_loop c h k (Suc i) acc' (Some ?b) outs"
      using 3 by auto
    have n: "validate_outputs_loop c h k' i acc None (v # outs) =
        (if check_key c (out_key v) then validate_outputs_loop c h k' (Suc i) acc' None outs
         else (Inl OutputInvalidKey, None))"
      using 3 by auto
    obtain b' cs where "snd (validate_outputs_loop c h k (Suc i) acc' (Some ?b) outs) = Some b'"
      "checks b' = checks ?b @ cs"
      "agrees c k (\<lambda>rl. rl) cs (fst (validate_outputs_loop c h k' (Suc i) acc' None outs), ())
        (fst (validate_outputs_loop c h k (Suc i) acc' (Some ?b) outs), ())"
      using Cons.IH by blast
    then show ?thesis
      unfolding d n by (intro exI [of _ b'] exI [of _ "OutputKey k i (out_key v) # cs"])
        (auto simp: agrees_Cons agrees_all)
  qed
qed

lemma gather_inputs_loop_agrees:
  "\<exists>cs. checks (snd (gather_inputs_loop chain ctx tx p k i b ins)) = checks b @ cs \<and>
     agrees c k TxRule cs (check_inputs_loop c chain ctx tx p i ins, ())
       (fst (gather_inputs_loop chain ctx tx p k i b ins), ())"
proof (induction ins arbitrary: i b)
  case Nil
  then show ?case by simp
next
  case (Cons inp ins)
  show ?case
  proof (cases "gather_ring chain ctx tx i inp")
    case (Inl e)
    then show ?thesis by simp
  next
    case (Inr r)
    obtain ki ring sigs where r: "r = (ki, ring, sigs)" by (cases r)
    let ?ck = "Ring \<lparr>gr_tx_index = k, gr_input_index = i, gr_prefix_hash = p, gr_image = ki, gr_ring = ring,
      gr_signatures = sigs\<rparr>"
    obtain cs where "checks (snd (gather_inputs_loop chain ctx tx p k (Suc i) (batch_push ?ck b) ins)) =
        checks (batch_push ?ck b) @ cs"
      "agrees c k TxRule cs (check_inputs_loop c chain ctx tx p (Suc i) ins, ())
        (fst (gather_inputs_loop chain ctx tx p k (Suc i) (batch_push ?ck b) ins), ())"
      using Cons.IH by blast
    then show ?thesis
      using Inr r by (intro exI [of _ "?ck # cs"]) (auto simp: agrees_Cons agrees_all)
  qed
qed

lemma agrees_seq:
  assumes "agrees c k (\<lambda>rl. rl) cs (r0, s0) (r, s)"
    and "\<And>e. r0 = Inl e \<Longrightarrow> fst f0 = Inl (TxRule e)"
    and "r0 = r \<Longrightarrow> s0 = s \<Longrightarrow> agrees c k TxRule ds f0 f1"
    and "\<And>ck. ck \<in> set ds \<Longrightarrow> fst (failure ck) = k"
  shows "agrees c k TxRule (cs @ ds) f0 f1"
  using assms by (cases "fails c cs") (auto simp: agrees_def)

lemma gather_transaction_pow_agrees:
  "\<exists>cs. checks (gather_transaction_pow tx p f fus h k b) = checks b @ cs \<and>
     agrees c k (\<lambda>rl. rl) cs (validate_transaction_pow c tx p f fus h, ()) (Inr (), ())"
proof (cases "pow_fee_escape f fus h")
  case True
  then show ?thesis by (simp add: gather_transaction_pow_def validate_transaction_pow_def Let_def)
next
  case False
  then show ?thesis
    by (intro exI [of _ "[TxPow k p (tx_pow_difficulty tx fus h)]"])
      (simp add: gather_transaction_pow_def validate_transaction_pow_def Let_def agrees_Cons)
qed

lemma gather_work_agrees:
  "\<exists>cs. checks (snd (gather_work c chain ctx tx f fus k b)) = checks b @ cs \<and>
     agrees c k TxRule cs (check_work c chain ctx tx f fus, ()) (fst (gather_work c chain ctx tx f fus k b), ())"
proof -
  let ?p = "prefix_to_bytes (prefix tx)"
  let ?pow = "validate_transaction_pow c tx ?p f fus (block_height ctx)"
  have inputs: "\<exists>cs. checks (snd (if \<not> in_zone ctx then gather_inputs_expensive c chain ctx tx ?p k b1 else (Inr (), b1))) =
        checks b1 @ cs \<and>
      agrees c k TxRule cs
        (if \<not> in_zone ctx then check_inputs_loop c chain ctx tx (cn_fast_hash c ?p) 0 (inputs (prefix tx)) else Inr (), ())
        (fst (if \<not> in_zone ctx then gather_inputs_expensive c chain ctx tx ?p k b1 else (Inr (), b1)), ())" for b1
    using gather_inputs_loop_agrees by (simp add: gather_inputs_expensive_def)
  consider (no) "\<not> pow_applies ctx" | (pool) "pow_applies ctx" "is_pool_transaction ctx"
    | (block) "pow_applies ctx" "\<not> is_pool_transaction ctx" by blast
  then show ?thesis
  proof cases
    case no
    then show ?thesis using inputs [of b] by (simp add: gather_work_def check_work_def)
  next
    case pool
    then show ?thesis using inputs [of b]
      by (cases ?pow) (simp_all add: gather_work_def check_work_def)
  next
    case block
    obtain cs where cs: "checks (gather_transaction_pow tx ?p f fus (block_height ctx) k b) = checks b @ cs"
      "agrees c k (\<lambda>rl. rl) cs (?pow, ()) (Inr (), ())"
      using gather_transaction_pow_agrees by blast
    have g: "gather_work c chain ctx tx f fus k b =
        (let b1 = gather_transaction_pow tx ?p f fus (block_height ctx) k b
         in if \<not> in_zone ctx then gather_inputs_expensive c chain ctx tx ?p k b1 else (Inr (), b1))"
      using block by (simp add: gather_work_def Let_def)
    obtain ds where ds: "checks (snd (gather_work c chain ctx tx f fus k b)) = checks b @ cs @ ds"
      "agrees c k TxRule ds
        (if \<not> in_zone ctx then check_inputs_loop c chain ctx tx (cn_fast_hash c ?p) 0 (inputs (prefix tx)) else Inr (), ())
        (fst (gather_work c chain ctx tx f fus k b), ())"
      using inputs [of "gather_transaction_pow tx ?p f fus (block_height ctx) k b"] cs(1)
      unfolding g Let_def by fastforce
    have "agrees c k TxRule (cs @ ds) (check_work c chain ctx tx f fus, ()) (fst (gather_work c chain ctx tx f fus k b), ())"
      using block ds(2) by (intro agrees_seq [OF cs(2)]) (auto simp: check_work_def agrees_all)
    then show ?thesis using ds(1) by blast
  qed
qed

lemma validate_inputs_agrees:
  "\<exists>b' cs. snd (snd (validate_inputs c tx k st (Some b))) = Some b' \<and> checks b' = checks b @ cs \<and>
     agrees c k (\<lambda>rl. rl) cs
       (fst (validate_inputs c tx k' st None), fst (snd (validate_inputs c tx k' st None)))
       (fst (validate_inputs c tx k st (Some b)), fst (snd (validate_inputs c tx k st (Some b))))"
  using validate_inputs_loop_agrees by (simp add: validate_inputs_def)

lemma validate_outputs_agrees:
  "\<exists>b' cs. snd (validate_outputs c tx h k (Some b)) = Some b' \<and> checks b' = checks b @ cs \<and>
     agrees c k (\<lambda>rl. rl) cs (fst (validate_outputs c tx h k' None), ())
       (fst (validate_outputs c tx h k (Some b)), ())"
  using validate_outputs_loop_agrees by (simp add: validate_outputs_def)

lemma from_outputs_agrees:
  "\<exists>cs. checks (snd (deferred_from_outputs c chain ctx tx blob k i_sum b)) = checks b @ cs \<and>
     agrees c k TxRule cs (inline_from_outputs c chain ctx tx blob i_sum, ())
       (fst (deferred_from_outputs c chain ctx tx blob k i_sum b), ())"
proof -
  let ?E = "(inline_from_outputs c chain ctx tx blob i_sum, ())"
  let ?D = "deferred_from_outputs c chain ctx tx blob k i_sum b"
  note defs = deferred_from_outputs_def inline_from_outputs_def
  obtain q0 d0 where o0: "validate_outputs c tx (block_height ctx) 0 None = (q0, d0)"
    by (cases "validate_outputs c tx (block_height ctx) 0 None")
  obtain q1 b1 cs1 where o1: "validate_outputs c tx (block_height ctx) k (Some b) = (q1, Some b1)"
    and cs1: "checks b1 = checks b @ cs1" "agrees c k (\<lambda>rl. rl) cs1 (q0, ()) (q1, ())"
    using validate_outputs_agrees [of c tx "block_height ctx" k b 0] o0
    by (cases "validate_outputs c tx (block_height ctx) k (Some b)") auto
  obtain cs2 where cs2: "checks (snd ?D) = checks b1 @ cs2" "\<forall>ck \<in> set cs2. fst (failure ck) = k"
    "q0 = q1 \<Longrightarrow> agrees c k TxRule cs2 ?E (fst ?D, ())"
  proof (cases "\<exists>o_sum f fus. q1 = Inr o_sum \<and> validate_fee_to_mixin tx blob ctx i_sum o_sum = Inr (f, fus)")
    case True
    then obtain o_sum f fus where q: "q1 = Inr o_sum" "validate_fee_to_mixin tx blob ctx i_sum o_sum = Inr (f, fus)"
      by blast
    obtain cs where "checks (snd (gather_work c chain ctx tx f fus k b1)) = checks b1 @ cs"
      "agrees c k TxRule cs (check_work c chain ctx tx f fus, ()) (fst (gather_work c chain ctx tx f fus k b1), ())"
      using gather_work_agrees by blast
    then show ?thesis
      using that [of cs] o0 o1 q
      by (cases "gather_work c chain ctx tx f fus k b1") (auto simp: defs agrees_def split: sum.splits option.splits)
  next
    case False
    then show ?thesis
      using that [of "[]"] o0 o1 by (cases q1) (auto simp: defs split: sum.splits)
  qed
  have "agrees c k TxRule (cs1 @ cs2) ?E (fst ?D, ())"
    using cs2 o0 by (intro agrees_seq [OF cs1(2)]) (auto simp: defs)
  then show ?thesis using cs1 cs2 by auto
qed

lemma validate_transaction_deferred_agrees:
  "\<exists>cs. checks (snd (snd (validate_transaction_deferred c chain ctx tx blob k st b))) = checks b @ cs \<and>
     agrees c k TxRule cs (validate_transaction_early_exit c chain ctx tx blob st)
       (fst (validate_transaction_deferred c chain ctx tx blob k st b),
        fst (snd (validate_transaction_deferred c chain ctx tx blob k st b)))"
proof (cases "of_nat (length blob) > max_tx_size (block_median_size ctx)")
  case True
  then show ?thesis by (simp add: validate_transaction_deferred_def validate_transaction_early_exit_def Let_def)
next
  case size: False
  let ?E = "validate_transaction_early_exit c chain ctx tx blob st"
  let ?D = "validate_transaction_deferred c chain ctx tx blob k st b"
  note defs = validate_transaction_deferred_def validate_transaction_early_exit_def Let_def
  obtain r0 s0 d0 where i0: "validate_inputs c tx 0 st None = (r0, s0, d0)"
    by (cases "validate_inputs c tx 0 st None")
  obtain r1 s1 b1 cs1 where i1: "validate_inputs c tx k st (Some b) = (r1, s1, Some b1)"
    and cs1: "checks b1 = checks b @ cs1" "agrees c k (\<lambda>rl. rl) cs1 (r0, s0) (r1, s1)"
    using validate_inputs_agrees [of c tx k st b 0] i0 by (cases "validate_inputs c tx k st (Some b)") auto
  obtain cs2 where cs2: "checks (snd (snd ?D)) = checks b1 @ cs2" "\<forall>ck \<in> set cs2. fst (failure ck) = k"
    "r0 = r1 \<Longrightarrow> s0 = s1 \<Longrightarrow> agrees c k TxRule cs2 ?E (fst ?D, fst (snd ?D))"
  proof (cases r1)
    case (Inl e)
    then show ?thesis using that [of "[]"] size i0 i1 by (auto simp: defs)
  next
    case (Inr i_sum)
    obtain cs where "checks (snd (deferred_from_outputs c chain ctx tx blob k i_sum b1)) = checks b1 @ cs"
      "agrees c k TxRule cs (inline_from_outputs c chain ctx tx blob i_sum, ())
        (fst (deferred_from_outputs c chain ctx tx blob k i_sum b1), ())"
      using from_outputs_agrees by blast
    then show ?thesis
      using that [of cs] size i0 i1 Inr
      by (cases "deferred_from_outputs c chain ctx tx blob k i_sum b1") (auto simp: defs agrees_def split: option.splits)
  qed
  have "agrees c k TxRule (cs1 @ cs2) ?E (fst ?D, fst (snd ?D))"
    using cs2 size i0 by (intro agrees_seq [OF cs1(2)]) (auto simp: defs)
  then show ?thesis using cs1 cs2 by auto
qed

lemma settle_fails:
  "settle c hashes b r =
     (case fails c (checks b) of Some ck \<Rightarrow> Inl (batched_failure hashes (failure ck)) | None \<Rightarrow> r)"
  by (simp add: settle_def first_invalid_fails split: option.splits)

lemma validate_block_transactions_batch:
  "validate_block_transactions c chain ctx hashes i cf st b txs =
     (case fails c (checks b) of
        Some ck \<Rightarrow> Inl (batched_failure hashes (failure ck))
      | None \<Rightarrow> validate_block_sequential c chain ctx hashes i cf st txs)"
proof (induction txs arbitrary: i cf st b)
  case Nil
  then show ?case by (simp add: settle_fails split: option.splits)
next
  case (Cons t txs)
  obtain tx blob where t: "t = (tx, blob)" by (cases t)
  obtain r s b' where d: "validate_transaction_deferred c chain ctx tx blob i st b = (r, s, b')"
    by (cases "validate_transaction_deferred c chain ctx tx blob i st b")
  obtain cs where cs: "checks b' = checks b @ cs"
    "agrees c i TxRule cs (validate_transaction_early_exit c chain ctx tx blob st) (r, s)"
    using validate_transaction_deferred_agrees [of c chain ctx tx blob i st b] d by auto
  note simps = t d cs(1) settle_fails Cons.IH first_invalid_fails
  show ?case
  proof (cases "fails c (checks b)")
    case (Some ck)
    then show ?thesis by (cases r) (simp_all add: simps Let_def)
  next
    case none: None
    show ?thesis
    proof (cases "fails c cs")
      case None
      then show ?thesis using none cs(2) by (cases r) (simp_all add: simps agrees_def Let_def)
    next
      case (Some ck)
      then have "fst (failure ck) = i" using cs(2) fails_set agrees_all by metis
      then have "batched_failure hashes (failure ck) = held_back hashes i (TxRule (snd (failure ck)))"
        by (simp add: batched_failure_def held_back_def)
      then show ?thesis
        using Some none cs(2)
        by (cases r; cases "validate_transaction_early_exit c chain ctx tx blob st")
          (simp_all add: simps agrees_def Let_def)
    qed
  qed
qed

text \<open>C8: Gathering the pure checks of a whole block into one batch, settling it early when it fills up and holding the
  other errors back reports exactly what validating the transactions one after the other, every check in its place,
  reports: the same error, naming the same transaction and rule, or the same fee and the same set of spent key images.\<close>

theorem block_batch_same_verdict:
  "validate_block_transactions c chain ctx hashes 0 0 {} batch_new txs =
     validate_block_sequential c chain ctx hashes 0 0 {} txs"
  by (simp add: validate_block_transactions_batch)

text \<open>C32: The batched validator of one transaction and the validator that stops at the first failure accept the same
  transactions, with the same fee and the same key images claimed, and name the same error when they reject.\<close>

theorem early_exit_same_verdict:
  "case validate_transaction c chain ctx tx blob st of
     (Inl e, _) \<Rightarrow> fst (validate_transaction_early_exit c chain ctx tx blob st) = Inl e
   | (Inr v, st') \<Rightarrow> validate_transaction_early_exit c chain ctx tx blob st = (Inr v, st')"
proof -
  obtain r s b' where d: "validate_transaction_deferred c chain ctx tx blob 0 st batch_new = (r, s, b')"
    by (cases "validate_transaction_deferred c chain ctx tx blob 0 st batch_new")
  obtain cs where "checks b' = cs" "agrees c 0 TxRule cs (validate_transaction_early_exit c chain ctx tx blob st) (r, s)"
    using validate_transaction_deferred_agrees [of c chain ctx tx blob 0 st batch_new] d by auto
  then show ?thesis
    by (cases "fails c cs"; cases r)
      (simp_all add: validate_transaction_def d first_invalid_fails agrees_def split_beta)
qed

section \<open>What an accepted block guarantees\<close>

fun key_images_of :: "input list \<Rightarrow> hash list" where
  "key_images_of [] = []"
| "key_images_of (Base _ # rest) = key_images_of rest"
| "key_images_of (Key _ _ ki # rest) = ki # key_images_of rest"

definition value_in :: "transaction \<Rightarrow> nat" where
  "value_in tx = sum_list (map in_value (inputs (prefix tx)))"

definition value_out :: "transaction \<Rightarrow> nat" where
  "value_out tx = sum_list (map (\<lambda>v. unat (out_amount v)) (outputs (prefix tx)))"

text \<open>The signatures the transaction carries for its input \<open>i\<close>; there may be fewer lists than inputs.\<close>

definition input_signatures :: "transaction \<Rightarrow> nat \<Rightarrow> bytes list" where
  "input_signatures tx i = (if i < length (signatures tx) then signatures tx ! i else [])"

text \<open>
  Every input is a key input whose image the chain has not seen and whose ring resolves, offset by offset, to unlocked
  outputs of the chain. The signatures the transaction carries for that input are one for each ring member, where older
  blocks may carry more, and the first so many of them are a ring signature over the hash of the prefix.
\<close>

definition inputs_authorised :: "crypto \<Rightarrow> chain_access \<Rightarrow> tx_context \<Rightarrow> transaction \<Rightarrow> bool" where
  "inputs_authorised c chain ctx tx \<longleftrightarrow>
     (\<forall>i < length (inputs (prefix tx)). \<exists>amount offsets ki absolute ring.
        inputs (prefix tx) ! i = Key amount offsets ki \<and>
        ca_key_image_spent chain ki (block_height ctx) = Inr False \<and>
        relative_offsets_to_absolute offsets = Some absolute \<and>
        ca_key_outputs chain amount absolute = Inr (map Some ring) \<and> length ring = length absolute \<and>
        (\<forall>r \<in> set ring. is_spend_time_unlocked chain (or_unlock_time r) (block_height ctx)) \<and>
        length ring \<le> length (input_signatures tx i) \<and>
        (is_pool_transaction ctx \<or> TRANSACTION_SIGNATURE_COUNT_VALIDATION_HEIGHT \<le> block_height ctx \<longrightarrow>
           length (input_signatures tx i) = length ring) \<and>
        check_ring_signature c (cn_fast_hash c (prefix_to_bytes (prefix tx))) ki (map or_public_key ring)
          (take (length ring) (input_signatures tx i)))"

lemma validate_inputs_loop_accepts:
  "validate_inputs_loop c k i seen acc st None ins = (Inr s, st', d) \<Longrightarrow>
     unat s = unat acc + sum_list (map in_value ins) \<and> distinct (key_images_of ins) \<and>
     set (key_images_of ins) \<inter> st = {} \<and> st' = st \<union> set (key_images_of ins) \<and>
     (\<forall>ki \<in> set (key_images_of ins). key_image_in_prime_subgroup c ki)"
proof (induction ins arbitrary: i seen acc st)
  case (Cons inp ins)
  show ?case
  proof (cases inp)
    case (Key amount offsets ki)
    then obtain acc' where a: "checked_add acc amount = Some acc'"
      and l: "validate_inputs_loop c k (Suc i) (insert ki seen) acc' (insert ki st) None ins = (Inr s, st', d)"
      and "ki \<notin> st" "key_image_in_prime_subgroup c ki"
      using Cons.prems by (auto simp: Let_def split: if_splits option.splits)
    moreover have "unat acc' = unat acc + unat amount" using a by (simp add: arith_simps)
    ultimately show ?thesis using Cons.IH [OF l] Key by (auto simp: in_value_def)
  qed (use Cons.prems in auto)
qed auto

lemma validate_outputs_loop_accepts:
  "validate_outputs_loop c h k i acc None outs = (Inr s, d) \<Longrightarrow>
     unat s = unat acc + sum_list (map (\<lambda>v. unat (out_amount v)) outs) \<and>
     (\<forall>v \<in> set outs. out_amount v \<noteq> 0 \<and> check_key c (out_key v))"
proof (induction outs arbitrary: i acc)
  case (Cons v outs)
  then obtain acc' where a: "checked_add acc (out_amount v) = Some acc'"
    and l: "validate_outputs_loop c h k (Suc i) acc' None outs = (Inr s, d)"
    and "out_amount v \<noteq> 0" "check_key c (out_key v)"
    by (auto simp: Let_def split: if_splits option.splits)
  moreover have "unat acc' = unat acc + unat (out_amount v)" using a by (simp add: arith_simps)
  ultimately show ?case using Cons.IH [OF l] by auto
qed auto

lemma validate_fee_to_mixin_accepts:
  "validate_fee_to_mixin tx blob ctx si so = Inr (f, fus) \<Longrightarrow> unat si = unat so + unat f \<and> 0 < unat si"
  by (auto simp: validate_fee_to_mixin_def validate_fee_def Let_def unat_sub word_le_nat_alt unat_gt_0 not_less
      split: sum.splits if_splits prod.splits)

lemma resolve_ring_accepts:
  "resolve_ring chain ctx amount (zip absolute found) = Inr keys \<Longrightarrow> length found = length absolute \<Longrightarrow>
     \<exists>ring. found = map Some ring \<and> keys = map or_public_key ring \<and>
       (\<forall>r \<in> set ring. is_spend_time_unlocked chain (or_unlock_time r) (block_height ctx))"
proof (induction found arbitrary: absolute keys)
  case (Cons f found)
  then obtain a as r ks where "absolute = a # as" "f = Some r" "keys = or_public_key r # ks"
    "is_spend_time_unlocked chain (or_unlock_time r) (block_height ctx)"
    "resolve_ring chain ctx amount (zip as found) = Inr ks"
    by (cases absolute) (auto split: option.splits if_splits sum.splits)
  then show ?case using Cons.IH [of as ks] Cons.prems by (force intro: exI [of _ "r # _"])
qed simp

text \<open>What \<open>ChainAccess::key_outputs\<close> promises: one answer for each index it was asked for.\<close>

definition answers_every_index :: "chain_access \<Rightarrow> bool" where
  "answers_every_index chain \<longleftrightarrow>
     (\<forall>amount indexes found. ca_key_outputs chain amount indexes = Inr found \<longrightarrow> length found = length indexes)"

lemma gather_ring_accepts:
  assumes "gather_ring chain ctx tx i inp = Inr (ki, keys, sigs)" "answers_every_index chain"
  shows "\<exists>amount offsets absolute ring. inp = Key amount offsets ki \<and>
    ca_key_image_spent chain ki (block_height ctx) = Inr False \<and>
    relative_offsets_to_absolute offsets = Some absolute \<and> ca_key_outputs chain amount absolute = Inr (map Some ring) \<and>
    length ring = length absolute \<and>
    (\<forall>r \<in> set ring. is_spend_time_unlocked chain (or_unlock_time r) (block_height ctx)) \<and>
    length ring \<le> length (input_signatures tx i) \<and>
    (is_pool_transaction ctx \<or> TRANSACTION_SIGNATURE_COUNT_VALIDATION_HEIGHT \<le> block_height ctx \<longrightarrow>
       length (input_signatures tx i) = length ring) \<and>
    keys = map or_public_key ring \<and> sigs = take (length ring) (input_signatures tx i)"
proof (cases inp)
  case (Key amount offsets ki')
  obtain absolute found where f: "ki' = ki" "ca_key_image_spent chain ki (block_height ctx) = Inr False"
    "relative_offsets_to_absolute offsets = Some absolute" "ca_key_outputs chain amount absolute = Inr found"
    "resolve_ring chain ctx amount (zip absolute found) = Inr keys" "length keys \<le> length (input_signatures tx i)"
    "is_pool_transaction ctx \<or> TRANSACTION_SIGNATURE_COUNT_VALIDATION_HEIGHT \<le> block_height ctx \<longrightarrow>
       length (input_signatures tx i) = length keys"
    "sigs = take (length keys) (input_signatures tx i)"
    using assms(1) Key
    by (auto simp: Let_def input_signatures_def split: sum.splits option.splits if_splits bool.splits)
  have found: "length found = length absolute" using assms(2) f(4) by (auto simp: answers_every_index_def)
  obtain ring where "found = map Some ring" "keys = map or_public_key ring"
    "\<forall>r \<in> set ring. is_spend_time_unlocked chain (or_unlock_time r) (block_height ctx)"
    using resolve_ring_accepts [OF f(5) found] by blast
  then show ?thesis using f found Key by (intro exI [of _ amount] exI [of _ offsets] exI [of _ absolute] exI [of _ ring]) simp
qed (use assms in auto)

lemma check_inputs_loop_accepts:
  "check_inputs_loop c chain ctx tx p i ins = Inr () \<Longrightarrow> j < length ins \<Longrightarrow>
     \<exists>ki ring sigs. gather_ring chain ctx tx (i + j) (ins ! j) = Inr (ki, ring, sigs) \<and>
       check_ring_signature c p ki ring sigs"
proof (induction ins arbitrary: i j)
  case (Cons inp ins)
  then obtain ki ring sigs where g: "gather_ring chain ctx tx i inp = Inr (ki, ring, sigs)"
    "check_ring_signature c p ki ring sigs" "check_inputs_loop c chain ctx tx p (Suc i) ins = Inr ()"
    by (auto split: sum.splits if_splits)
  then show ?case using Cons.IH [OF g(3), of "j - 1"] Cons.prems(2) by (cases j) auto
qed simp

lemma check_work_accepts:
  assumes "check_work c chain ctx tx f fus = Inr ()" "answers_every_index chain" "\<not> in_zone ctx"
  shows "inputs_authorised c chain ctx tx"
  unfolding inputs_authorised_def
proof (intro allI impI)
  fix i assume i: "i < length (inputs (prefix tx))"
  let ?p = "cn_fast_hash c (prefix_to_bytes (prefix tx))"
  have "check_inputs_loop c chain ctx tx ?p 0 (inputs (prefix tx)) = Inr ()"
    using assms by (auto simp: check_work_def Let_def split: sum.splits)
  from check_inputs_loop_accepts [OF this i]
  obtain ki keys sigs where g: "gather_ring chain ctx tx i (inputs (prefix tx) ! i) = Inr (ki, keys, sigs)"
    and s: "check_ring_signature c ?p ki keys sigs"
    by auto
  obtain amount offsets absolute ring where r: "inputs (prefix tx) ! i = Key amount offsets ki"
    "ca_key_image_spent chain ki (block_height ctx) = Inr False" "relative_offsets_to_absolute offsets = Some absolute"
    "ca_key_outputs chain amount absolute = Inr (map Some ring)" "length ring = length absolute"
    "\<forall>r \<in> set ring. is_spend_time_unlocked chain (or_unlock_time r) (block_height ctx)"
    "length ring \<le> length (input_signatures tx i)"
    "is_pool_transaction ctx \<or> TRANSACTION_SIGNATURE_COUNT_VALIDATION_HEIGHT \<le> block_height ctx \<longrightarrow>
       length (input_signatures tx i) = length ring"
    "keys = map or_public_key ring" "sigs = take (length ring) (input_signatures tx i)"
    using gather_ring_accepts [OF g assms(2)] by blast
  show "\<exists>amount offsets ki absolute ring. inputs (prefix tx) ! i = Key amount offsets ki \<and>
      ca_key_image_spent chain ki (block_height ctx) = Inr False \<and>
      relative_offsets_to_absolute offsets = Some absolute \<and>
      ca_key_outputs chain amount absolute = Inr (map Some ring) \<and> length ring = length absolute \<and>
      (\<forall>r \<in> set ring. is_spend_time_unlocked chain (or_unlock_time r) (block_height ctx)) \<and>
      length ring \<le> length (input_signatures tx i) \<and>
      (is_pool_transaction ctx \<or> TRANSACTION_SIGNATURE_COUNT_VALIDATION_HEIGHT \<le> block_height ctx \<longrightarrow>
         length (input_signatures tx i) = length ring) \<and>
      check_ring_signature c ?p ki (map or_public_key ring) (take (length ring) (input_signatures tx i))"
    using r s
    by (intro exI [of _ amount] exI [of _ offsets] exI [of _ ki] exI [of _ absolute] exI [of _ ring]) simp
qed

lemma early_exit_accepts:
  assumes "validate_transaction_early_exit c chain ctx tx blob st = (Inr v, st')" "answers_every_index chain"
  shows "distinct (key_images_of (inputs (prefix tx))) \<and> set (key_images_of (inputs (prefix tx))) \<inter> st = {} \<and>
    st' = st \<union> set (key_images_of (inputs (prefix tx))) \<and>
    (\<forall>ki \<in> set (key_images_of (inputs (prefix tx))). key_image_in_prime_subgroup c ki) \<and>
    (\<forall>t \<in> set (outputs (prefix tx)). out_amount t \<noteq> 0 \<and> check_key c (out_key t)) \<and>
    value_in tx = value_out tx + unat (tv_fee v) \<and> (\<not> in_zone ctx \<longrightarrow> inputs_authorised c chain ctx tx)"
proof -
  obtain si so f fus d d' where i: "validate_inputs_loop c 0 0 {} 0 st None (inputs (prefix tx)) = (Inr si, st', d)"
    and o': "validate_outputs_loop c (block_height ctx) 0 0 0 None (outputs (prefix tx)) = (Inr so, d')"
    and m: "validate_fee_to_mixin tx blob ctx si so = Inr (f, fus)"
    and w: "check_work c chain ctx tx f fus = Inr ()" and v: "v = \<lparr>tv_fee = f, tv_is_fusion = fus\<rparr>"
    using assms(1)
    by (auto simp: validate_transaction_early_exit_def inline_from_outputs_def validate_inputs_def validate_outputs_def
        Let_def split: if_splits sum.splits prod.splits)
  show ?thesis
    using validate_inputs_loop_accepts [OF i] validate_outputs_loop_accepts [OF o'] validate_fee_to_mixin_accepts [OF m]
      check_work_accepts [OF w assms(2)] v by (auto simp: value_in_def value_out_def)
qed

lemma validate_block_sequential_accepts:
  assumes "answers_every_index chain"
  shows "validate_block_sequential c chain ctx hashes i cf st txs = Inr (cf', st') \<Longrightarrow>
    let images = concat (map (\<lambda>t. key_images_of (inputs (prefix (fst t)))) txs) in
    distinct images \<and> set images \<inter> st = {} \<and> st' = st \<union> set images \<and>
    (\<forall>ki \<in> set images. key_image_in_prime_subgroup c ki) \<and>
    (\<forall>(tx, blob) \<in> set txs. value_out tx \<le> value_in tx \<and> (\<not> in_zone ctx \<longrightarrow> inputs_authorised c chain ctx tx) \<and>
       (\<forall>t \<in> set (outputs (prefix tx)). out_amount t \<noteq> 0 \<and> check_key c (out_key t))) \<and>
    unat cf' = min (unat cf + (\<Sum>(tx, blob)\<leftarrow>txs. value_in tx - value_out tx)) (2 ^ 64 - 1)"
proof (induction txs arbitrary: i cf st)
  case Nil
  have "unat cf \<le> 18446744073709551615" using unat_u64_less [of cf] by linarith
  then show ?case using Nil by (auto simp: min_def)
next
  case (Cons t txs)
  obtain tx blob where t: "t = (tx, blob)" by (cases t)
  obtain v st1 where e: "validate_transaction_early_exit c chain ctx tx blob st = (Inr v, st1)"
    and r: "validate_block_sequential c chain ctx hashes (Suc i) (saturating_add cf (tv_fee v)) st1 txs = Inr (cf', st')"
    using Cons.prems t by (auto split: sum.splits prod.splits)
  note a = early_exit_accepts [OF e assms]
  have "value_in tx - value_out tx = unat (tv_fee v)" using a by simp
  then show ?case using Cons.IH [OF r] a t by (auto simp: Let_def arith_simps)
qed

text \<open>C9: In a block whose transactions are accepted no key image occurs twice, whether in one transaction or in two; the
  images claimed are exactly those of the block, each in the prime-order subgroup. Every transaction creates no more
  than it spends, its outputs are non-zero and pay to valid keys, and the cumulative fee is what the transactions leave
  over, saturated at the largest 64-bit value. Outside the checkpoint zone every input spends an image the chain has not
  seen, and the signatures the transaction carries for that very input sign a ring of unlocked outputs of the chain. The
  chain answers every index it is asked for.\<close>

theorem accepted_block_sound:
  assumes "validate_block_transactions c chain ctx hashes 0 0 {} batch_new txs = Inr (cumulative_fee, spent)"
    and "answers_every_index chain"
  shows "let images = concat (map (\<lambda>t. key_images_of (inputs (prefix (fst t)))) txs) in
    distinct images \<and> spent = set images \<and> (\<forall>ki \<in> set images. key_image_in_prime_subgroup c ki) \<and>
    (\<forall>(tx, blob) \<in> set txs. value_out tx \<le> value_in tx \<and> (\<not> in_zone ctx \<longrightarrow> inputs_authorised c chain ctx tx) \<and>
       (\<forall>t \<in> set (outputs (prefix tx)). out_amount t \<noteq> 0 \<and> check_key c (out_key t))) \<and>
    unat cumulative_fee = min (\<Sum>(tx, blob)\<leftarrow>txs. value_in tx - value_out tx) (2 ^ 64 - 1)"
proof -
  have "validate_block_sequential c chain ctx hashes 0 0 {} txs = Inr (cumulative_fee, spent)"
    using assms(1) by (simp add: validate_block_transactions_batch)
  from validate_block_sequential_accepts [OF assms(2) this] show ?thesis by (simp add: Let_def)
qed

definition sample_crypto :: crypto where
  "sample_crypto = \<lparr>cn_fast_hash = \<lambda>_. replicate 32 0, cn_upx = \<lambda>_. replicate 32 0, check_key = \<lambda>_. True,
     key_image_in_prime_subgroup = \<lambda>_. True, check_ring_signature = \<lambda>_ _ _ _. True\<rparr>"

definition sample_chain :: chain_access where
  "sample_chain = \<lparr>ca_key_image_spent = \<lambda>_ _. Inr False,
     ca_key_outputs = \<lambda>_ indexes. Inr (map (\<lambda>_. Some \<lparr>or_public_key = replicate 32 9, or_unlock_time = 0,
        or_transaction_hash = replicate 32 7, or_output_index = 0, or_block_index = 0\<rparr>) indexes),
     ca_top_block_timestamp = 0, ca_now = 0\<rparr>"

definition sample_spend :: transaction where
  "sample_spend = \<lparr>prefix = \<lparr>version = 1, unlock_time = 0, inputs = [Key 1000 [1] (replicate 32 1)],
      outputs = [\<lparr>out_amount = 900, out_key = replicate 32 2\<rparr>], extra = []\<rparr>, signatures = [[replicate 64 3]]\<rparr>"

definition sample_ctx :: tx_context where
  "sample_ctx = \<lparr>block_height = 0, block_median_size = 10000, block_timestamp = 0, is_pool_transaction = False,
     ctx_checkpoints = checkpoints_none\<rparr>"

lemmas sample_defs = sample_crypto_def sample_chain_def sample_spend_def sample_ctx_def

lemma sample_inputs:
  "validate_inputs sample_crypto sample_spend 0 {} None = (Inr 1000, {replicate 32 1}, None)"
  by (simp add: validate_inputs_def sample_defs checked_add_def)

lemma sample_outputs:
  "validate_outputs sample_crypto sample_spend 0 0 None = (Inr 900, None)"
  by (simp add: validate_outputs_def sample_defs checked_add_def const_defs)

lemma sample_mixin: "validate_ring_sizes (ring_sizes (prefix sample_spend)) 0 = Inr ()"
  by (simp add: validate_ring_sizes_def ring_sizes_def List.map_filter_def sample_defs const_defs mixin_allowable_range_def ring_bounds_def)

lemma sample_fee: "validate_fee sample_spend [1, 2, 3] 1000 900 0 = Inr (100, False)"
  by (simp add: validate_fee_def sample_defs const_defs is_fusion_transaction_def is_valid_normal_fee_def required_minimum_fee_def Let_def)

lemma sample_steps: "validate_fee_to_mixin sample_spend [1, 2, 3] sample_ctx 1000 900 = Inr (100, False)"
  using sample_mixin sample_fee
  by (simp add: validate_fee_to_mixin_def validate_extra_def validate_unlock_time_def validate_input_output_ratio_def const_defs sample_ctx_def sample_spend_def)

lemma sample_work: "check_work sample_crypto sample_chain sample_ctx sample_spend 100 False = Inr ()"
  by (simp add: check_work_def pow_applies_def in_zone_def is_in_checkpoint_zone_def top_index_def checkpoints_iter_def
    checkpoints_none_def sample_defs const_defs relative_offsets_to_absolute_def is_spend_time_unlocked_def Let_def)

lemma sample_accepted:
  "validate_block_transactions sample_crypto sample_chain sample_ctx [replicate 32 5] 0 0 {} batch_new
     [(sample_spend, [1, 2, 3])] = Inr (100, {replicate 32 1})"
  using sample_inputs sample_outputs sample_steps sample_work
  by (simp add: validate_block_transactions_batch validate_transaction_early_exit_def inline_from_outputs_def max_tx_size_def Let_def const_defs
    sample_ctx_def saturating_add_def)

lemma sample_zone: "\<not> in_zone sample_ctx"
  by (simp add: in_zone_def is_in_checkpoint_zone_def top_index_def checkpoints_iter_def checkpoints_none_def
    sample_ctx_def)

theorem accepted_block_sound_witness:
  "inputs_authorised sample_crypto sample_chain sample_ctx sample_spend \<and>
   unat (100 :: u64) = min (\<Sum>(tx, blob)\<leftarrow>[(sample_spend, [1, 2, 3 :: u8])]. value_in tx - value_out tx) (2 ^ 64 - 1)"
  using accepted_block_sound [OF sample_accepted] sample_zone
  by (simp add: Let_def answers_every_index_def sample_chain_def)

end
