(* ===== verification/Parallel.thy ===== *)
theory Parallel
  imports Validate
begin

text \<open>
  The parallel search for the lowest failing check: \<open>first_invalid_ring\<close> and \<open>run_worker\<close> of
  \<open>wrkz-pow/src/parallel.rs\<close>, and \<open>first_invalid_check\<close> of \<open>wrkz-chain/src/validate.rs\<close>, which runs the same
  workers over the checks of a block. The workers are a step relation: any worker may take the next step, and a load
  of the shared minimum may return any value it has held, so that no memory ordering is relied on.
\<close>

section \<open>Workers\<close>

text \<open>Where a worker stands: before the \<open>fetch_add\<close>, before the load at a batch's start, before the load at an
  index, before the verification of an index, and returned.\<close>

datatype worker = Claim | Enter nat | Visit nat nat | Verify nat nat | Returned

record search =
  next_start :: nat
  lowest :: nat
  loads :: "nat set"
  workers :: "worker list"

definition usize_MAX :: nat where "usize_MAX = 2 ^ 64 - 1"

text \<open>One step of \<open>run_worker\<close> over \<open>n\<close> checks, \<open>fails_at\<close> telling which fail; \<open>l\<close> is what a load of \<open>lowest\<close> returns.\<close>

fun run_worker ::
  "(nat \<Rightarrow> bool) \<Rightarrow> nat \<Rightarrow> nat \<Rightarrow> nat \<Rightarrow> worker \<Rightarrow> nat \<Rightarrow> nat \<Rightarrow> worker \<times> nat \<times> nat" where
  "run_worker fails_at n batch l Claim nx lo = ((if nx \<ge> n then Returned else Enter nx), nx + batch, lo)"
| "run_worker fails_at n batch l (Enter s) nx lo =
     ((if l < s then Returned else Visit s (min (s + batch) n)), nx, lo)"
| "run_worker fails_at n batch l (Visit i e) nx lo =
     ((if i \<ge> e then Claim else if l < i then Returned else Verify i e), nx, lo)"
| "run_worker fails_at n batch l (Verify i e) nx lo =
     (if fails_at i then (Claim, nx, min lo i) else (Visit (Suc i) e, nx, lo))"
| "run_worker fails_at n batch l Returned nx lo = (Returned, nx, lo)"

inductive search_step :: "(nat \<Rightarrow> bool) \<Rightarrow> nat \<Rightarrow> nat \<Rightarrow> search \<Rightarrow> search \<Rightarrow> bool"
  for fails_at n batch where
  step: "w < length (workers s) \<Longrightarrow> workers s ! w \<noteq> Returned \<Longrightarrow> l \<in> loads s \<Longrightarrow>
     run_worker fails_at n batch l (workers s ! w) (next_start s) (lowest s) = (p, nx, lo) \<Longrightarrow>
     search_step fails_at n batch s
       \<lparr>next_start = nx, lowest = lo, loads = insert lo (loads s), workers = (workers s)[w := p]\<rparr>"

definition search_start :: "nat \<Rightarrow> search" where
  "search_start threads =
     \<lparr>next_start = 0, lowest = usize_MAX, loads = {usize_MAX}, workers = replicate threads Claim\<rparr>"

definition search_done :: "search \<Rightarrow> bool" where
  "search_done s \<longleftrightarrow> list_all (\<lambda>w. w = Returned) (workers s)"

definition search_result :: "search \<Rightarrow> nat option" where
  "search_result s = (if lowest s = usize_MAX then None else Some (lowest s))"

text \<open>\<open>first_invalid_ring\<close>: \<open>r\<close> is a possible result over \<open>n\<close> checks.\<close>

abbreviation (input) PARALLEL_THRESHOLD :: nat where "PARALLEL_THRESHOLD \<equiv> 4"
abbreviation (input) WORK_PER_WORKER :: nat where "WORK_PER_WORKER \<equiv> 60"
abbreviation (input) PARALLEL_WORK_THRESHOLD :: nat where "PARALLEL_WORK_THRESHOLD \<equiv> 2 * WORK_PER_WORKER"

definition div_ceil :: "nat \<Rightarrow> nat \<Rightarrow> nat" where "div_ceil a b = (a + b - 1) div b"

definition batch_size :: "nat \<Rightarrow> nat \<Rightarrow> nat" where
  "batch_size n ws = max (div_ceil n (ws * 4)) 1"

definition spread :: "('a \<Rightarrow> bool) \<Rightarrow> 'a list \<Rightarrow> nat \<Rightarrow> nat option \<Rightarrow> bool" where
  "spread good xs ws r \<longleftrightarrow>
     (\<exists>s. (search_step (\<lambda>i. \<not> good (xs ! i)) (length xs) (batch_size (length xs) ws))\<^sup>*\<^sup>* (search_start ws) s \<and>
        search_done s \<and> r = search_result s)"

definition first_invalid_ring :: "('a \<Rightarrow> bool) \<Rightarrow> 'a list \<Rightarrow> nat \<Rightarrow> nat option \<Rightarrow> bool" where
  "first_invalid_ring good xs threads r \<longleftrightarrow>
     (let ws = min threads (length xs div 2) in
      if length xs < PARALLEL_THRESHOLD \<or> ws < 2 then r = position_of (\<lambda>x. \<not> good x) xs else spread good xs ws r)"

definition first_invalid_check :: "crypto \<Rightarrow> pure_check list \<Rightarrow> nat \<Rightarrow> nat option \<Rightarrow> bool" where
  "first_invalid_check c xs threads r \<longleftrightarrow>
     (let work = sum_list (map check_weight xs);
          ws = min (min threads (work div WORK_PER_WORKER)) (length xs div 2) in
      if length xs < PARALLEL_THRESHOLD \<or> ws < 2 \<or> work < PARALLEL_WORK_THRESHOLD
      then r = position_of (\<lambda>x. \<not> verify c x) xs else spread (verify c) xs ws r)"

section \<open>Every index below the lowest failure is visited\<close>

text \<open>What a worker has claimed lies below the shared counter.\<close>

fun worker_ok :: "nat \<Rightarrow> nat \<Rightarrow> nat \<Rightarrow> worker \<Rightarrow> bool" where
  "worker_ok n batch nx (Enter s) \<longleftrightarrow> s < n \<and> s + batch \<le> nx"
| "worker_ok n batch nx (Visit i e) \<longleftrightarrow> i \<le> e \<and> e \<le> n \<and> e \<le> nx"
| "worker_ok n batch nx (Verify i e) \<longleftrightarrow> i < e \<and> e \<le> n \<and> e \<le> nx"
| "worker_ok n batch nx _ \<longleftrightarrow> True"

fun holds_index :: "nat \<Rightarrow> nat \<Rightarrow> worker \<Rightarrow> bool" where
  "holds_index batch f (Enter s) \<longleftrightarrow> s \<le> f \<and> f < s + batch"
| "holds_index batch f (Visit i e) \<longleftrightarrow> i \<le> f \<and> f < e"
| "holds_index batch f (Verify i e) \<longleftrightarrow> i \<le> f \<and> f < e"
| "holds_index batch f _ \<longleftrightarrow> False"

definition search_inv :: "(nat \<Rightarrow> bool) \<Rightarrow> nat \<Rightarrow> nat \<Rightarrow> search \<Rightarrow> bool" where
  "search_inv fails_at n batch s \<longleftrightarrow>
     (\<forall>w \<in> set (workers s). worker_ok n batch (next_start s) w) \<and>
     lowest s \<in> loads s \<and> (\<forall>l \<in> loads s. l = usize_MAX \<or> l < n \<and> fails_at l) \<and>
     (\<forall>f < n. fails_at f \<and> (\<forall>i < f. \<not> fails_at i) \<longrightarrow>
        (Returned \<in> set (workers s) \<longrightarrow> f < next_start s) \<and>
        (next_start s \<le> f \<or> lowest s \<le> f \<or> (\<exists>w \<in> set (workers s). holds_index batch f w)))"

lemma search_inv_start:
  assumes "n \<le> usize_MAX"
  shows "search_inv fails_at n batch (search_start ws)"
  using assms by (auto simp: search_inv_def search_start_def)

lemma worker_ok_mono: "worker_ok n batch nx w \<Longrightarrow> nx \<le> nx' \<Longrightarrow> worker_ok n batch nx' w"
  by (cases w) auto

lemma run_worker_next: "run_worker fails_at n batch l w nx lo = (p, nx', lo') \<Longrightarrow> nx \<le> nx'"
  by (cases w) (auto split: if_splits)

lemma run_worker_lowest:
  "run_worker fails_at n batch l w nx lo = (p, nx', lo') \<Longrightarrow> worker_ok n batch nx w \<Longrightarrow>
     lo' = lo \<or> lo' \<le> lo \<and> lo' < n \<and> fails_at lo'"
  by (cases w) (auto split: if_splits simp: min_def)

lemma run_worker_ok:
  "run_worker fails_at n batch l w nx lo = (p, nx', lo') \<Longrightarrow> worker_ok n batch nx w \<Longrightarrow> worker_ok n batch nx' p"
  by (cases w) (auto split: if_splits)

text \<open>The step of a worker on the way to the lowest failing index \<open>f\<close>.\<close>

lemma run_worker_holds:
  assumes "run_worker fails_at n batch l w nx lo = (p, nx', lo')" "worker_ok n batch nx w" "f \<le> l"
    "f < n" "fails_at f" "\<forall>i < f. \<not> fails_at i"
  shows "holds_index batch f w \<Longrightarrow> lo' \<le> f \<or> holds_index batch f p"
    and "nx \<le> f \<Longrightarrow> nx' \<le> f \<or> holds_index batch f p"
    and "p = Returned \<Longrightarrow> w \<noteq> Returned \<Longrightarrow> l \<noteq> usize_MAX \<Longrightarrow> f < nx'"
    and "p = Returned \<Longrightarrow> w \<noteq> Returned \<Longrightarrow> l = usize_MAX \<Longrightarrow> n \<le> usize_MAX \<Longrightarrow> f < nx'"
  using assms by (cases w; auto split: if_splits simp: not_le le_less_Suc_eq less_Suc_eq_le)+

lemma search_inv_step:
  assumes "search_inv fails_at n batch s" "search_step fails_at n batch s s'" "n \<le> usize_MAX"
  shows "search_inv fails_at n batch s'"
  using assms(2)
proof cases
  case (step w l p nx lo)
  let ?w = "workers s ! w"
  have mem: "?w \<in> set (workers s)" using step by simp
  then have ok: "worker_ok n batch (next_start s) ?w" using assms(1) by (simp add: search_inv_def)
  note r = step(5)
  have ws: "set ((workers s)[w := p]) \<subseteq> insert p (set (workers s))" by (rule set_update_subset_insert)
  have p: "p \<in> set ((workers s)[w := p])" using step by (simp add: set_update_memI)
  have "\<forall>v \<in> set (workers s'). worker_ok n batch nx v"
    using ws assms(1) run_worker_ok [OF r ok] worker_ok_mono [OF _ run_worker_next [OF r]] step(1)
    by (auto simp: search_inv_def)
  moreover have "\<forall>l \<in> loads s'. l = usize_MAX \<or> l < n \<and> fails_at l"
    using run_worker_lowest [OF r ok] assms(1) step(1) by (auto simp: search_inv_def)
  moreover have "(Returned \<in> set (workers s') \<longrightarrow> f < nx) \<and>
      (nx \<le> f \<or> lo \<le> f \<or> (\<exists>v \<in> set (workers s'). holds_index batch f v))"
    if f: "f < n" "fails_at f" "\<forall>i < f. \<not> fails_at i" for f
  proof -
    have "f \<le> l" using assms(1,3) f step(4) unfolding search_inv_def by (metis leI less_imp_le order_less_le_trans)
    note holds = run_worker_holds [OF r ok this f]
    have old: "Returned \<in> set (workers s) \<longrightarrow> f < next_start s"
      "next_start s \<le> f \<or> lowest s \<le> f \<or> (\<exists>v \<in> set (workers s). holds_index batch f v)"
      using assms(1) f by (auto simp: search_inv_def)
    have "f < nx" if "Returned \<in> set (workers s')"
    proof (cases "Returned \<in> set (workers s)")
      case True
      then show ?thesis using old(1) run_worker_next [OF r] by simp
    next
      case False
      then have "p = Returned" using that ws step(1) by auto
      then show ?thesis using holds(3,4) step(3) assms(3) by (cases "l = usize_MAX") auto
    qed
    moreover have "nx \<le> f \<or> lo \<le> f \<or> (\<exists>v \<in> set (workers s'). holds_index batch f v)"
      using old(2)
    proof (elim disjE bexE)
      assume "next_start s \<le> f"
      then show ?thesis using holds(2) p step(1) by auto
    next
      assume "lowest s \<le> f"
      then show ?thesis using run_worker_lowest [OF r ok] by auto
    next
      fix v assume v: "v \<in> set (workers s)" "holds_index batch f v"
      then obtain j where j: "j < length (workers s)" "workers s ! j = v" by (auto simp: in_set_conv_nth)
      show ?thesis
      proof (cases "j = w")
        case True
        then show ?thesis using holds(1) v(2) j(2) p step(1) by auto
      next
        case False
        then have "v \<in> set ((workers s)[w := p])" using j by (metis length_list_update nth_list_update_neq nth_mem)
        then show ?thesis using v(2) step(1) by auto
      qed
    qed
    ultimately show ?thesis by blast
  qed
  ultimately show ?thesis using step(1) by (simp add: search_inv_def)
qed

lemma search_inv_run:
  assumes "(search_step fails_at n batch)\<^sup>*\<^sup>* (search_start ws) s" "n \<le> usize_MAX"
  shows "search_inv fails_at n batch s"
  using assms by (induction rule: rtranclp_induct) (auto intro: search_inv_start search_inv_step)

section \<open>Every run ends\<close>

fun worker_work :: "nat \<Rightarrow> nat \<Rightarrow> worker \<Rightarrow> nat" where
  "worker_work n batch Claim = 1"
| "worker_work n batch (Enter s) = 2 * (min (s + batch) n - s) + 3"
| "worker_work n batch (Visit i e) = 2 * (e - i) + 2"
| "worker_work n batch (Verify i e) = 2 * (e - i) + 1"
| "worker_work n batch Returned = 0"

definition search_work :: "nat \<Rightarrow> nat \<Rightarrow> search \<Rightarrow> nat" where
  "search_work n batch s = 5 * (n - next_start s) + sum_list (map (worker_work n batch) (workers s))"

lemma run_worker_work:
  assumes "run_worker fails_at n batch l w nx lo = (p, nx', lo')" "worker_ok n batch nx w" "w \<noteq> Returned" "0 < batch"
  shows "5 * (n - nx') + worker_work n batch p < 5 * (n - nx) + worker_work n batch w"
  using assms by (cases w) (auto split: if_splits simp: min_def)

lemma sum_list_update_less:
  fixes f :: "'a \<Rightarrow> nat"
  assumes "w < length xs" "a + f p < b + f (xs ! w)"
  shows "a + sum_list (map f (xs[w := p])) < b + sum_list (map f xs)"
proof -
  have "xs = take w xs @ xs ! w # drop (Suc w) xs" using assms(1) by (simp add: id_take_nth_drop)
  moreover have "xs[w := p] = take w xs @ p # drop (Suc w) xs" using assms(1) by (simp add: upd_conv_take_nth_drop)
  ultimately have "sum_list (map f xs) = sum_list (map f (take w xs)) + f (xs ! w) + sum_list (map f (drop (Suc w) xs))"
    "sum_list (map f (xs[w := p])) = sum_list (map f (take w xs)) + f p + sum_list (map f (drop (Suc w) xs))"
    by (metis (no_types, lifting) add.assoc list.simps(9) map_append sum_list.Cons sum_list_append)+
  then show ?thesis using assms(2) by simp
qed

lemma search_work_step:
  assumes "search_inv fails_at n batch s" "search_step fails_at n batch s s'" "0 < batch"
  shows "search_work n batch s' < search_work n batch s"
  using assms(2)
proof cases
  case (step w l p nx lo)
  have "worker_ok n batch (next_start s) (workers s ! w)" using assms(1) step(2) by (simp add: search_inv_def)
  from run_worker_work [OF step(5) this step(3) assms(3)] show ?thesis
    using sum_list_update_less [OF step(2), of _ "worker_work n batch"] step(1) by (simp add: search_work_def)
qed

lemma search_progress:
  assumes "search_inv fails_at n batch s" "\<not> search_done s"
  shows "\<exists>s'. search_step fails_at n batch s s'"
proof -
  obtain w where w: "w < length (workers s)" "workers s ! w \<noteq> Returned"
    using assms(2) by (auto simp: search_done_def list_all_length)
  moreover have "lowest s \<in> loads s" using assms(1) by (simp add: search_inv_def)
  moreover obtain p nx lo where
    "run_worker fails_at n batch (lowest s) (workers s ! w) (next_start s) (lowest s) = (p, nx, lo)"
    by (metis prod_cases3)
  ultimately show ?thesis by (blast intro: search_step.step)
qed

lemma search_terminates:
  assumes "search_inv fails_at n batch s" "0 < batch" "n \<le> usize_MAX"
  shows "\<exists>s'. (search_step fails_at n batch)\<^sup>*\<^sup>* s s' \<and> search_done s'"
  using assms(1)
proof (induction "search_work n batch s" arbitrary: s rule: less_induct)
  case less
  show ?case
  proof (cases "search_done s")
    case False
    then obtain s1 where s1: "search_step fails_at n batch s s1" using search_progress [OF less.prems] by blast
    from less.hyps [OF search_work_step [OF less.prems s1 assms(2)] search_inv_step [OF less.prems s1 assms(3)]]
    show ?thesis using s1 by (meson converse_rtranclp_into_rtranclp)
  qed blast
qed

lemma search_bounded:
  assumes "(search_step fails_at n batch ^^ k) (search_start ws) s" "0 < batch" "n \<le> usize_MAX"
  shows "search_inv fails_at n batch s \<and> k + search_work n batch s \<le> 5 * n + ws"
  using assms(1)
proof (induction k arbitrary: s)
  case 0
  then show ?case using search_inv_start [OF assms(3)]
    by (auto simp: search_work_def search_start_def sum_list_replicate)
next
  case (Suc k)
  then obtain s1 where s1: "(search_step fails_at n batch ^^ k) (search_start ws) s1" "search_step fails_at n batch s1 s"
    by auto
  have i: "search_inv fails_at n batch s1" "k + search_work n batch s1 \<le> 5 * n + ws" using Suc.IH [OF s1(1)] by auto
  show ?case using search_work_step [OF i(1) s1(2) assms(2)] search_inv_step [OF i(1) s1(2) assms(3)] i(2) by simp
qed

section \<open>The result\<close>

lemma position_of_Some_iff:
  "position_of P xs = Some f \<longleftrightarrow> f < length xs \<and> P (xs ! f) \<and> (\<forall>i < f. \<not> P (xs ! i))"
proof (induction xs arbitrary: f)
  case (Cons x xs)
  then show ?case by (cases f) (auto simp: less_Suc_eq_0_disj)
qed simp

lemma position_of_None_iff: "position_of P xs = None \<longleftrightarrow> (\<forall>i < length xs. \<not> P (xs ! i))"
proof (induction xs)
  case (Cons x xs)
  then show ?case by (auto simp: less_Suc_eq_0_disj)
qed simp

lemma search_result_position:
  assumes inv: "search_inv (\<lambda>i. \<not> good (xs ! i)) (length xs) batch s" and "search_done s" "workers s \<noteq> []"
    and n: "length xs < usize_MAX"
  shows "search_result s = position_of (\<lambda>x. \<not> good x) xs"
proof -
  let ?p = "position_of (\<lambda>x. \<not> good x) xs"
  have ret: "set (workers s) = {Returned}" using assms(2,3) by (cases "workers s") (auto simp: search_done_def list_all_iff)
  have low: "lowest s = usize_MAX \<or> lowest s < length xs \<and> \<not> good (xs ! lowest s)"
    using inv by (auto simp: search_inv_def)
  show ?thesis
  proof (cases ?p)
    case None
    then have "lowest s = usize_MAX" using low by (auto simp: position_of_None_iff)
    then show ?thesis using None by (simp add: search_result_def)
  next
    case (Some f)
    then have f: "f < length xs" "\<not> good (xs ! f)" "\<forall>i < f. good (xs ! i)" by (auto simp: position_of_Some_iff)
    then have "(Returned \<in> set (workers s) \<longrightarrow> f < next_start s) \<and>
        (next_start s \<le> f \<or> lowest s \<le> f \<or> (\<exists>w \<in> set (workers s). holds_index batch f w))"
      using inv by (simp add: search_inv_def)
    then have "lowest s \<le> f" unfolding ret by auto
    moreover have "\<not> lowest s < f" using low f n by (auto simp: not_less)
    ultimately have "lowest s = f" by simp
    then show ?thesis using Some f(1) n by (simp add: search_result_def)
  qed
qed

lemma spread_iff:
  assumes "length xs < usize_MAX" "0 < ws"
  shows "spread good xs ws r \<longleftrightarrow> r = position_of (\<lambda>x. \<not> good x) xs"
proof -
  let ?f = "\<lambda>i. \<not> good (xs ! i)" and ?n = "length xs" and ?b = "batch_size (length xs) ws"
  have n: "?n \<le> usize_MAX" and b: "0 < ?b" using assms(1) by (simp_all add: batch_size_def)
  have workers_kept: "length (workers s) = ws" if "(search_step ?f ?n ?b)\<^sup>*\<^sup>* (search_start ws) s" for s
    using that by (induction rule: rtranclp_induct) (auto simp: search_start_def elim!: search_step.cases)
  have result: "search_result s = position_of (\<lambda>x. \<not> good x) xs"
    if "(search_step ?f ?n ?b)\<^sup>*\<^sup>* (search_start ws) s" "search_done s" for s
    using search_result_position [OF search_inv_run [OF that(1) n] that(2) _ assms(1)] workers_kept [OF that(1)] assms(2)
    by auto
  then show ?thesis
    using search_terminates [OF search_inv_start [OF n] b n, of ?f ws] unfolding spread_def by metis
qed

text \<open>C22: Whatever the number of threads, the order the workers run in and the age of the minima they load, the search
  over the checks of a block has a result and its only result is the index a sequential loop stops at.\<close>

theorem first_invalid_check_deterministic:
  assumes "length xs < usize_MAX"
  shows "first_invalid_check c xs threads r \<longleftrightarrow> r = position_of (\<lambda>ck. \<not> verify c ck) xs"
  using spread_iff [OF assms, of "min (min threads (sum_list (map check_weight xs) div WORK_PER_WORKER)) (length xs div 2)"]
  by (auto simp: first_invalid_check_def Let_def not_less)

theorem first_invalid_check_deterministic_witness:
  "first_invalid_check sample_crypto (replicate 13 (KeyImageDomain 0 0 [])) 4 None"
proof -
  have "position_of (\<lambda>ck. \<not> verify sample_crypto ck) (replicate 13 (KeyImageDomain 0 0 [])) = None"
    by (simp add: position_of_None_iff sample_crypto_def)
  then show ?thesis
    using first_invalid_check_deterministic [of "replicate 13 (KeyImageDomain 0 0 [])" sample_crypto 4 None]
    by (simp add: usize_MAX_def)
qed

text \<open>C23: A run of the workers of \<open>first_invalid_ring\<close> takes at most five steps for each check and one for each worker,
  never stops before every worker has returned, and returns what the sequential loop returns.
\<close>

theorem first_invalid_ring_ends:
  assumes "length xs < usize_MAX" "2 \<le> ws"
    and "(search_step (\<lambda>i. \<not> good (xs ! i)) (length xs) (batch_size (length xs) ws) ^^ k) (search_start ws) s"
  shows "k \<le> 5 * length xs + ws \<and>
    (if search_done s then search_result s = position_of (\<lambda>x. \<not> good x) xs
     else \<exists>s'. search_step (\<lambda>i. \<not> good (xs ! i)) (length xs) (batch_size (length xs) ws) s s')"
proof -
  have n: "length xs \<le> usize_MAX" and b: "0 < batch_size (length xs) ws"
    using assms(1) by (simp_all add: batch_size_def)
  note i = search_bounded [OF assms(3) b n]
  show ?thesis
  proof (cases "search_done s")
    case True
    then have "spread good xs ws (search_result s)"
      using relpowp_imp_rtranclp [OF assms(3)] unfolding spread_def by blast
    then show ?thesis using i True spread_iff [OF assms(1), of ws] assms(2) by simp
  next
    case False
    then show ?thesis using i search_progress by auto
  qed
qed

lemma start_not_done: "\<not> search_done (search_start 2)"
  by (simp add: search_done_def search_start_def numeral_2_eq_2)

theorem first_invalid_ring_ends_witness:
  "\<exists>s'. search_step (\<lambda>i. \<not> [True, True, False, True] ! i) 4 (batch_size 4 2) (search_start 2) s'"
proof -
  have four: "length [True, True, False, True] = 4" by simp
  show ?thesis
    using first_invalid_ring_ends [where xs = "[True, True, False, True]" and ws = 2 and good = "\<lambda>x. x" and k = 0
        and s = "search_start 2", unfolded four] start_not_done
    by (simp add: usize_MAX_def)
qed

end
