(* ===== verification/Chain_Store.thy ===== *)
theory Chain_Store
  imports Parallel Block "HOL-Library.AList" "HOL-Library.List_Lexorder"
begin

text \<open>
  The stored chain (\<open>wrkz-chain/src/keys.rs\<close> and the storage half of \<open>wrkz-chain/src/state.rs\<close>): the key
  namespace, the reads and windows of \<open>ChainState\<close>, the write batch of \<open>push_block\<close> and the one that takes a block
  off again. The store is a map from byte strings to byte strings and a batch is applied as a whole; an engine
  failure of the key-value store is not modelled. The clock is a field of the state. An operation that may fail after
  it has changed the state returns the state beside its result.
\<close>

section \<open>Results\<close>

definition and_then :: "'e + 'a \<Rightarrow> ('a \<Rightarrow> 'e + 'b) \<Rightarrow> 'e + 'b" where
  "and_then r f = (case r of Inl e \<Rightarrow> Inl e | Inr x \<Rightarrow> f x)"

fun traverse :: "('a \<Rightarrow> 'e + 'b) \<Rightarrow> 'a list \<Rightarrow> 'e + 'b list" where
  "traverse f [] = Inr []"
| "traverse f (x # xs) = and_then (f x) (\<lambda>y. and_then (traverse f xs) (\<lambda>ys. Inr (y # ys)))"

definition ok_or :: "'e \<Rightarrow> 'a option \<Rightarrow> 'e + 'a" where
  "ok_or e r = (case r of None \<Rightarrow> Inl e | Some x \<Rightarrow> Inr x)"

section \<open>Keys\<close>

text \<open>One constructor for each key function, and \<open>Meta\<close> for \<open>meta\<close>.\<close>

datatype store_key =
    Meta string
  | BlockInfoKey u32
  | HashToIndex hash
  | BlockTxHashes u32
  | TransactionIndex hash
  | KeyImage hash
  | BlockKeyImages u32
  | OutputAt u64 u32
  | OutputCount u64
  | BlockOutputs u32
  | RawBlock u32
  | PaymentIdKey hash
  | PaymentIdEntry hash u32
  | PaymentIdCount hash
  | BlockPaymentIds u32

definition to_be :: "nat \<Rightarrow> 'a::len word \<Rightarrow> bytes" where
  "to_be n v = rev (to_le n v)"

definition ascii :: "string \<Rightarrow> bytes" where
  "ascii s = map (\<lambda>c. of_nat (of_char c)) s"

fun key_bytes :: "store_key \<Rightarrow> bytes" where
  "key_bytes (Meta name) = ascii ''WM'' @ ascii name"
| "key_bytes (BlockInfoKey index) = ascii ''Wb'' @ to_be 4 index"
| "key_bytes (HashToIndex hash) = ascii ''Wh'' @ hash"
| "key_bytes (BlockTxHashes index) = ascii ''Wt'' @ to_be 4 index"
| "key_bytes (TransactionIndex hash) = ascii ''Wx'' @ hash"
| "key_bytes (KeyImage ki) = ascii ''Wk'' @ ki"
| "key_bytes (BlockKeyImages index) = ascii ''WK'' @ to_be 4 index"
| "key_bytes (OutputAt amount global_index) = ascii ''Wo'' @ to_be 8 amount @ to_be 4 global_index"
| "key_bytes (OutputCount amount) = ascii ''Wc'' @ to_be 8 amount"
| "key_bytes (BlockOutputs index) = ascii ''WO'' @ to_be 4 index"
| "key_bytes (RawBlock index) = ascii ''Wr'' @ to_be 4 index"
| "key_bytes (PaymentIdKey i) = ascii ''Wp'' @ i"
| "key_bytes (PaymentIdEntry i n) = ascii ''Wq'' @ i @ to_be 4 n"
| "key_bytes (PaymentIdCount i) = ascii ''WQ'' @ i"
| "key_bytes (BlockPaymentIds index) = ascii ''WP'' @ to_be 4 index"

abbreviation (input) STATE_SCHEMA_VERSION :: u32 where "STATE_SCHEMA_VERSION \<equiv> 4"
abbreviation (input) OLDEST_READABLE_SCHEMA_VERSION :: u32 where "OLDEST_READABLE_SCHEMA_VERSION \<equiv> 3"

section \<open>The state\<close>

type_synonym store = "bytes \<rightharpoonup> bytes"
type_synonym write_op = "bytes \<times> bytes option"

text \<open>\<open>KvStore::write_batch\<close>: the operations in order.\<close>

fun write_batch :: "write_op list \<Rightarrow> store \<Rightarrow> store" where
  "write_batch [] kv = kv"
| "write_batch ((k, v) # ops) kv = write_batch ops (kv(k := v))"

record config =
  store_raw_blocks :: bool
  lite_start_height :: u32
  prune_depth :: "u32 option"
  unwind_history :: u32
  recent_window :: nat
  simnet :: bool

definition config_default :: config where
  "config_default = \<lparr>store_raw_blocks = True, lite_start_height = 0, prune_depth = None, unwind_history = 512,
     recent_window = 256, simnet = False\<rparr>"

abbreviation (input) MIN_PRUNE_DEPTH :: u32 where "MIN_PRUNE_DEPTH \<equiv> ucast CRYPTONOTE_MAX_ALT_BLOCK_DEPTH + 1"

definition keeps_body :: "config \<Rightarrow> u32 \<Rightarrow> u32 \<Rightarrow> bool" where
  "keeps_body cfg index tip =
     (if \<not> store_raw_blocks cfg then False
      else if lite_start_height cfg \<noteq> 0 \<and> index \<noteq> 0 \<and> index < lite_start_height cfg then False
      else case prune_depth cfg of
        Some depth \<Rightarrow> \<not> ((ucast index :: u64) + ucast depth \<le> ucast tip)
      | None \<Rightarrow> True)"

definition body_floor :: "config \<Rightarrow> u32 \<Rightarrow> u32 option" where
  "body_floor cfg tip =
     (if \<not> store_raw_blocks cfg then None
      else
        let prune_floor =
              (case prune_depth cfg of
                 Some d \<Rightarrow> saturating_sub ((ucast tip :: u64) + 1) (ucast d)
               | None \<Rightarrow> 0)
        in Some (max (lite_start_height cfg) (ucast prune_floor)))"

record alt_block =
  alt_index :: u32
  alt_prev_hash :: hash
  alt_info :: block_info
  alt_block_blob :: bytes
  alt_tx_blobs :: "bytes list"

record unwound_block =
  uw_index :: u32
  uw_hash :: hash
  uw_transaction_hashes :: "hash list"
  uw_transactions :: "bytes list"

record chain_state =
  kv :: store
  cfg :: config
  cs_checkpoints :: checkpoints
  tip :: "u32 option"
  recent :: "block_info list"
  median_size :: u64
  alt_blocks :: "(hash \<times> alt_block) list"
  unwound :: "unwound_block list"
  clock :: u64
  strict_list :: bool
  transactions_floor :: u32

section \<open>Reads\<close>

text \<open>The pattern of the four-byte records: a length other than four is a corrupt store.\<close>

definition u32_record :: "string \<Rightarrow> bytes option \<Rightarrow> chain_error + u32 option" where
  "u32_record what bs =
     (case bs of
        None \<Rightarrow> Inr None
      | Some b \<Rightarrow> if length b = 4 then Inr (Some (from_le b)) else Inl (Corrupt what))"

definition store_get :: "chain_state \<Rightarrow> store_key \<Rightarrow> bytes option" where
  "store_get st k = kv st (key_bytes k)"

definition block_info_at :: "chain_state \<Rightarrow> u32 \<Rightarrow> chain_error + block_info option" where
  "block_info_at st index =
     (let stored =
            (case store_get st (BlockInfoKey index) of
               None \<Rightarrow> Inr None
             | Some bs \<Rightarrow> and_then (block_info_decode bs) (\<lambda>i. Inr (Some i)))
      in case tip st of
           None \<Rightarrow> stored
         | Some t \<Rightarrow>
             if index \<le> t \<and> unat (t - index) < length (recent st)
             then Inr (Some (recent st ! (length (recent st) - 1 - unat (t - index)))) else stored)"

definition block_index_by_hash :: "chain_state \<Rightarrow> hash \<Rightarrow> chain_error + u32 option" where
  "block_index_by_hash st h = u32_record ''hash index record'' (store_get st (HashToIndex h))"

definition transaction_block_index :: "chain_state \<Rightarrow> hash \<Rightarrow> chain_error + u32 option" where
  "transaction_block_index st h = u32_record ''transaction index record'' (store_get st (TransactionIndex h))"

definition block_transaction_hashes :: "chain_state \<Rightarrow> u32 \<Rightarrow> chain_error + hash list" where
  "block_transaction_hashes st index =
     (case store_get st (BlockTxHashes index) of Some bs \<Rightarrow> decode_hashes bs | None \<Rightarrow> Inr [])"

definition raw_block_at :: "chain_state \<Rightarrow> u32 \<Rightarrow> chain_error + (bytes \<times> bytes list) option" where
  "raw_block_at st index =
     (if \<not> keeps_body (cfg st) index (case tip st of Some t \<Rightarrow> t | None \<Rightarrow> index) then Inr None
      else case store_get st (RawBlock index) of
        Some bs \<Rightarrow> and_then (decode_raw_block bs) (\<lambda>b. Inr (Some b))
      | None \<Rightarrow> Inr None)"

definition legacy_payment_id_list :: "chain_state \<Rightarrow> hash \<Rightarrow> chain_error + hash list" where
  "legacy_payment_id_list st pid =
     (case store_get st (PaymentIdKey pid) of Some bs \<Rightarrow> decode_hashes bs | None \<Rightarrow> Inr [])"

definition unwrap_or_zero :: "chain_error + u32 option \<Rightarrow> chain_error + u32" where
  "unwrap_or_zero r = and_then r (\<lambda>n. Inr (case n of Some n \<Rightarrow> n | None \<Rightarrow> 0))"

definition payment_id_entry_count :: "chain_state \<Rightarrow> hash \<Rightarrow> chain_error + u32" where
  "payment_id_entry_count st pid =
     unwrap_or_zero (u32_record ''payment-id count record'' (store_get st (PaymentIdCount pid)))"

text \<open>\<open>decode_payment_id_entry\<close>: exactly a hash, and present.\<close>

definition decode_payment_id_entry :: "bytes option \<Rightarrow> chain_error + hash" where
  "decode_payment_id_entry bs =
     (case bs of
        Some b \<Rightarrow> if length b = 32 then Inr b else Inl (Corrupt ''payment-id entry'')
      | None \<Rightarrow> Inl (Corrupt ''payment-id entry is missing''))"

definition transaction_hashes_by_payment_id :: "chain_state \<Rightarrow> hash \<Rightarrow> chain_error + hash list" where
  "transaction_hashes_by_payment_id st pid =
     and_then (legacy_payment_id_list st pid) (\<lambda>hashes.
     and_then (payment_id_entry_count st pid) (\<lambda>n.
     and_then (traverse (\<lambda>i. decode_payment_id_entry (store_get st (PaymentIdEntry pid (of_nat i)))) [0..<unat n])
       (\<lambda>entries. Inr (hashes @ entries))))"

definition key_image_spent_at :: "chain_state \<Rightarrow> hash \<Rightarrow> chain_error + u32 option" where
  "key_image_spent_at st ki = u32_record ''key image record'' (store_get st (KeyImage ki))"

definition output_count_for_amount :: "chain_state \<Rightarrow> u64 \<Rightarrow> chain_error + u32" where
  "output_count_for_amount st amount =
     unwrap_or_zero (u32_record ''output count record'' (store_get st (OutputCount amount)))"

definition has_block :: "chain_state \<Rightarrow> hash \<Rightarrow> chain_error + bool" where
  "has_block st h =
     (if map_of (alt_blocks st) h \<noteq> None then Inr True
      else and_then (block_index_by_hash st h) (\<lambda>i. Inr (i \<noteq> None)))"

text \<open>The implementation of \<open>ChainAccess\<close> for \<open>ChainState\<close>.\<close>

definition key_image_spent :: "chain_state \<Rightarrow> hash \<Rightarrow> u64 \<Rightarrow> chain_error + bool" where
  "key_image_spent st ki index =
     and_then (key_image_spent_at st ki) (\<lambda>at. Inr (case at of Some at \<Rightarrow> ucast at \<le> index | None \<Rightarrow> False))"

definition key_output :: "chain_state \<Rightarrow> u64 \<Rightarrow> u64 \<Rightarrow> chain_error + output_record option" where
  "key_output st amount global_index =
     (if unat global_index \<ge> 2 ^ 32 then Inr None
      else case store_get st (OutputAt amount (ucast global_index)) of
        Some bs \<Rightarrow> and_then (output_record_decode bs) (\<lambda>r. Inr (Some r))
      | None \<Rightarrow> Inr None)"

definition key_outputs :: "chain_state \<Rightarrow> u64 \<Rightarrow> u64 list \<Rightarrow> chain_error + output_record option list" where
  "key_outputs st amount global_indexes = traverse (key_output st amount) global_indexes"

definition tip_info :: "chain_state \<Rightarrow> block_info option" where
  "tip_info st = (if recent st = [] then None else Some (last (recent st)))"

definition chain_access_of :: "chain_state \<Rightarrow> chain_access" where
  "chain_access_of st = \<lparr>ca_key_image_spent = key_image_spent st, ca_key_outputs = key_outputs st,
     ca_top_block_timestamp = (case tip_info st of Some i \<Rightarrow> bi_timestamp i | None \<Rightarrow> 0), ca_now = clock st\<rparr>"

section \<open>Windows\<close>

record chain_view =
  fork_index :: u32
  branch :: "block_info list"

definition main_chain :: "u32 \<Rightarrow> chain_view" where
  "main_chain t = \<lparr>fork_index = t, branch = []\<rparr>"

definition info_in_view :: "chain_state \<Rightarrow> chain_view \<Rightarrow> u32 \<Rightarrow> chain_error + block_info option" where
  "info_in_view st view index =
     (if index > fork_index view then
        let at = unat (index - fork_index view - 1) in
        Inr (if at < length (branch view) then Some (branch view ! at) else None)
      else block_info_at st index)"

definition info_or_missing :: "chain_state \<Rightarrow> chain_view \<Rightarrow> u32 \<Rightarrow> chain_error + block_info" where
  "info_or_missing st view index =
     and_then (info_in_view st view index) (ok_or (Corrupt ''block info is missing''))"

definition last_infos :: "chain_state \<Rightarrow> chain_view \<Rightarrow> nat \<Rightarrow> u32 \<Rightarrow> bool \<Rightarrow> chain_error + block_info list" where
  "last_infos st view n index use_genesis =
     (let from = unat index + 1 - n;
          from = (if \<not> use_genesis \<and> from = 0 then 1 else from)
      in traverse (\<lambda>i. info_or_missing st view (of_nat i)) [from..<Suc (unat index)])"

definition difficulty_window_indexes :: "u32 \<Rightarrow> u32 list" where
  "difficulty_window_indexes parent =
     (let next_version = block_major_version_for_index (ucast parent + 1);
          n = difficulty_blocks_count next_version (ucast parent);
          from = unat parent + 1 - n;
          from = (if from = 0 then 1 else from)
      in map of_nat [min from (unat parent + 1)..<Suc (unat parent)])"

definition difficulty_for_next_block_from :: "u32 \<Rightarrow> block_info list \<Rightarrow> panic + u64 option" where
  "difficulty_for_next_block_from parent wnd =
     (case next_difficulty (block_major_version_for_index (ucast parent + 1)) (ucast parent)
             (map bi_timestamp wnd) (map bi_cumulative_difficulty wnd) of
        Inl p \<Rightarrow> Inl p
      | Inr d \<Rightarrow> Inr (Option.bind d (\<lambda>d. if is_valid_difficulty d then Some d else None)))"

abbreviation (input) SIMNET_DIFFICULTY :: u64 where "SIMNET_DIFFICULTY \<equiv> 1"

definition difficulty_for_next_block ::
  "chain_state \<Rightarrow> chain_view \<Rightarrow> u32 \<Rightarrow> chain_error + (panic + u64 option)" where
  "difficulty_for_next_block st view parent =
     (if simnet (cfg st) then Inr (Inr (Some SIMNET_DIFFICULTY))
      else and_then (traverse (info_or_missing st view) (difficulty_window_indexes parent))
        (\<lambda>wnd. Inr (difficulty_for_next_block_from parent wnd)))"

definition timestamp_median :: "chain_state \<Rightarrow> chain_view \<Rightarrow> u32 \<Rightarrow> chain_error + u64 option" where
  "timestamp_median st view parent =
     (let n = timestamp_check_window (ucast parent + 1) in
      and_then (last_infos st view n parent True) (\<lambda>infos.
        Inr (if length infos < n then None else Some (median_value (map bi_timestamp infos)))))"

definition reward_size_median :: "chain_state \<Rightarrow> chain_view \<Rightarrow> u32 \<Rightarrow> chain_error + u64" where
  "reward_size_median st view parent =
     and_then (last_infos st view CRYPTONOTE_REWARD_BLOCKS_WINDOW parent True) (\<lambda>infos.
       Inr (median_value (map (\<lambda>i. ucast (bi_block_size i)) infos)))"

definition update_block_median_size :: "chain_state \<Rightarrow> (chain_error + unit) \<times> chain_state" where
  "update_block_median_size st =
     (case tip st of
        None \<Rightarrow> (Inr (), st\<lparr>median_size := of_nat (full_reward_zone (block_major_version_for_index 0))\<rparr>)
      | Some t \<Rightarrow>
          (case reward_size_median st (main_chain t) t of
             Inl e \<Rightarrow> (Inl e, st)
           | Inr m \<Rightarrow>
               let zone = of_nat (full_reward_zone (block_major_version_for_index (ucast t + 1)))
               in (Inr (), st\<lparr>median_size := max m zone\<rparr>)))"

text \<open>The pushes of the loop of \<open>reload_recent\<close> before an error are kept, as in the code.\<close>

fun reload_loop :: "chain_state \<Rightarrow> nat list \<Rightarrow> (chain_error + unit) \<times> chain_state" where
  "reload_loop st [] = (Inr (), st)"
| "reload_loop st (i # is) =
     (case and_then (ok_or (Corrupt ''block info is missing'') (store_get st (BlockInfoKey (of_nat i)))) block_info_decode of
        Inl e \<Rightarrow> (Inl e, st)
      | Inr info \<Rightarrow> reload_loop (st\<lparr>recent := recent st @ [info]\<rparr>) is)"

definition reload_recent :: "chain_state \<Rightarrow> (chain_error + unit) \<times> chain_state" where
  "reload_recent st =
     (let st = st\<lparr>recent := []\<rparr> in
      case tip st of
        None \<Rightarrow> (Inr (), st)
      | Some t \<Rightarrow> reload_loop st [unat t + 1 - recent_window (cfg st)..<Suc (unat t)])"

section \<open>Applying a block\<close>

text \<open>
  \<open>push_outputs\<close>: the operations, the counters and the references so far. A counter is the next global index of its
  amount; the hash map of counters is an association list, whose order only decides the order of writes to distinct keys.
\<close>

type_synonym outputs_state = "write_op list \<times> (u64 \<times> u32) list \<times> (u64 \<times> u32) list"

fun push_outputs ::
  "chain_state \<Rightarrow> u32 \<Rightarrow> u64 \<Rightarrow> hash \<Rightarrow> nat \<Rightarrow> tx_output list \<Rightarrow> outputs_state \<Rightarrow> chain_error + outputs_state" where
  "push_outputs st index unlock txh i [] acc = Inr acc"
| "push_outputs st index unlock txh i (t # ts) (ops, counts, refs) =
     (let amount = out_amount t in
      and_then (case map_of counts amount of Some n \<Rightarrow> Inr n | None \<Rightarrow> output_count_for_amount st amount) (\<lambda>n.
        let out_rec = \<lparr>or_public_key = out_key t, or_unlock_time = unlock, or_transaction_hash = txh,
                  or_output_index = of_nat i, or_block_index = index\<rparr>
        in push_outputs st index unlock txh (Suc i) ts
             (ops @ [(key_bytes (OutputAt amount n), Some (output_record_encode out_rec))],
              AList.update amount (n + 1) counts, refs @ [(amount, n)])))"

fun push_all_outputs ::
  "chain_state \<Rightarrow> u32 \<Rightarrow> (transaction \<times> hash) list \<Rightarrow> outputs_state \<Rightarrow> chain_error + outputs_state" where
  "push_all_outputs st index [] acc = Inr acc"
| "push_all_outputs st index ((tx, h) # rest) acc =
     and_then (push_outputs st index (unlock_time (prefix tx)) h 0 (outputs (prefix tx)) acc) (push_all_outputs st index rest)"

definition payment_refs_of :: "(transaction \<times> hash) list \<Rightarrow> (hash \<times> hash) list" where
  "payment_refs_of txs = List.map_filter (\<lambda>(tx, h).
     case we_payment_id (parse_extra_wallet (extra (prefix tx))) of Some (Long i) \<Rightarrow> Some (i, h) | _ \<Rightarrow> None) txs"

fun push_payment_ids ::
  "chain_state \<Rightarrow> (hash \<times> hash) list \<Rightarrow> write_op list \<times> (hash \<times> u32) list \<Rightarrow>
   chain_error + write_op list \<times> (hash \<times> u32) list" where
  "push_payment_ids st [] acc = Inr acc"
| "push_payment_ids st ((pid, h) # refs) (ops, counts) =
     and_then (case map_of counts pid of Some n \<Rightarrow> Inr n | None \<Rightarrow> payment_id_entry_count st pid) (\<lambda>n.
       push_payment_ids st refs
         (ops @ [(key_bytes (PaymentIdEntry pid n), Some h)], AList.update pid (n + 1) counts))"

definition u32_value :: "u32 \<Rightarrow> bytes option" where
  "u32_value v = Some (to_le 4 v)"

definition push_ops ::
  "(bytes \<Rightarrow> hash) \<Rightarrow> chain_state \<Rightarrow> u32 \<Rightarrow> block_template \<Rightarrow> bytes \<Rightarrow> bytes list \<Rightarrow> transaction list \<Rightarrow>
   block_info \<Rightarrow> validator_state \<Rightarrow> chain_error + write_op list" where
  "push_ops H st index block block_blob tx_blobs transactions info spent =
     (case tx_hash H (bt_base_transaction block) of
        Inl _ \<Rightarrow> Inl (Rule (DeserializationFailed ''coinbase hash''))
      | Inr coinbase_hash \<Rightarrow>
          let tx_hashes = coinbase_hash # bt_transaction_hashes block;
              txs = zip transactions (bt_transaction_hashes block);
              images = sorted_list_of_set spent;
              payment_refs = payment_refs_of txs
          in
          and_then (push_all_outputs st index ((bt_base_transaction block, coinbase_hash) # txs) ([], [], []))
            (\<lambda>(output_ops, counts, refs).
          and_then (push_payment_ids st payment_refs ([], [])) (\<lambda>(payment_ops, entry_counts).
            Inr (output_ops @
              map (\<lambda>(amount, n). (key_bytes (OutputCount amount), u32_value n)) counts @
              map (\<lambda>ki. (key_bytes (KeyImage ki), u32_value index)) images @
              (if images \<noteq> [] then [(key_bytes (BlockKeyImages index), Some (encode_hashes images))] else []) @
              [(key_bytes (BlockInfoKey index), Some (block_info_encode info)),
               (key_bytes (HashToIndex (bi_block_hash info)), u32_value index),
               (key_bytes (BlockTxHashes index), Some (encode_hashes tx_hashes))] @
              map (\<lambda>h. (key_bytes (TransactionIndex h), u32_value index)) tx_hashes @
              [(key_bytes (BlockOutputs index), Some (encode_output_refs refs))] @
              (if payment_refs \<noteq> [] then
                 payment_ops @
                 map (\<lambda>(pid, n). (key_bytes (PaymentIdCount pid), u32_value n)) entry_counts @
                 [(key_bytes (BlockPaymentIds index), Some (encode_payment_id_refs payment_refs))]
               else []) @
              (if keeps_body (cfg st) index index
               then [(key_bytes (RawBlock index), Some (encode_raw_block block_blob tx_blobs))] else []) @
              (case prune_depth (cfg st) of
                 Some depth \<Rightarrow> if depth \<le> index then [(key_bytes (RawBlock (index - depth)), None)] else []
               | None \<Rightarrow> []) @
              (if index \<ge> unwind_history (cfg st)
               then [(key_bytes (BlockOutputs (index - unwind_history (cfg st))), None)] else []) @
              [(key_bytes (Meta ''version''), u32_value STATE_SCHEMA_VERSION),
               (key_bytes (Meta ''tip''), u32_value index)]))))"

text \<open>The tail of \<open>push_block\<close>, after its one write.\<close>

definition pushed :: "u32 \<Rightarrow> block_info \<Rightarrow> write_op list \<Rightarrow> chain_state \<Rightarrow> chain_state" where
  "pushed index info ops st =
     st\<lparr>kv := write_batch ops (kv st), tip := Some index,
        recent := (let r = recent st @ [info] in drop (length r - recent_window (cfg st)) r)\<rparr>"

definition push_block ::
  "(bytes \<Rightarrow> hash) \<Rightarrow> u32 \<Rightarrow> block_template \<Rightarrow> bytes \<Rightarrow> bytes list \<Rightarrow> transaction list \<Rightarrow> block_info \<Rightarrow>
   validator_state \<Rightarrow> chain_state \<Rightarrow> (chain_error + unit) \<times> chain_state" where
  "push_block H index block block_blob tx_blobs transactions info spent st =
     (case push_ops H st index block block_blob tx_blobs transactions info spent of
        Inl e \<Rightarrow> (Inl e, st)
      | Inr ops \<Rightarrow> update_block_median_size (pushed index info ops st))"

section \<open>Taking blocks off\<close>

lemma unat_mid:
  fixes low high :: u32
  assumes "low \<le> high"
  shows "unat (low + (high - low) div 2) = unat low + (unat high - unat low) div 2"
proof -
  have d: "unat ((high - low) div 2) = (unat high - unat low) div 2"
    using assms by (simp add: unat_div unat_sub)
  have "unat low \<le> unat high" using assms by (simp add: word_le_nat_alt)
  then have "unat low + (unat high - unat low) div 2 \<le> unat high" by linarith
  then have "unat low + (unat high - unat low) div 2 < 2 ^ LENGTH(32)" by (rule le_less_trans) (rule unsigned_less)
  then show ?thesis by (simp add: unat_add_small d)
qed

lemma unat_Suc_less: "unat v < unat w \<Longrightarrow> unat (v + 1) = unat v + 1" for v w :: u32
  using unat_u32_less [of w] by (simp add: unat_add_small del: unat_u32_less)

text \<open>The binary search of \<open>first_output_from_block\<close> between \<open>low\<close> and \<open>high\<close>.\<close>

function first_output_search :: "chain_state \<Rightarrow> u64 \<Rightarrow> u32 \<Rightarrow> u32 \<Rightarrow> u32 \<Rightarrow> chain_error + u32" where
  "first_output_search st amount index low high =
     (if low < high then
        let mid = low + (high - low) div 2 in
        and_then (key_output st amount (ucast mid)) (\<lambda>r.
          case r of
            None \<Rightarrow> Inl (Corrupt ''no output record below its count'')
          | Some r \<Rightarrow>
              if or_block_index r \<ge> index then first_output_search st amount index low mid
              else first_output_search st amount index (mid + 1) high)
      else Inr low)"
  by pat_completeness auto
termination
proof (relation "measure (\<lambda>(st, amount, index, low, high). unat high - unat low)", goal_cases)
  case (2 st amount index low high mid r)
  then have "unat mid = unat low + (unat high - unat low) div 2" by (simp add: unat_mid)
  then show ?case using 2(1) by (simp add: word_less_nat_alt)
next
  case (3 st amount index low high mid r)
  then have mid: "unat mid = unat low + (unat high - unat low) div 2" by (simp add: unat_mid)
  then have "unat mid < unat high" using 3(1) by (simp add: word_less_nat_alt)
  then have "unat (mid + 1) = unat mid + 1" using unat_Suc_less by blast
  then show ?case using 3(1) mid by (simp add: word_less_nat_alt)
qed simp

declare first_output_search.simps [simp del]

definition first_output_from_block :: "chain_state \<Rightarrow> u64 \<Rightarrow> u32 \<Rightarrow> chain_error + u32" where
  "first_output_from_block st amount index =
     and_then (output_count_for_amount st amount) (first_output_search st amount index 0)"

definition tx_output_refs :: "transaction \<Rightarrow> hash \<Rightarrow> (u64 \<times> hash \<times> u16) list" where
  "tx_output_refs tx h = map (\<lambda>(i, t). (out_amount t, h, of_nat i)) (enumerate 0 (outputs (prefix tx)))"

text \<open>The outputs a stored body creates, in creation order.\<close>

definition body_outputs :: "(bytes \<Rightarrow> hash) \<Rightarrow> bytes \<times> bytes list \<Rightarrow> chain_error + (u64 \<times> hash \<times> u16) list" where
  "body_outputs H = (\<lambda>(block_blob, tx_blobs).
     case block_from_bytes block_blob of
       Inl _ \<Rightarrow> Inl (Corrupt ''the block does not parse'')
     | Inr block \<Rightarrow>
         (case tx_hash H (bt_base_transaction block) of
            Inl _ \<Rightarrow> Inl (Corrupt ''the coinbase does not hash'')
          | Inr coinbase_hash \<Rightarrow>
              and_then (traverse (\<lambda>(blob, h).
                  case tx_from_bytes blob of
                    Inl _ \<Rightarrow> Inl (Corrupt ''a transaction does not parse'')
                  | Inr tx \<Rightarrow> Inr (tx_output_refs tx h)) (zip tx_blobs (bt_transaction_hashes block)))
                (\<lambda>rest. Inr (tx_output_refs (bt_base_transaction block) coinbase_hash @ concat rest))))"

fun rebuild_refs ::
  "chain_state \<Rightarrow> u32 \<Rightarrow> (u64 \<times> hash \<times> u16) list \<Rightarrow> (u64 \<times> u32) list \<Rightarrow> (u64 \<times> u32) list \<Rightarrow>
   chain_error + (u64 \<times> u32) list" where
  "rebuild_refs st index [] nexts refs = Inr refs"
| "rebuild_refs st index ((amount, h, i) # rest) nexts refs =
     and_then (case map_of nexts amount of Some g \<Rightarrow> Inr g | None \<Rightarrow> first_output_from_block st amount index) (\<lambda>g.
     and_then (key_output st amount (ucast g)) (\<lambda>r.
       if (case r of None \<Rightarrow> False
           | Some r \<Rightarrow> or_block_index r = index \<and> or_transaction_hash r = h \<and> or_output_index r = i)
       then rebuild_refs st index rest (AList.update amount (g + 1) nexts) (refs @ [(amount, g)])
       else Inl (Corrupt ''an output is not where the order of the chain puts it'')))"

definition block_output_refs :: "(bytes \<Rightarrow> hash) \<Rightarrow> chain_state \<Rightarrow> u32 \<Rightarrow> chain_error + (u64 \<times> u32) list option" where
  "block_output_refs H st index =
     (case store_get st (BlockOutputs index) of
        Some bs \<Rightarrow> and_then (decode_output_refs bs) (\<lambda>r. Inr (Some r))
      | None \<Rightarrow>
          if (case tip st of None \<Rightarrow> True | Some t \<Rightarrow> index > t) then Inr None
          else case store_get st (RawBlock index) of
            None \<Rightarrow> Inr None
          | Some bs \<Rightarrow>
              and_then (decode_raw_block bs) (\<lambda>body.
              and_then (body_outputs H body) (\<lambda>outs.
              and_then (rebuild_refs st index outs [] []) (\<lambda>r. Inr (Some r)))))"

record unwind_scratch =
  lowest_output :: "(u64 \<times> u32) list"
  entry_counts :: "(hash \<times> u32) list"
  legacy :: "(hash \<times> hash list) list"

definition scratch_new :: unwind_scratch where
  "scratch_new = \<lparr>lowest_output = [], entry_counts = [], legacy = []\<rparr>"

definition finish_scratch :: "unwind_scratch \<Rightarrow> write_op list" where
  "finish_scratch sc =
     map (\<lambda>(amount, n). (key_bytes (OutputCount amount), if n = 0 then None else u32_value n)) (lowest_output sc) @
     map (\<lambda>(pid, n). (key_bytes (PaymentIdCount pid), if n > 0 then u32_value n else None)) (entry_counts sc) @
     map (\<lambda>(pid, l). (key_bytes (PaymentIdKey pid), if l = [] then None else Some (encode_hashes l))) (legacy sc)"

text \<open>The payment ids a block contributed, last first.\<close>

fun unwind_payment_ids ::
  "chain_state \<Rightarrow> (hash \<times> hash) list \<Rightarrow> unwind_scratch \<Rightarrow> write_op list \<Rightarrow> chain_error + unwind_scratch \<times> write_op list" where
  "unwind_payment_ids st [] sc ops = Inr (sc, ops)"
| "unwind_payment_ids st ((pid, h) # refs) sc ops =
     and_then (case map_of (entry_counts sc) pid of Some n \<Rightarrow> Inr n | None \<Rightarrow> payment_id_entry_count st pid) (\<lambda>n.
       if n > 0 then
         and_then (decode_payment_id_entry (store_get st (PaymentIdEntry pid (n - 1)))) (\<lambda>e.
           if e \<noteq> h then Inl (Corrupt ''payment-id index does not end with the entry the block added'')
           else unwind_payment_ids st refs (sc\<lparr>entry_counts := AList.update pid (n - 1) (entry_counts sc)\<rparr>)
             (ops @ [(key_bytes (PaymentIdEntry pid (n - 1)), None)]))
       else
         and_then (case map_of (legacy sc) pid of Some l \<Rightarrow> Inr l | None \<Rightarrow> legacy_payment_id_list st pid) (\<lambda>l.
           if l = [] \<or> last l \<noteq> h then Inl (Corrupt ''payment-id index does not end with the entry the block added'')
           else unwind_payment_ids st refs (sc\<lparr>legacy := AList.update pid (butlast l) (legacy sc)\<rparr>) ops))"

definition note_lowest :: "u64 \<times> u32 \<Rightarrow> (u64 \<times> u32) list \<Rightarrow> (u64 \<times> u32) list" where
  "note_lowest = (\<lambda>(amount, g) low.
     AList.update amount (case map_of low amount of None \<Rightarrow> g | Some e \<Rightarrow> min e g) low)"

definition unwind_ops ::
  "(bytes \<Rightarrow> hash) \<Rightarrow> chain_state \<Rightarrow> u32 \<Rightarrow> unwind_scratch \<Rightarrow> write_op list \<Rightarrow> chain_error + unwind_scratch \<times> write_op list" where
  "unwind_ops H st index sc ops =
     and_then (block_info_at st index) (\<lambda>info.
     and_then (ok_or (Corrupt ''block info is missing'') info) (\<lambda>info.
     and_then (case store_get st (BlockKeyImages index) of
         None \<Rightarrow> Inr ops
       | Some bs \<Rightarrow> and_then (decode_hashes bs) (\<lambda>images.
           Inr (ops @ map (\<lambda>ki. (key_bytes (KeyImage ki), None)) images @ [(key_bytes (BlockKeyImages index), None)])))
       (\<lambda>ops.
     and_then (case store_get st (BlockPaymentIds index) of
         None \<Rightarrow> Inr (sc, ops)
       | Some bs \<Rightarrow>
           and_then (decode_payment_id_refs bs) (\<lambda>refs.
           and_then (unwind_payment_ids st (rev refs) sc ops) (\<lambda>(sc, ops).
             Inr (sc, ops @ [(key_bytes (BlockPaymentIds index), None)]))))
       (\<lambda>(sc, ops).
     and_then (block_output_refs H st index) (\<lambda>refs.
     and_then (ok_or (Rule (ReorganisationUnavailable index)) refs) (\<lambda>refs.
     and_then (block_transaction_hashes st index) (\<lambda>tx_hashes.
       Inr (sc\<lparr>lowest_output := fold note_lowest refs (lowest_output sc)\<rparr>,
         ops @ map (\<lambda>(amount, g). (key_bytes (OutputAt amount g), None)) refs @
         [(key_bytes (BlockOutputs index), None), (key_bytes (BlockInfoKey index), None),
          (key_bytes (HashToIndex (bi_block_hash info)), None)] @
         map (\<lambda>h. (key_bytes (TransactionIndex h), None)) tx_hashes @
         [(key_bytes (BlockTxHashes index), None), (key_bytes (RawBlock index), None)]))))))))"

text \<open>The steps every unwind ends with, once its batch is written.\<close>

definition settle_tip :: "u32 option \<Rightarrow> write_op list \<Rightarrow> chain_state \<Rightarrow> (chain_error + unit) \<times> chain_state" where
  "settle_tip t ops st =
     (case reload_recent (st\<lparr>kv := write_batch ops (kv st), tip := t\<rparr>) of
        (Inl e, st) \<Rightarrow> (Inl e, st)
      | (Inr _, st) \<Rightarrow> update_block_median_size st)"

definition unwind_block :: "(bytes \<Rightarrow> hash) \<Rightarrow> u32 \<Rightarrow> chain_state \<Rightarrow> (chain_error + unit) \<times> chain_state" where
  "unwind_block H index st =
     (if tip st \<noteq> Some index then (Inl (Corrupt ''unwind of a block that is not the tip''), st)
      else case unwind_ops H st index scratch_new [] of
        Inl e \<Rightarrow> (Inl e, st)
      | Inr (sc, ops) \<Rightarrow>
          settle_tip (if index = 0 then None else Some (index - 1))
            (ops @ finish_scratch sc @ [(key_bytes (Meta ''tip''), if index = 0 then None else u32_value (index - 1))]) st)"

fun unwind_many ::
  "(bytes \<Rightarrow> hash) \<Rightarrow> chain_state \<Rightarrow> u32 list \<Rightarrow> unwind_scratch \<Rightarrow> write_op list \<Rightarrow> chain_error + unwind_scratch \<times> write_op list" where
  "unwind_many H st [] sc ops = Inr (sc, ops)"
| "unwind_many H st (i # is) sc ops =
     and_then (unwind_ops H st i sc ops) (\<lambda>(sc, ops). unwind_many H st is sc ops)"

definition restore_output_refs :: "(bytes \<Rightarrow> hash) \<Rightarrow> chain_state \<Rightarrow> u32 \<Rightarrow> u32 \<Rightarrow> chain_error + write_op list" where
  "restore_output_refs H st new_top old_tip =
     (let history = unat (unwind_history (cfg st)) in
      if unat old_tip < history then Inr []
      else
        let low = unat new_top + 1 - history;
            high = min (unat new_top) (unat old_tip - history)
        in and_then (traverse (\<lambda>i.
             let index = of_nat i in
             if store_get st (BlockOutputs index) \<noteq> None then Inr []
             else and_then (block_output_refs H st index) (\<lambda>refs.
               Inr (case refs of None \<Rightarrow> []
                 | Some refs \<Rightarrow> [(key_bytes (BlockOutputs index), Some (encode_output_refs refs))])))
             [low..<Suc high]) (\<lambda>opss. Inr (concat opss)))"

definition rewind_to :: "(bytes \<Rightarrow> hash) \<Rightarrow> u32 \<Rightarrow> chain_state \<Rightarrow> (chain_error + u32) \<times> chain_state" where
  "rewind_to H new_top st =
     (case tip st of
        None \<Rightarrow> (Inr 0, st)
      | Some t \<Rightarrow>
          if new_top \<ge> t then (Inr 0, st)
          else
            let lite = lite_start_height (cfg st) in
            if lite \<noteq> 0 \<and> new_top + 1 < lite then
              (Inl (Rule (ReorganisationBelowBodyFloor (new_top + 1) lite)), st)
            else
              (case and_then (unwind_many H st (map of_nat (rev [Suc (unat new_top)..<Suc (unat t)])) scratch_new [])
                 (\<lambda>(sc, ops). and_then (restore_output_refs H st new_top t) (\<lambda>restored.
                   Inr (ops @ finish_scratch sc @ restored @ [(key_bytes (Meta ''tip''), u32_value new_top)]))) of
                 Inl e \<Rightarrow> (Inl e, st)
               | Inr ops \<Rightarrow>
                   (case reload_recent (st\<lparr>kv := write_batch ops (kv st), tip := Some new_top, alt_blocks := [], unwound := []\<rparr>) of
                      (Inl e, st) \<Rightarrow> (Inl e, st)
                    | (Inr _, st) \<Rightarrow>
                        (case update_block_median_size st of
                           (Inl e, st) \<Rightarrow> (Inl e, st)
                         | (Inr _, st) \<Rightarrow> (Inr (t - new_top), st)))))"

end
