(* ===== verification/Chain_Unwind.thy ===== *)
theory Chain_Unwind
  imports Chain_Store
begin

text \<open>
  What the write batches of the stored chain do: keys never collide and sort by their numbers, the batch that takes a
  block off undoes the batch that put it on, and the references of a block whose record is gone are found again by
  binary search.
\<close>

section \<open>Keys\<close>

lemma length_to_be [simp]: "length (to_be n v) = n"
  by (simp add: to_be_def)

lemma to_le_inject: "LENGTH('a) \<le> 8 * n \<Longrightarrow> to_le n v = to_le n w \<longleftrightarrow> v = (w :: 'a::len word)"
  using from_le_to_le by metis

lemma to_be_inject: "LENGTH('a) \<le> 8 * n \<Longrightarrow> to_be n v = to_be n w \<longleftrightarrow> v = (w :: 'a::len word)"
  by (simp add: to_be_def to_le_inject)

lemma ascii_inject: "ascii s = ascii t \<longleftrightarrow> s = t"
proof -
  have "inj (\<lambda>c. of_nat (of_char c) :: u8)"
  proof (rule injI)
    fix a b assume "(of_nat (of_char a) :: u8) = of_nat (of_char b)"
    then have "(of_char a :: nat) mod 256 = of_char b mod 256" by (simp add: word_of_nat_eq_iff take_bit_eq_mod)
    then have "(of_char a :: nat) = of_char b" by (simp add: nat_of_char_less_256)
    then show "a = b" by simp
  qed
  then show ?thesis by (simp add: ascii_def inj_map_eq_map)
qed

lemma ascii_simps [simp]: "ascii [] = []" "ascii (c # s) = of_nat (of_char c) # ascii s"
  by (simp_all add: ascii_def)

lemma key_bytes_inject [simp]: "key_bytes k = key_bytes k' \<longleftrightarrow> k = k'"
  by (cases k; cases k'; simp add: to_be_inject ascii_inject)

lemma snoc_less_iff:
  "length xs = length ys \<Longrightarrow> xs @ [a] < ys @ [b] \<longleftrightarrow> xs < ys \<or> xs = ys \<and> a < (b :: 'a::linorder)"
  by (induction xs ys rule: list_induct2) auto

lemma div_mod_less_iff:
  "a div 256 < b div 256 \<or> a div 256 = b div 256 \<and> a mod 256 < b mod 256 \<longleftrightarrow> a < (b :: nat)"
proof -
  have "a = 256 * (a div 256) + a mod 256" "b = 256 * (b div 256) + b mod 256" "a mod 256 < 256" "b mod 256 < 256"
    by simp_all
  then show ?thesis by (cases "a div 256" "b div 256" rule: linorder_cases) linarith+
qed

lemma to_be_less: "unat v < 256 ^ n \<Longrightarrow> unat w < 256 ^ n \<Longrightarrow> to_be n v < to_be n w \<longleftrightarrow> v < w"
  for v w :: "'a::len word"
proof (induction n arbitrary: v w)
  case 0
  then show ?case by (simp add: to_be_def unat_eq_0 unsigned_eq_0_iff)
next
  case (Suc n)
  have d: "unat (drop_bit 8 x) = unat x div 256" for x :: "'a word" by (simp only: unat_drop_bit_eq) (simp add: drop_bit_eq_div)
  have u: "unat (ucast x :: u8) = unat x mod 256" for x :: "'a word"
    by (simp add: unsigned_ucast_eq take_bit_eq_mod)
  have IH: "to_be n (drop_bit 8 v) < to_be n (drop_bit 8 w) \<longleftrightarrow> drop_bit 8 v < drop_bit 8 w"
    using Suc.prems by (intro Suc.IH) (simp_all add: d less_mult_imp_div_less)
  have eq: "to_be n (drop_bit 8 v) = to_be n (drop_bit 8 w) \<longleftrightarrow> drop_bit 8 v = drop_bit 8 w"
  proof
    assume e: "to_be n (drop_bit 8 v) = to_be n (drop_bit 8 w)"
    show "drop_bit 8 v = drop_bit 8 w"
    proof (rule ccontr)
      assume "drop_bit 8 v \<noteq> drop_bit 8 w"
      then consider "drop_bit 8 v < drop_bit 8 w" | "drop_bit 8 w < drop_bit 8 v" by force
      moreover have "to_be n (drop_bit 8 w) < to_be n (drop_bit 8 v) \<longleftrightarrow> drop_bit 8 w < drop_bit 8 v"
        using Suc.prems by (intro Suc.IH) (simp_all add: d less_mult_imp_div_less)
      ultimately show False using IH e by cases auto
    qed
  qed simp
  have "to_be (Suc n) v < to_be (Suc n) w \<longleftrightarrow>
      unat v div 256 < unat w div 256 \<or> unat v div 256 = unat w div 256 \<and> unat v mod 256 < unat w mod 256"
    using IH eq by (simp add: to_be_def snoc_less_iff word_less_nat_alt word_unat_eq_iff d u)
  also have "\<dots> \<longleftrightarrow> unat v < unat w" by (rule div_mod_less_iff)
  finally show ?case by (simp add: word_less_nat_alt)
qed

section \<open>Batches\<close>

lemma write_batch_Cons: "write_batch (op # ops) m = write_batch ops (m(fst op := snd op))"
  by (cases op) simp

lemma write_batch_append: "write_batch (a @ b) m = write_batch b (write_batch a m)"
  by (induction a arbitrary: m) (simp_all add: write_batch_Cons)

lemma write_batch_other: "k \<notin> fst ` set ops \<Longrightarrow> write_batch ops m k = m k"
  by (induction ops arbitrary: m) (simp_all add: write_batch_Cons)

lemma write_batch_agree:
  "k \<in> fst ` set ops \<Longrightarrow> (\<And>v. (k, v) \<in> set ops \<Longrightarrow> v = w) \<Longrightarrow> write_batch ops m k = w"
proof (induction ops arbitrary: m)
  case (Cons op ops)
  show ?case
  proof (cases "k \<in> fst ` set ops")
    case True
    then show ?thesis using Cons by (simp add: write_batch_Cons)
  next
    case False
    then show ?thesis using Cons.prems by (auto simp: write_batch_Cons write_batch_other)
  qed
qed simp

section \<open>Numbering\<close>

text \<open>Outputs of an amount and entries of a payment id are numbered on from what is stored.\<close>

definition number :: "('k \<Rightarrow> u32) \<Rightarrow> 'k list \<Rightarrow> ('k \<times> u32) list" where
  "number f xs = map (\<lambda>j. (xs ! j, f (xs ! j) + of_nat (count_list (take j xs) (xs ! j)))) [0..<length xs]"

lemma number_Nil [simp]: "number f [] = []"
  by (simp add: number_def)

lemma number_snoc [simp]: "number f (xs @ [x]) = number f xs @ [(x, f x + of_nat (count_list xs x))]"
  by (auto simp: number_def nth_append intro!: map_cong)

lemma length_number [simp]: "length (number f xs) = length xs"
  by (simp add: number_def)

lemma map_fst_number [simp]: "map fst (number f xs) = xs"
  by (simp add: number_def comp_def map_nth)

lemma count_list_take_less:
  assumes "i < j" "j < length xs" "xs ! i = xs ! j"
  shows "count_list (take i xs) (xs ! i) < count_list (take j xs) (xs ! j)"
proof -
  have "take j xs = take i xs @ xs ! i # take (j - Suc i) (drop (Suc i) xs)"
    using assms take_add [of i "j - i" xs] by (simp add: Cons_nth_drop_Suc [symmetric] Suc_diff_Suc take_Cons')
  then show ?thesis using assms(3) by simp
qed

lemma count_list_le_length: "count_list xs x \<le> length xs"
  by (induction xs) auto

lemma number_inj:
  assumes "i < length xs" "j < length xs" "number f xs ! i = number f xs ! j" "length xs < 2 ^ 32"
  shows "i = j"
proof -
  have c: "count_list (take n xs) x < 2 ^ 32" for n x
    using count_list_le_length [of "take n xs" x] assms(4) by simp
  have e: "xs ! i = xs ! j" "(of_nat (count_list (take i xs) (xs ! i)) :: u32) = of_nat (count_list (take j xs) (xs ! j))"
    using assms(1-3) by (auto simp: number_def)
  then have "count_list (take i xs) (xs ! i) = count_list (take j xs) (xs ! j)"
    using c [of i "xs ! i"] c [of j "xs ! j"] by (simp add: word_of_nat_eq_iff take_bit_nat_eq_self)
  then show ?thesis using count_list_take_less [of i j xs] count_list_take_less [of j i xs] assms(1,2) e(1)
    by (metis nat_neq_iff less_irrefl)
qed

lemma number_ge:
  assumes "(x, n) \<in> set (number f xs)" "unat (f x) + length xs < 2 ^ 32"
  shows "f x \<le> n"
proof -
  obtain j where "j < length xs" "n = f x + of_nat (count_list (take j xs) x)" using assms(1) by (auto simp: number_def)
  moreover have "count_list (take j xs) x \<le> length xs"
    using count_list_le_length [of "take j xs" x] by simp
  ultimately show ?thesis using assms(2) by (simp add: word_le_nat_alt unat_word_ariths unat_of_nat)
qed

lemma number_first: "x \<in> set xs \<Longrightarrow> (x, f x) \<in> set (number f xs)"
proof (induction xs rule: rev_induct)
  case (snoc y xs)
  then show ?case by (cases "x \<in> set xs") (auto simp: count_notin)
qed simp

lemma number_fst: "(x, n) \<in> set (number f xs) \<Longrightarrow> x \<in> set xs"
  by (auto simp: number_def)

text \<open>What a run of counters has counted.\<close>

definition counted :: "('k \<Rightarrow> u32) \<Rightarrow> 'k list \<Rightarrow> ('k \<times> u32) list \<Rightarrow> bool" where
  "counted f done counts \<longleftrightarrow>
     distinct (map fst counts) \<and>
     (\<forall>x. map_of counts x = (if x \<in> set done then Some (f x + of_nat (count_list done x)) else None))"

lemma counted_Nil: "counted f [] []"
  by (simp add: counted_def)

lemma counted_next:
  "counted f done counts \<Longrightarrow> (case map_of counts x of Some n \<Rightarrow> n | None \<Rightarrow> f x) = f x + of_nat (count_list done x)"
  by (auto simp: counted_def count_notin)

lemma counted_snoc:
  assumes "counted f done counts"
  shows "counted f (done @ [x]) (AList.update x (f x + of_nat (count_list done x) + 1) counts)"
  using assms by (auto simp: counted_def update_conv' AList.distinct_update add.assoc add.commute)

lemma and_then_simps [simp]: "and_then (Inr x) f = f x" "and_then (Inl e) f = Inl e"
  by (simp_all add: and_then_def)

text \<open>The operations, counters and references \<open>push_outputs\<close> has gathered after the outputs of amounts \<open>done\<close>.\<close>

definition outputs_pushed :: "(u64 \<Rightarrow> u32) \<Rightarrow> u64 list \<Rightarrow> outputs_state \<Rightarrow> bool" where
  "outputs_pushed f done = (\<lambda>(ops, counts, refs).
     counted f done counts \<and> refs = number f done \<and>
     map fst ops = map (\<lambda>(amount, n). key_bytes (OutputAt amount n)) refs)"

lemma push_outputs_pushed:
  assumes "\<And>a. output_count_for_amount st a = Inr (f a)" "outputs_pushed f done acc"
  shows "\<exists>acc'. push_outputs st index unlock txh i ts acc = Inr acc' \<and> outputs_pushed f (done @ map out_amount ts) acc'"
  using assms(2)
proof (induction ts arbitrary: i acc "done")
  case (Cons t ts)
  obtain ops counts refs where acc: "acc = (ops, counts, refs)" by (cases acc)
  let ?n = "f (out_amount t) + of_nat (count_list done (out_amount t))"
  have c: "counted f done counts" using Cons.prems acc by (simp add: outputs_pushed_def)
  have "(case map_of counts (out_amount t) of Some n \<Rightarrow> Inr n | None \<Rightarrow> output_count_for_amount st (out_amount t)) = Inr ?n"
    using counted_next [OF c, of "out_amount t"] assms(1) by (auto split: option.splits)
  then obtain r where "push_outputs st index unlock txh i (t # ts) acc =
      push_outputs st index unlock txh (Suc i) ts
        (ops @ [(key_bytes (OutputAt (out_amount t) ?n), r)], AList.update (out_amount t) (?n + 1) counts,
         refs @ [(out_amount t, ?n)])"
    using acc by (simp add: Let_def)
  moreover have "outputs_pushed f (done @ [out_amount t])
      (ops @ [(key_bytes (OutputAt (out_amount t) ?n), r)], AList.update (out_amount t) (?n + 1) counts,
       refs @ [(out_amount t, ?n)])"
    using Cons.prems acc counted_snoc [OF c, of "out_amount t"] by (simp add: outputs_pushed_def)
  ultimately show ?case using Cons.IH [of "done @ [out_amount t]"] by simp
qed simp

lemma push_all_outputs_pushed:
  assumes "\<And>a. output_count_for_amount st a = Inr (f a)" "outputs_pushed f done acc"
  shows "\<exists>acc'. push_all_outputs st index txs acc = Inr acc' \<and>
    outputs_pushed f (done @ concat (map (\<lambda>t. map out_amount (outputs (prefix (fst t)))) txs)) acc'"
  using assms(2)
proof (induction txs arbitrary: acc "done")
  case (Cons t txs)
  obtain tx h where t: "t = (tx, h)" by (cases t)
  obtain acc1 where "push_outputs st index (unlock_time (prefix tx)) h 0 (outputs (prefix tx)) acc = Inr acc1"
    "outputs_pushed f (done @ map out_amount (outputs (prefix tx))) acc1"
    using push_outputs_pushed [OF assms(1) Cons.prems] by blast
  then show ?case using Cons.IH [of "done @ map out_amount (outputs (prefix tx))" acc1] t by simp
qed simp

definition entries_pushed :: "(hash \<Rightarrow> u32) \<Rightarrow> (hash \<times> hash) list \<Rightarrow> write_op list \<times> (hash \<times> u32) list \<Rightarrow> bool" where
  "entries_pushed f done = (\<lambda>(ops, counts).
     counted f (map fst done) counts \<and>
     ops = map2 (\<lambda>(pid, n) (_, h). (key_bytes (PaymentIdEntry pid n), Some h)) (number f (map fst done)) done)"

lemma push_payment_ids_pushed:
  assumes "\<And>p. payment_id_entry_count st p = Inr (f p)" "entries_pushed f done acc"
  shows "\<exists>acc'. push_payment_ids st refs acc = Inr acc' \<and> entries_pushed f (done @ refs) acc'"
  using assms(2)
proof (induction refs arbitrary: acc "done")
  case (Cons r refs)
  obtain pid h where r: "r = (pid, h)" by (cases r)
  obtain ops counts where acc: "acc = (ops, counts)" by (cases acc)
  let ?n = "f pid + of_nat (count_list (map fst done) pid)"
  have c: "counted f (map fst done) counts" using Cons.prems acc by (simp add: entries_pushed_def)
  have "(case map_of counts pid of Some n \<Rightarrow> Inr n | None \<Rightarrow> payment_id_entry_count st pid) = Inr ?n"
    using counted_next [OF c, of pid] assms(1) by (auto split: option.splits)
  then have "push_payment_ids st (r # refs) acc =
      push_payment_ids st refs (ops @ [(key_bytes (PaymentIdEntry pid ?n), Some h)], AList.update pid (?n + 1) counts)"
    using acc r by simp
  moreover have "entries_pushed f (done @ [r])
      (ops @ [(key_bytes (PaymentIdEntry pid ?n), Some h)], AList.update pid (?n + 1) counts)"
    using Cons.prems acc r counted_snoc [OF c, of pid] by (simp add: entries_pushed_def)
  ultimately show ?case using Cons.IH [of "done @ [r]"] by simp
qed simp

section \<open>Undoing the numbering\<close>

lemma note_lowest_map: "map_of (note_lowest (a, g) low) =
    (map_of low)(a \<mapsto> (case map_of low a of None \<Rightarrow> g | Some e \<Rightarrow> min e g))"
  by (simp add: note_lowest_def update_conv')

lemma lowest_distinct: "distinct (map fst low) \<Longrightarrow> distinct (map fst (fold note_lowest refs low))"
  by (induction refs arbitrary: low) (auto simp: note_lowest_def AList.distinct_update)

lemma lowest_notin: "a \<notin> fst ` set refs \<Longrightarrow> map_of (fold note_lowest refs low) a = map_of low a"
  by (induction refs arbitrary: low) (auto simp: note_lowest_map)

lemma lowest_ge:
  "(\<And>a n. (a, n) \<in> set refs \<Longrightarrow> f a \<le> n) \<Longrightarrow> (\<And>a n. map_of low a = Some n \<Longrightarrow> f a \<le> n) \<Longrightarrow>
     map_of (fold note_lowest refs low) a = Some n \<Longrightarrow> f a \<le> (n :: u32)"
proof (induction refs arbitrary: low)
  case (Cons r refs)
  have "f b \<le> m" if "map_of (note_lowest r low) b = Some m" for b m
    using that Cons.prems(1) [of "fst r" "snd r"] Cons.prems(2)
    by (cases r) (auto simp: note_lowest_map split: if_splits option.splits)
  then show ?case using Cons.IH [of "note_lowest r low"] Cons.prems(1,3) by auto
qed simp

lemma lowest_le:
  "(a, n) \<in> set refs \<or> map_of low a = Some n \<Longrightarrow> \<exists>m. map_of (fold note_lowest refs low) a = Some m \<and> m \<le> n"
proof (induction refs arbitrary: low n)
  case (Cons r refs)
  show ?case
  proof (cases "(a, n) \<in> set refs")
    case True
    then show ?thesis using Cons.IH by simp
  next
    case False
    then have "\<exists>m. map_of (note_lowest r low) a = Some m \<and> m \<le> n"
      using Cons.prems by (cases r) (auto simp: note_lowest_map split: option.splits)
    then show ?thesis using Cons.IH [of _ "note_lowest r low"] by fastforce
  qed
qed simp

lemma lowest_number:
  assumes "\<And>x. unat (f x) + length xs < 2 ^ 32"
  shows "map_of (fold note_lowest (number f xs) []) x = (if x \<in> set xs then Some (f x) else None)"
proof (cases "x \<in> set xs")
  case True
  obtain m where m: "map_of (fold note_lowest (number f xs) []) x = Some m" "m \<le> f x"
    using lowest_le [of x "f x" "number f xs" "[]"] number_first [OF True] by blast
  have "f a \<le> n" if "(a, n) \<in> set (number f xs)" for a n using number_ge [OF that assms] .
  then have "f x \<le> m" using lowest_ge [of "number f xs" f "[]"] m(1) by force
  then show ?thesis using m True by simp
next
  case False
  then show ?thesis using lowest_notin [of x "number f xs" "[]"] number_fst by fastforce
qed

lemma unwind_payment_ids_undo:
  assumes "\<And>p. payment_id_entry_count st p = Inr (g p)" "\<And>p. unat (f p) + length refs < 2 ^ 32"
    and "\<And>p. (case map_of (entry_counts sc) p of Some n \<Rightarrow> n | None \<Rightarrow> g p) = f p + of_nat (count_list (map fst refs) p)"
    and "\<And>j. j < length refs \<Longrightarrow> length (snd (refs ! j)) = 32 \<and>
      store_get st (PaymentIdEntry (fst (refs ! j)) (snd (number f (map fst refs) ! j))) = Some (snd (refs ! j))"
    and "distinct (map fst (entry_counts sc))"
  shows "\<exists>sc' ops'. unwind_payment_ids st (rev refs) sc ops = Inr (sc', ops @ ops') \<and>
    legacy sc' = legacy sc \<and> lowest_output sc' = lowest_output sc \<and> distinct (map fst (entry_counts sc')) \<and>
    set ops' = (\<lambda>(p, n). (key_bytes (PaymentIdEntry p n), None)) ` set (number f (map fst refs)) \<and>
    (\<forall>p. map_of (entry_counts sc') p = (if p \<in> fst ` set refs then Some (f p) else map_of (entry_counts sc) p))"
  using assms(2-5)
proof (induction refs arbitrary: sc ops rule: rev_induct)
  case (snoc r refs)
  obtain pid h where r: "r = (pid, h)" by (cases r)
  let ?k = "of_nat (count_list (map fst refs) pid) :: u32"
  let ?n = "f pid + ?k"
  have cur: "(case map_of (entry_counts sc) p of Some n \<Rightarrow> n | None \<Rightarrow> g p) =
      f p + of_nat (count_list (map fst (refs @ [r])) p)" for p by (rule snoc.prems(2))
  have small: "unat (f pid) + count_list (map fst refs) pid + 1 < 2 ^ 32"
    using snoc.prems(1) [of pid] count_list_le_length [of "map fst refs" pid] by simp
  have n1: "(case map_of (entry_counts sc) pid of Some n \<Rightarrow> Inr n | None \<Rightarrow> payment_id_entry_count st pid) = Inr (?n + 1)"
    using cur [of pid] assms(1) r by (auto split: option.splits simp: add.assoc add.commute)
  have pos: "?n + 1 > 0"
    using small by (simp add: word_less_nat_alt unat_word_ariths unat_of_nat)
  have e: "store_get st (PaymentIdEntry pid ?n) = Some h" "length h = 32"
    using snoc.prems(3) [of "length refs"] r by (simp_all add: nth_append)
  let ?sc = "sc\<lparr>entry_counts := AList.update pid ?n (entry_counts sc)\<rparr>"
  let ?ops = "ops @ [(key_bytes (PaymentIdEntry pid ?n), None)]"
  have step: "unwind_payment_ids st (rev (refs @ [r])) sc ops = unwind_payment_ids st (rev refs) ?sc ?ops"
    using n1 pos e r by (simp add: decode_payment_id_entry_def)
  have "(case map_of (entry_counts ?sc) p of Some n \<Rightarrow> n | None \<Rightarrow> g p) = f p + of_nat (count_list (map fst refs) p)" for p
    using cur [of p] r by (simp add: update_conv')
  moreover have "length (snd (refs ! j)) = 32 \<and>
      store_get st (PaymentIdEntry (fst (refs ! j)) (snd (number f (map fst refs) ! j))) = Some (snd (refs ! j))"
    if "j < length refs" for j
    using snoc.prems(3) [of j] that by (simp add: nth_append)
  moreover have "unat (f p) + length refs < 2 ^ 32" for p using snoc.prems(1) [of p] by simp
  ultimately obtain sc' ops' where ih: "unwind_payment_ids st (rev refs) ?sc ?ops = Inr (sc', ?ops @ ops')"
    "legacy sc' = legacy ?sc" "lowest_output sc' = lowest_output ?sc" "distinct (map fst (entry_counts sc'))"
    "set ops' = (\<lambda>(p, n). (key_bytes (PaymentIdEntry p n), None)) ` set (number f (map fst refs))"
    "\<And>p. map_of (entry_counts sc') p = (if p \<in> fst ` set refs then Some (f p) else map_of (entry_counts ?sc) p)"
    using snoc.IH [of ?sc ?ops] snoc.prems(4) by (auto simp: AList.distinct_update)
  have "map_of (entry_counts sc') p = (if p \<in> fst ` set (refs @ [r]) then Some (f p) else map_of (entry_counts sc) p)" for p
    using ih(6) [of p] r by (auto simp: update_conv' count_notin)
  then show ?case
    using step ih r
    by (intro exI [of _ sc'] exI [of _ "(key_bytes (PaymentIdEntry pid ?n), None) # ops'"]) auto
qed auto

section \<open>The windows\<close>

text \<open>\<open>info\<close> gives the block infos of the main chain: the stored ones and the ones in memory are its values.\<close>

definition infos_ok :: "(u32 \<Rightarrow> block_info) \<Rightarrow> u32 \<Rightarrow> chain_state \<Rightarrow> bool" where
  "infos_ok info t st \<longleftrightarrow>
     tip st = Some t \<and>
     (\<forall>i \<le> t. store_get st (BlockInfoKey i) = Some (block_info_encode (info i)) \<and> length (bi_block_hash (info i)) = 32) \<and>
     recent st = map (\<lambda>i. info (of_nat i)) [unat t + 1 - recent_window (cfg st)..<Suc (unat t)]"

lemma block_info_at_ok:
  assumes "infos_ok info t st" "i \<le> t"
  shows "block_info_at st i = Inr (Some (info i))"
proof -
  let ?lo = "unat t + 1 - recent_window (cfg st)"
  have r: "recent st = map (\<lambda>i. info (of_nat i)) [?lo..<Suc (unat t)]" and t: "tip st = Some t"
    using assms(1) by (simp_all add: infos_ok_def)
  have d: "unat (t - i) = unat t - unat i" "unat i \<le> unat t"
    using assms(2) by (simp_all add: unat_sub word_le_nat_alt)
  show ?thesis
  proof (cases "unat (t - i) < length (recent st)")
    case True
    have len: "length (recent st) = Suc (unat t) - ?lo" by (simp add: r del: upt_Suc)
    have "recent st ! (length (recent st) - 1 - unat (t - i)) =
        info (of_nat ([?lo..<Suc (unat t)] ! (length (recent st) - 1 - unat (t - i))))"
      using True len by (simp add: r del: upt_Suc)
    also have "[?lo..<Suc (unat t)] ! (length (recent st) - 1 - unat (t - i)) =
        ?lo + (length (recent st) - 1 - unat (t - i))"
      using True len by (intro nth_upt) linarith
    also have "\<dots> = unat i" using True len d by linarith
    finally have "recent st ! (length (recent st) - 1 - unat (t - i)) = info i" by simp
    then show ?thesis using True t assms(2) by (simp add: block_info_at_def)
  next
    case False
    then show ?thesis using assms t by (simp add: block_info_at_def infos_ok_def block_info_roundtrip)
  qed
qed

lemma traverse_ok: "(\<And>x. x \<in> set xs \<Longrightarrow> f x = Inr (g x)) \<Longrightarrow> traverse f xs = Inr (map g xs)"
  by (induction xs) simp_all

definition main_median :: "(u32 \<Rightarrow> block_info) \<Rightarrow> u32 \<Rightarrow> u64" where
  "main_median info t =
     max (median_value (map (\<lambda>i. ucast (bi_block_size (info (of_nat i))))
            [unat t + 1 - CRYPTONOTE_REWARD_BLOCKS_WINDOW..<Suc (unat t)]))
       (of_nat (full_reward_zone (block_major_version_for_index (ucast t + 1))))"

lemma update_median_ok:
  assumes "infos_ok info t st"
  shows "update_block_median_size st = (Inr (), st\<lparr>median_size := main_median info t\<rparr>)"
proof -
  have t: "tip st = Some t" using assms by (simp add: infos_ok_def)
  have "info_or_missing st (main_chain t) (of_nat i) = Inr (info (of_nat i))" if "i \<le> unat t" for i
  proof -
    have "(of_nat i :: u32) \<le> t" using that by (simp add: word_le_nat_alt le_unat_uoi)
    then show ?thesis using block_info_at_ok [OF assms]
      by (simp add: info_or_missing_def info_in_view_def main_chain_def ok_or_def not_less)
  qed
  then have "traverse (\<lambda>i. info_or_missing st (main_chain t) (of_nat i)) [n..<Suc (unat t)] =
      Inr (map (\<lambda>i. info (of_nat i)) [n..<Suc (unat t)])" for n
    by (intro traverse_ok) (simp del: upt_Suc)
  then show ?thesis
    by (simp add: update_block_median_size_def t reward_size_median_def last_infos_def main_median_def comp_def
        del: upt_Suc)
qed

lemma reload_loop_ok:
  assumes "\<And>i. i \<in> set is \<Longrightarrow> store_get st (BlockInfoKey (of_nat i)) = Some (block_info_encode (info (of_nat i))) \<and>
    length (bi_block_hash (info (of_nat i))) = 32"
  shows "reload_loop st is = (Inr (), st\<lparr>recent := recent st @ map (\<lambda>i. info (of_nat i)) is\<rparr>)"
  using assms
proof (induction "is" arbitrary: st)
  case (Cons i "is")
  then show ?case using Cons.IH [of "st\<lparr>recent := recent st @ [info (of_nat i)]\<rparr>"]
    by (simp add: ok_or_def block_info_roundtrip store_get_def)
qed simp

lemma settle_tip_ok:
  assumes "infos_ok info t st" "cfg st' = cfg st"
    and "\<And>i. i \<le> t \<Longrightarrow> write_batch ops (kv st') (key_bytes (BlockInfoKey i)) = Some (block_info_encode (info i))"
  shows "settle_tip (Some t) ops st' =
    (Inr (), st'\<lparr>kv := write_batch ops (kv st'), tip := Some t, recent := recent st, median_size := main_median info t\<rparr>)"
proof -
  let ?st = "st'\<lparr>kv := write_batch ops (kv st'), tip := Some t\<rparr>"
  have len: "length (bi_block_hash (info i)) = 32" if "i \<le> t" for i using that assms(1) by (simp add: infos_ok_def)
  have le: "(of_nat i :: u32) \<le> t" if "i \<le> unat t" for i using that by (simp add: word_le_nat_alt le_unat_uoi)
  have "reload_recent ?st = (Inr (), ?st\<lparr>recent := recent st\<rparr>)"
    using reload_loop_ok [of "[unat t + 1 - recent_window (cfg st)..<Suc (unat t)]" "?st\<lparr>recent := []\<rparr>" info]
      assms(1,2) assms(3) [OF le] len [OF le]
    by (simp add: reload_recent_def store_get_def infos_ok_def Let_def less_Suc_eq_le del: upt_Suc)
  moreover have "infos_ok info t (?st\<lparr>recent := recent st\<rparr>)"
    using assms by (simp add: infos_ok_def store_get_def)
  ultimately show ?thesis by (simp add: settle_tip_def update_median_ok)
qed

lemma drop_window:
  assumes "xs = map f [n + 1 - w..<Suc n]" "0 < w"
  shows "(let r = xs @ [f (Suc n)] in drop (length r - w) r) = map f [n + 2 - w..<Suc (Suc n)]"
proof -
  have r: "xs @ [f (Suc n)] = map f [n + 1 - w..<Suc (Suc n)]" using assms(1) by simp
  have "n + 1 - w + (Suc (Suc n) - (n + 1 - w) - w) = n + 2 - w" using assms(2) by linarith
  then show ?thesis
    unfolding Let_def r by (simp only: drop_map length_map drop_upt length_upt)
qed

lemma infos_ok_pushed:
  assumes "infos_ok info t st" "unat t + 1 < 2 ^ 32" "0 < recent_window (cfg st)" "length (bi_block_hash new) = 32"
    and "\<And>i. i \<le> t \<Longrightarrow> write_batch ops (kv st) (key_bytes (BlockInfoKey i)) = store_get st (BlockInfoKey i)"
    and "write_batch ops (kv st) (key_bytes (BlockInfoKey (t + 1))) = Some (block_info_encode new)"
  shows "infos_ok (info(t + 1 := new)) (t + 1) (pushed (t + 1) new ops st)"
proof -
  let ?info = "info(t + 1 := new)"
  have u: "unat (t + 1) = Suc (unat t)" using assms(2) by (simp add: unat_add_small)
  have of: "of_nat (Suc (unat t)) = t + 1" by (simp add: add.commute)
  have neq: "of_nat i \<noteq> t + 1" if "i \<le> unat t" for i
    using that u by (metis Suc_n_not_le_n le_unat_uoi)
  have "recent st = map (\<lambda>i. ?info (of_nat i)) [unat t + 1 - recent_window (cfg st)..<Suc (unat t)]"
    using assms(1) neq by (auto simp: infos_ok_def simp del: upt_Suc)
  from drop_window [OF this assms(3)] have "recent (pushed (t + 1) new ops st) =
      map (\<lambda>i. ?info (of_nat i)) [unat (t + 1) + 1 - recent_window (cfg st)..<Suc (unat (t + 1))]"
    unfolding u by (simp add: pushed_def of del: upt_Suc of_nat_Suc)
  moreover have "i \<le> t \<or> i = t + 1" if "i \<le> t + 1" for i
    using that u by (auto simp: word_le_nat_alt word_unat_eq_iff le_Suc_eq)
  moreover have "i \<noteq> t + 1" if "i \<le> t" for i using that u by (auto simp: word_le_nat_alt)
  ultimately show ?thesis
    using assms by (auto simp: infos_ok_def pushed_def store_get_def)
qed

declare key_bytes.simps [simp del]

section \<open>The two batches\<close>

text \<open>A stored counter and the entries below it.\<close>

definition numbered :: "(u32 \<Rightarrow> bytes option) \<Rightarrow> bytes option \<Rightarrow> u32 \<Rightarrow> bool" where
  "numbered entry cnt n \<longleftrightarrow> cnt = (if n = 0 then None else u32_value n) \<and> (\<forall>g. entry g \<noteq> None \<longleftrightarrow> g < n)"

definition outputs_numbered :: "chain_state \<Rightarrow> (u64 \<Rightarrow> u32) \<Rightarrow> bool" where
  "outputs_numbered st f \<longleftrightarrow>
     (\<forall>a. numbered (\<lambda>g. store_get st (OutputAt a g)) (store_get st (OutputCount a)) (f a))"

definition entries_numbered :: "chain_state \<Rightarrow> (hash \<Rightarrow> u32) \<Rightarrow> bool" where
  "entries_numbered st f \<longleftrightarrow>
     (\<forall>p. numbered (\<lambda>n. store_get st (PaymentIdEntry p n)) (store_get st (PaymentIdCount p)) (f p))"

lemma u32_record_value: "u32_record what (u32_value n) = Inr (Some n)"
  by (simp add: u32_record_def u32_value_def)

lemma output_count_numbered: "outputs_numbered st f \<Longrightarrow> output_count_for_amount st a = Inr (f a)"
  by (auto simp: outputs_numbered_def numbered_def output_count_for_amount_def unwrap_or_zero_def u32_record_value
      u32_record_def [of _ None])

lemma entry_count_numbered: "entries_numbered st f \<Longrightarrow> payment_id_entry_count st p = Inr (f p)"
  by (auto simp: entries_numbered_def numbered_def payment_id_entry_count_def unwrap_or_zero_def u32_record_value
      u32_record_def [of _ None])

definition block_amounts :: "block_template \<Rightarrow> transaction list \<Rightarrow> u64 list" where
  "block_amounts block txs =
     concat (map (\<lambda>t. map out_amount (outputs (prefix (fst t))))
       ((bt_base_transaction block, []) # zip txs (bt_transaction_hashes block)))"

text \<open>What \<open>push_ops\<close> writes, by its parts.\<close>

definition block_ops ::
  "write_op list \<Rightarrow> (u64 \<times> u32) list \<Rightarrow> (u64 \<times> u32) list \<Rightarrow> write_op list \<Rightarrow> (hash \<times> u32) list \<Rightarrow> (hash \<times> hash) list \<Rightarrow>
   hash list \<Rightarrow> hash list \<Rightarrow> u32 \<Rightarrow> block_info \<Rightarrow> bytes \<Rightarrow> config \<Rightarrow> write_op list" where
  "block_ops output_ops counts refs payment_ops ecounts prefs images tx_hashes index info body cf =
     output_ops @
     map (\<lambda>(amount, n). (key_bytes (OutputCount amount), u32_value n)) counts @
     map (\<lambda>ki. (key_bytes (KeyImage ki), u32_value index)) images @
     (if images \<noteq> [] then [(key_bytes (BlockKeyImages index), Some (encode_hashes images))] else []) @
     [(key_bytes (BlockInfoKey index), Some (block_info_encode info)),
      (key_bytes (HashToIndex (bi_block_hash info)), u32_value index),
      (key_bytes (BlockTxHashes index), Some (encode_hashes tx_hashes))] @
     map (\<lambda>h. (key_bytes (TransactionIndex h), u32_value index)) tx_hashes @
     [(key_bytes (BlockOutputs index), Some (encode_output_refs refs))] @
     (if prefs \<noteq> [] then
        payment_ops @
        map (\<lambda>(pid, n). (key_bytes (PaymentIdCount pid), u32_value n)) ecounts @
        [(key_bytes (BlockPaymentIds index), Some (encode_payment_id_refs prefs))]
      else []) @
     (if keeps_body cf index index then [(key_bytes (RawBlock index), Some body)] else []) @
     (case prune_depth cf of
        Some depth \<Rightarrow> if depth \<le> index then [(key_bytes (RawBlock (index - depth)), None)] else []
      | None \<Rightarrow> []) @
     (if index \<ge> unwind_history cf then [(key_bytes (BlockOutputs (index - unwind_history cf)), None)] else []) @
     [(key_bytes (Meta ''version''), u32_value STATE_SCHEMA_VERSION), (key_bytes (Meta ''tip''), u32_value index)]"

lemma push_ops_parts:
  assumes "outputs_numbered st f" "entries_numbered st g" "tx_hash H (bt_base_transaction block) = Inr ch"
    and "prefs = payment_refs_of (zip txs (bt_transaction_hashes block))"
  shows "\<exists>output_ops counts payment_ops ecounts.
    push_ops H st index block blob blobs txs info spent = Inr (block_ops output_ops counts
      (number f (block_amounts block txs)) payment_ops ecounts prefs (sorted_list_of_set spent)
      (ch # bt_transaction_hashes block) index info (encode_raw_block blob blobs) (cfg st)) \<and>
    outputs_pushed f (block_amounts block txs) (output_ops, counts, number f (block_amounts block txs)) \<and>
    entries_pushed g prefs (payment_ops, ecounts)"
proof -
  have "outputs_pushed f [] ([], [], [])" by (simp add: outputs_pushed_def counted_Nil)
  then obtain oo counts refs where o1: "push_all_outputs st index
      ((bt_base_transaction block, ch) # zip txs (bt_transaction_hashes block)) ([], [], []) = Inr (oo, counts, refs)"
    and o2: "outputs_pushed f (block_amounts block txs) (oo, counts, refs)"
    using push_all_outputs_pushed [OF output_count_numbered [OF assms(1)], of "[]" "([], [], [])" index
        "(bt_base_transaction block, ch) # zip txs (bt_transaction_hashes block)"]
    by (auto simp: block_amounts_def)
  have "entries_pushed g [] ([], [])" by (simp add: entries_pushed_def counted_Nil)
  then obtain po ec where p: "push_payment_ids st prefs ([], []) = Inr (po, ec)" "entries_pushed g prefs (po, ec)"
    using push_payment_ids_pushed [OF entry_count_numbered [OF assms(2)], of "[]" "([], [])" prefs] by auto
  have "refs = number f (block_amounts block txs)" using o2 by (simp add: outputs_pushed_def)
  then show ?thesis
    using o1 o2 p assms(3,4)
    by (intro exI [of _ oo] exI [of _ counts] exI [of _ po] exI [of _ ec])
      (simp add: push_ops_def block_ops_def Let_def del: push_all_outputs.simps)
qed

lemma write_twice:
  assumes "list_all (\<lambda>(k, v). k \<in> E \<or> v = m k) ops2" "list_all (\<lambda>(k, v). k \<in> E \<or> k \<in> fst ` set ops2) ops" "k \<notin> E"
  shows "write_batch ops2 (write_batch ops m) k = m k"
proof (cases "k \<in> fst ` set ops2")
  case True
  then show ?thesis using assms(1,3) by (intro write_batch_agree) (auto simp: list_all_iff)
next
  case False
  then have "k \<notin> fst ` set ops" using assms(2,3) by (auto simp: list_all_iff)
  then show ?thesis using False by (simp add: write_batch_other)
qed

lemma write_map_other:
  "\<forall>x \<in> set xs. g x \<noteq> sk \<Longrightarrow>
     write_batch (map (\<lambda>x. (key_bytes (g x), v x)) xs) m (key_bytes sk) = m (key_bytes sk)"
  by (intro write_batch_other) auto

lemma write_pairs_other:
  "\<forall>a. g a \<noteq> sk \<Longrightarrow>
     write_batch (map (\<lambda>(a, n). (key_bytes (g a), v n)) xs) m (key_bytes sk) = m (key_bytes sk)"
  by (intro write_batch_other) auto

lemma write_counts:
  "distinct (map fst ec) \<Longrightarrow>
     write_batch (map (\<lambda>(q, n). (key_bytes (PaymentIdCount q), v n)) ec) m (key_bytes (PaymentIdCount p)) =
       (case map_of ec p of Some n \<Rightarrow> v n | None \<Rightarrow> m (key_bytes (PaymentIdCount p)))"
proof (induction ec arbitrary: m)
  case (Cons x ec)
  then have "p = fst x \<Longrightarrow> map_of ec p = None" by (simp add: map_of_eq_None_iff)
  then show ?case using Cons by (cases x; cases "fst x = p") (auto split: option.splits)
qed simp

lemma outputs_pushed_key:
  assumes "outputs_pushed f amounts (oo, counts, refs)" "(k, v) \<in> set oo"
  shows "\<exists>a n. k = key_bytes (OutputAt a n) \<and> (a, n) \<in> set refs"
proof -
  have "k \<in> set (map fst oo)" using assms(2) by force
  also have "map fst oo = map (\<lambda>(a, n). key_bytes (OutputAt a n)) refs" using assms(1) by (simp add: outputs_pushed_def)
  finally show ?thesis by auto
qed

lemma entries_pushed_nth:
  assumes "entries_pushed g prefs (po, ec)" "(k, v) \<in> set po"
  shows "\<exists>j < length prefs. k = key_bytes (PaymentIdEntry (fst (prefs ! j)) (snd (number g (map fst prefs) ! j))) \<and>
    v = Some (snd (prefs ! j))"
proof -
  have po: "po = map2 (\<lambda>(pid, n) (_, h). (key_bytes (PaymentIdEntry pid n), Some h)) (number g (map fst prefs)) prefs"
    using assms(1) by (simp add: entries_pushed_def)
  then obtain j where j: "j < length prefs" "po ! j = (k, v)" using assms(2) by (auto simp: in_set_conv_nth)
  moreover have "fst (number g (map fst prefs) ! j) = fst (prefs ! j)"
    using j(1) by (simp add: number_def)
  ultimately show ?thesis using po by (auto simp: case_prod_beta intro!: exI [of _ j])
qed

text \<open>What a read finds after the batch of a block.\<close>

lemma block_ops_reads:
  fixes m :: store
  assumes o: "outputs_pushed f amounts (oo, counts, refs)" and e: "entries_pushed g prefs (po, ec)"
    and hist: "unwind_history cf \<noteq> 0"
    and ops: "ops = block_ops oo counts refs po ec prefs images txh index info body cf"
  shows "write_batch ops m (key_bytes (BlockInfoKey i)) =
      (if i = index then Some (block_info_encode info) else m (key_bytes (BlockInfoKey i)))"
    and "write_batch ops m (key_bytes (BlockKeyImages index)) =
      (if images \<noteq> [] then Some (encode_hashes images) else m (key_bytes (BlockKeyImages index)))"
    and "write_batch ops m (key_bytes (BlockPaymentIds index)) =
      (if prefs \<noteq> [] then Some (encode_payment_id_refs prefs) else m (key_bytes (BlockPaymentIds index)))"
    and "write_batch ops m (key_bytes (BlockOutputs index)) = Some (encode_output_refs refs)"
    and "write_batch ops m (key_bytes (BlockTxHashes index)) = Some (encode_hashes txh)"
    and "write_batch ops m (key_bytes (PaymentIdCount p)) =
      (if p \<in> fst ` set prefs then u32_value (g p + of_nat (count_list (map fst prefs) p))
       else m (key_bytes (PaymentIdCount p)))"
    and "j < length prefs \<Longrightarrow> length prefs < 2 ^ 32 \<Longrightarrow>
      write_batch ops m (key_bytes (PaymentIdEntry (fst (prefs ! j)) (snd (number g (map fst prefs) ! j)))) =
      Some (snd (prefs ! j))"
proof -
  have oo: "write_batch oo m (key_bytes sk) = m (key_bytes sk)" if "\<And>a n. sk \<noteq> OutputAt a n" for m :: store and sk
    using outputs_pushed_key [OF o] that by (intro write_batch_other) fastforce
  have po: "write_batch po m (key_bytes sk) = m (key_bytes sk)" if "\<And>q n. sk \<noteq> PaymentIdEntry q n" for m :: store and sk
    using entries_pushed_nth [OF e] that by (intro write_batch_other) fastforce
  have pe: "write_batch po m (key_bytes (PaymentIdEntry (fst (prefs ! j)) (snd (number g (map fst prefs) ! j)))) =
      Some (snd (prefs ! j))" if j: "j < length prefs" "length prefs < 2 ^ 32" for m :: store and j
  proof (rule write_batch_agree)
    let ?k = "key_bytes (PaymentIdEntry (fst (prefs ! j)) (snd (number g (map fst prefs) ! j)))"
    have "po ! j = (?k, Some (snd (prefs ! j)))"
      using e j(1) by (simp add: entries_pushed_def case_prod_beta number_def)
    moreover have "length po = length prefs" using e by (simp add: entries_pushed_def)
    ultimately show "?k \<in> fst ` set po" using j(1) by (metis fst_conv image_eqI nth_mem)
    fix v assume "(?k, v) \<in> set po"
    from entries_pushed_nth [OF e this] obtain i where i: "i < length prefs" "v = Some (snd (prefs ! i))"
      "fst (prefs ! i) = fst (prefs ! j)" "snd (number g (map fst prefs) ! i) = snd (number g (map fst prefs) ! j)"
      by auto
    then have "number g (map fst prefs) ! i = number g (map fst prefs) ! j" using j(1) by (simp add: number_def)
    then show "v = Some (snd (prefs ! j))" using number_inj [of i "map fst prefs" j g] i j by simp
  qed
  have ec: "distinct (map fst ec)" "map_of ec p =
      (if p \<in> fst ` set prefs then Some (g p + of_nat (count_list (map fst prefs) p)) else None)"
    using e by (simp_all add: entries_pushed_def counted_def)
  note simps = ops block_ops_def write_batch_append oo po write_map_other write_pairs_other hist write_counts ec pe
  show "write_batch ops m (key_bytes (BlockInfoKey i)) =
      (if i = index then Some (block_info_encode info) else m (key_bytes (BlockInfoKey i)))"
    by (simp add: simps split: option.split)
  show "write_batch ops m (key_bytes (BlockKeyImages index)) =
      (if images \<noteq> [] then Some (encode_hashes images) else m (key_bytes (BlockKeyImages index)))"
    by (simp add: simps split: option.split)
  show "write_batch ops m (key_bytes (BlockPaymentIds index)) =
      (if prefs \<noteq> [] then Some (encode_payment_id_refs prefs) else m (key_bytes (BlockPaymentIds index)))"
    by (simp add: simps split: option.split)
  show "write_batch ops m (key_bytes (BlockOutputs index)) = Some (encode_output_refs refs)"
    by (simp add: simps split: option.split)
  show "write_batch ops m (key_bytes (BlockTxHashes index)) = Some (encode_hashes txh)"
    by (simp add: simps split: option.split)
  show "write_batch ops m (key_bytes (PaymentIdCount p)) =
      (if p \<in> fst ` set prefs then u32_value (g p + of_nat (count_list (map fst prefs) p))
       else m (key_bytes (PaymentIdCount p)))"
    by (cases "prefs = []") (simp_all add: simps split: option.split)
  show "write_batch ops m (key_bytes (PaymentIdEntry (fst (prefs ! j)) (snd (number g (map fst prefs) ! j)))) =
      Some (snd (prefs ! j))" if "j < length prefs" "length prefs < 2 ^ 32"
    using that by (cases "prefs = []") (simp_all add: simps split: option.split)
qed

text \<open>What taking the block off writes.\<close>

definition removal_ops ::
  "hash list \<Rightarrow> write_op list \<Rightarrow> (hash \<times> hash) list \<Rightarrow> (u64 \<times> u32) list \<Rightarrow> hash list \<Rightarrow> u32 \<Rightarrow> block_info \<Rightarrow> write_op list" where
  "removal_ops images entry_ops prefs refs txh index info =
     (if images \<noteq> [] then map (\<lambda>ki. (key_bytes (KeyImage ki), None)) images @ [(key_bytes (BlockKeyImages index), None)]
      else []) @
     (if prefs \<noteq> [] then entry_ops @ [(key_bytes (BlockPaymentIds index), None)] else []) @
     map (\<lambda>(amount, g). (key_bytes (OutputAt amount g), None)) refs @
     [(key_bytes (BlockOutputs index), None), (key_bytes (BlockInfoKey index), None),
      (key_bytes (HashToIndex (bi_block_hash info)), None)] @
     map (\<lambda>h. (key_bytes (TransactionIndex h), None)) txh @
     [(key_bytes (BlockTxHashes index), None), (key_bytes (RawBlock index), None)]"

lemma unwind_ops_parts:
  assumes "block_info_at st index = Inr (Some info)"
    and "store_get st (BlockKeyImages index) = (if images \<noteq> [] then Some (encode_hashes images) else None)"
    and "store_get st (BlockPaymentIds index) = (if prefs \<noteq> [] then Some (encode_payment_id_refs prefs) else None)"
    and "store_get st (BlockOutputs index) = Some (encode_output_refs (number f amounts))"
    and "store_get st (BlockTxHashes index) = Some (encode_hashes txh)"
    and "\<And>p. payment_id_entry_count st p = Inr (g p + of_nat (count_list (map fst prefs) p))"
    and "\<And>j. j < length prefs \<Longrightarrow>
      store_get st (PaymentIdEntry (fst (prefs ! j)) (snd (number g (map fst prefs) ! j))) = Some (snd (prefs ! j))"
    and "list_all (\<lambda>h. length h = 32) images" "list_all (\<lambda>h. length h = 32) txh"
    and "list_all (\<lambda>(p, h). length p = 32 \<and> length h = 32) prefs"
    and "\<And>p. unat (g p) + length prefs < 2 ^ 32"
  shows "\<exists>sc entry_ops. unwind_ops H st index scratch_new [] =
      Inr (sc, removal_ops images entry_ops prefs (number f amounts) txh index info) \<and>
    legacy sc = [] \<and> lowest_output sc = fold note_lowest (number f amounts) [] \<and> distinct (map fst (entry_counts sc)) \<and>
    set entry_ops = (\<lambda>(p, n). (key_bytes (PaymentIdEntry p n), None)) ` set (number g (map fst prefs)) \<and>
    (\<forall>p. map_of (entry_counts sc) p = (if p \<in> fst ` set prefs then Some (g p) else None))"
proof -
  let ?iops = "if images \<noteq> [] then map (\<lambda>ki. (key_bytes (KeyImage ki), None)) images @ [(key_bytes (BlockKeyImages index), None)]
      else []"
  obtain sc entry_ops where u: "unwind_payment_ids st (rev prefs) scratch_new ?iops = Inr (sc, ?iops @ entry_ops)"
    "legacy sc = []" "lowest_output sc = []" "distinct (map fst (entry_counts sc))"
    "set entry_ops = (\<lambda>(p, n). (key_bytes (PaymentIdEntry p n), None)) ` set (number g (map fst prefs))"
    "\<forall>p. map_of (entry_counts sc) p = (if p \<in> fst ` set prefs then Some (g p) else None)"
    using unwind_payment_ids_undo [where st = st and f = g and refs = prefs and sc = scratch_new and ops = ?iops,
        OF assms(6) assms(11)] assms(7,10)
    by (force simp: scratch_new_def list_all_length case_prod_beta)
  let ?sc = "sc\<lparr>lowest_output := fold note_lowest (number f amounts) []\<rparr>"
  have nil: "prefs = [] \<Longrightarrow> sc = scratch_new" using u(1) by simp
  have "unwind_ops H st index scratch_new [] =
      Inr (?sc, removal_ops images entry_ops prefs (number f amounts) txh index info)"
    using assms(1-5,8-10) u(1,3) nil
    by (cases "prefs = []"; cases "images = []")
      (simp_all add: unwind_ops_def removal_ops_def ok_or_def block_output_refs_def decode_output_refs_encode
        block_transaction_hashes_def decode_hashes_encode decode_payment_id_refs_encode)
  then show ?thesis using u by (intro exI [of _ ?sc] exI [of _ entry_ops]) simp
qed

section \<open>Taking a block off undoes putting it on\<close>

text \<open>
  A consistent chain: dense outputs and payment-id entries, a block info for every height, the last of them in memory,
  and the tip and the median the code derives from them.
\<close>

definition chain_ok :: "chain_state \<Rightarrow> bool" where
  "chain_ok st \<longleftrightarrow>
     (\<exists>f g info t. outputs_numbered st f \<and> entries_numbered st g \<and> infos_ok info t st \<and>
        store_get st (Meta ''tip'') = u32_value t \<and> median_size st = main_median info t)"

definition fresh_block :: "chain_state \<Rightarrow> u32 \<Rightarrow> hash \<Rightarrow> hash list \<Rightarrow> hash set \<Rightarrow> bool" where
  "fresh_block st index h txh spent \<longleftrightarrow>
     (\<forall>k \<in> {BlockKeyImages index, BlockInfoKey index, BlockTxHashes index, BlockOutputs index, RawBlock index,
        BlockPaymentIds index, HashToIndex h} \<union> TransactionIndex ` set txh \<union> KeyImage ` spent. store_get st k = None)"

text \<open>The keys a block prunes, and the schema version, which it renews.\<close>

definition pruned_keys :: "config \<Rightarrow> u32 \<Rightarrow> bytes set" where
  "pruned_keys cf index =
     key_bytes ` ({Meta ''version''} \<union> {RawBlock (index - d) | d. prune_depth cf = Some d} \<union>
       {BlockOutputs (index - unwind_history cf)})"

lemma removal_keys:
  "fst ` set (removal_ops images eo prefs refs txh index info) =
     (if images \<noteq> [] then key_bytes ` (KeyImage ` set images \<union> {BlockKeyImages index}) else {}) \<union>
     (if prefs \<noteq> [] then fst ` set eo \<union> {key_bytes (BlockPaymentIds index)} else {}) \<union>
     (\<lambda>(a, g). key_bytes (OutputAt a g)) ` set refs \<union>
     key_bytes ` ({BlockOutputs index, BlockInfoKey index, HashToIndex (bi_block_hash info), BlockTxHashes index,
       RawBlock index} \<union> TransactionIndex ` set txh)"
proof -
  have f: "fst ` set (map (\<lambda>(a, g). (key_bytes (OutputAt a g), None)) refs) = (\<lambda>(a, g). key_bytes (OutputAt a g)) ` set refs"
    by (auto simp: image_image case_prod_beta)
  show ?thesis
    unfolding removal_ops_def set_append image_Un f
    by (cases "images = []"; cases "prefs = []") (simp_all add: image_Un image_image Un_ac insert_commute)
qed

lemma block_ops_covered:
  assumes "\<And>k v. (k, v) \<in> set oo \<Longrightarrow> k \<in> U" "\<And>k v. (k, v) \<in> set po \<Longrightarrow> prefs = [] \<or> k \<in> U"
    and c: "\<forall>(a, n) \<in> set counts. key_bytes (OutputCount a) \<in> U" "\<forall>(p, n) \<in> set ec. key_bytes (PaymentIdCount p) \<in> U"
    and keys: "key_bytes ` ({BlockOutputs index, BlockInfoKey index, HashToIndex (bi_block_hash info),
        BlockTxHashes index, RawBlock index, Meta ''tip''} \<union> TransactionIndex ` set txh) \<subseteq> U"
      "images \<noteq> [] \<Longrightarrow> key_bytes ` (KeyImage ` set images \<union> {BlockKeyImages index}) \<subseteq> U"
      "prefs \<noteq> [] \<Longrightarrow> key_bytes (BlockPaymentIds index) \<in> U"
  shows "list_all (\<lambda>(k, v). k \<in> pruned_keys cf index \<or> k \<in> U)
    (block_ops oo counts refs po ec prefs images txh index info body cf)"
proof -
  let ?P = "\<lambda>(k, v). k \<in> pruned_keys cf index \<or> k \<in> U"
  have im: "key_bytes (KeyImage ki) \<in> U" if "ki \<in> set images" for ki using keys(2) that by (cases images) auto
  have tx: "key_bytes (TransactionIndex h) \<in> U" if "h \<in> set txh" for h using keys(1) that by auto
  have pruned: "key_bytes (Meta ''version'') \<in> pruned_keys cf index"
    "prune_depth cf = Some d \<Longrightarrow> key_bytes (RawBlock (index - d)) \<in> pruned_keys cf index"
    "key_bytes (BlockOutputs (index - unwind_history cf)) \<in> pruned_keys cf index" for d
    by (auto simp: pruned_keys_def)
  have "list_all ?P oo" "prefs = [] \<or> list_all ?P po" using assms(1,2) by (auto simp: list_all_iff)
  moreover have "list_all ?P (map (\<lambda>(amount, n). (key_bytes (OutputCount amount), u32_value n)) counts)"
    "list_all ?P (map (\<lambda>(pid, n). (key_bytes (PaymentIdCount pid), u32_value n)) ec)"
    using c by (auto simp: list_all_iff)
  moreover have "list_all ?P (map (\<lambda>ki. (key_bytes (KeyImage ki), u32_value index)) images)"
    "list_all ?P (map (\<lambda>h. (key_bytes (TransactionIndex h), u32_value index)) txh)"
    using im tx by (auto simp: list_all_iff)
  ultimately show ?thesis
    unfolding block_ops_def list_all_append using keys pruned by (auto split: option.splits)
qed

lemma removal_values:
  assumes refs: "refs = number f amounts" and n: "outputs_numbered st f" "entries_numbered st g"
    and small: "\<And>a. unat (f a) + length amounts < 2 ^ 32" "\<And>p. unat (g p) + length prefs < 2 ^ 32"
    and fresh: "fresh_block st index (bi_block_hash info) txh (set images)"
    and sc: "legacy sc = []" "lowest_output sc = fold note_lowest refs []" "distinct (map fst (entry_counts sc))"
      "\<forall>p. map_of (entry_counts sc) p = (if p \<in> fst ` set prefs then Some (g p) else None)"
    and eo: "set eo = (\<lambda>(p, n). (key_bytes (PaymentIdEntry p n), None)) ` set (number g (map fst prefs))"
    and tipv: "store_get st (Meta ''tip'') = tipv"
    and ops2: "ops2 = removal_ops images eo prefs refs txh index info @ finish_scratch sc @ [(key_bytes (Meta ''tip''), tipv)]"
  shows "list_all (\<lambda>(k, v). v = kv st k) ops2"
proof -
  note fr = fresh [unfolded fresh_block_def store_get_def]
  have out: "kv st (key_bytes (OutputAt a i)) = None" if "(a, i) \<in> set refs" for a i
    using n(1) number_ge [OF that [unfolded refs] small(1)]
    unfolding outputs_numbered_def numbered_def store_get_def by (meson leD)
  have ent: "kv st (key_bytes (PaymentIdEntry p i)) = None" if "(p, i) \<in> set (number g (map fst prefs))" for p i
    using n(2) number_ge [OF that] small(2)
    unfolding entries_numbered_def numbered_def store_get_def by (metis leD length_map)
  have low: "n = f a" if "(a, n) \<in> set (lowest_output sc)" for a n
  proof -
    have "map_of (lowest_output sc) a = Some n" using that lowest_distinct [of "[]" refs] sc(2) by simp
    then show ?thesis using lowest_number [OF small(1)] sc(2) refs by (simp split: if_splits)
  qed
  have ecn: "n = g p" if "(p, n) \<in> set (entry_counts sc)" for p n
    using that sc(3,4) by (metis map_of_is_SomeI option.distinct(1) option.inject)
  have cnt: "kv st (key_bytes (OutputCount a)) = (if f a = 0 then None else u32_value (f a))"
    "kv st (key_bytes (PaymentIdCount p)) = (if g p = 0 then None else u32_value (g p))" for a p
    using n by (simp_all add: outputs_numbered_def entries_numbered_def numbered_def store_get_def)
  show ?thesis
    using fr tipv sc(1) eo out ent low ecn cnt
    by (auto simp: ops2 removal_ops_def finish_scratch_def list_all_iff store_get_def word_gt_0)
qed

lemma removal_restores:
  assumes o: "outputs_pushed f amounts (oo, counts, refs)" and e: "entries_pushed g prefs (po, ec)"
    and n: "outputs_numbered st f" "entries_numbered st g"
    and small: "\<And>a. unat (f a) + length amounts < 2 ^ 32" "\<And>p. unat (g p) + length prefs < 2 ^ 32"
    and fresh: "fresh_block st index (bi_block_hash info) txh (set images)"
    and sc: "legacy sc = []" "lowest_output sc = fold note_lowest refs []" "distinct (map fst (entry_counts sc))"
      "\<forall>p. map_of (entry_counts sc) p = (if p \<in> fst ` set prefs then Some (g p) else None)"
    and eo: "set eo = (\<lambda>(p, n). (key_bytes (PaymentIdEntry p n), None)) ` set (number g (map fst prefs))"
    and tipv: "store_get st (Meta ''tip'') = tipv"
    and ops: "ops = block_ops oo counts refs po ec prefs images txh index info body (cfg st)"
    and ops2: "ops2 = removal_ops images eo prefs refs txh index info @ finish_scratch sc @ [(key_bytes (Meta ''tip''), tipv)]"
    and k: "k \<notin> pruned_keys (cfg st) index"
  shows "write_batch ops2 (write_batch ops (kv st)) k = kv st k"
proof (rule write_twice [OF _ _ k])
  have refs: "refs = number f amounts" using o by (simp add: outputs_pushed_def)
  show "list_all (\<lambda>(k, v). k \<in> pruned_keys (cfg st) index \<or> v = kv st k) ops2"
    using removal_values [OF refs n small fresh sc eo tipv ops2] by (auto simp: list_all_iff)
  have "key_bytes (OutputCount a) \<in> fst ` set ops2" if "a \<in> set amounts" for a
  proof -
    have "map_of (lowest_output sc) a = Some (f a)" using that lowest_number [OF small(1)] sc(2) refs by simp
    then show ?thesis by (force simp: ops2 finish_scratch_def dest: map_of_SomeD)
  qed
  moreover have "key_bytes (PaymentIdCount p) \<in> fst ` set ops2" if "p \<in> fst ` set prefs" for p
  proof -
    have "map_of (entry_counts sc) p = Some (g p)" using that sc(4) by simp
    then show ?thesis by (force simp: ops2 finish_scratch_def dest: map_of_SomeD)
  qed
  moreover have "a \<in> set amounts" if "(a, n) \<in> set counts" for a n
    using o that by (auto simp: outputs_pushed_def counted_def dest: map_of_is_SomeI split: if_splits)
  moreover have "p \<in> fst ` set prefs" if "(p, n) \<in> set ec" for p n
    using e that by (auto simp: entries_pushed_def counted_def dest: map_of_is_SomeI split: if_splits)
  ultimately have c: "\<forall>(a, n) \<in> set counts. key_bytes (OutputCount a) \<in> fst ` set ops2"
    "\<forall>(p, n) \<in> set ec. key_bytes (PaymentIdCount p) \<in> fst ` set ops2" by fast+
  have oo: "k \<in> fst ` set ops2" if "(k, v) \<in> set oo" for k v
    using outputs_pushed_key [OF o that] by (auto simp: ops2 image_Un removal_keys)
  have po: "prefs = [] \<or> k \<in> fst ` set ops2" if kv: "(k, v) \<in> set po" for k v
  proof -
    obtain j where j: "j < length prefs"
      "k = key_bytes (PaymentIdEntry (fst (prefs ! j)) (snd (number g (map fst prefs) ! j)))"
      using entries_pushed_nth [OF e kv] by blast
    have "(fst (prefs ! j), snd (number g (map fst prefs) ! j)) = number g (map fst prefs) ! j"
      using j(1) by (simp add: number_def)
    then have "(fst (prefs ! j), snd (number g (map fst prefs) ! j)) \<in> set (number g (map fst prefs))" using j(1) by simp
    then have "(k, None) \<in> set eo" unfolding eo j(2) by (intro image_eqI) auto
    then have "k \<in> fst ` set eo" by (intro image_eqI) auto
    then show ?thesis by (simp add: ops2 image_Un removal_keys)
  qed
  have keys: "key_bytes ` ({BlockOutputs index, BlockInfoKey index, HashToIndex (bi_block_hash info),
      BlockTxHashes index, RawBlock index, Meta ''tip''} \<union> TransactionIndex ` set txh) \<subseteq> fst ` set ops2"
    "images \<noteq> [] \<Longrightarrow> key_bytes ` (KeyImage ` set images \<union> {BlockKeyImages index}) \<subseteq> fst ` set ops2"
    "prefs \<noteq> [] \<Longrightarrow> key_bytes (BlockPaymentIds index) \<in> fst ` set ops2"
    by (simp_all add: ops2 image_Un removal_keys) blast+
  show "list_all (\<lambda>(k, v). k \<in> pruned_keys (cfg st) index \<or> k \<in> fst ` set ops2) ops"
    unfolding ops by (rule block_ops_covered [OF oo po c keys])
qed

text \<open>Hashes have 32 bytes and no 32-bit counter of the store is used up by the block.\<close>

definition block_fits ::
  "chain_state \<Rightarrow> block_template \<Rightarrow> transaction list \<Rightarrow> hash \<Rightarrow> block_info \<Rightarrow> hash set \<Rightarrow> bool" where
  "block_fits st block txs ch info spent \<longleftrightarrow>
     finite spent \<and> (\<forall>h \<in> spent \<union> set (ch # bt_transaction_hashes block). length h = 32) \<and>
     length (bi_block_hash info) = 32 \<and>
     (let refs = payment_refs_of (zip txs (bt_transaction_hashes block)) in
      (\<forall>(p, h) \<in> set refs. length p = 32) \<and>
      (\<forall>p n. payment_id_entry_count st p = Inr n \<longrightarrow> unat n + length refs < 2 ^ 32)) \<and>
     (\<forall>a n. output_count_for_amount st a = Inr n \<longrightarrow> unat n + length (block_amounts block txs) < 2 ^ 32)"

lemma payment_refs_hashes: "(p, h) \<in> set (payment_refs_of (zip txs hs)) \<Longrightarrow> h \<in> set hs"
  by (auto simp: payment_refs_of_def List.map_filter_def dest: set_zip_rightD split: option.splits payment_id.splits)

lemma push_block_ok:
  assumes ok: "outputs_numbered st f" "entries_numbered st g" "infos_ok info t st"
    and t: "unat t + 1 < 2 ^ 32" and cf: "unwind_history (cfg st) \<noteq> 0" "0 < recent_window (cfg st)"
    and ch: "tx_hash H (bt_base_transaction block) = Inr ch" and len: "length (bi_block_hash new) = 32"
    and defs: "amounts = block_amounts block txs" "prefs = payment_refs_of (zip txs (bt_transaction_hashes block))"
  obtains oo counts po ec ops where "outputs_pushed f amounts (oo, counts, number f amounts)" "entries_pushed g prefs (po, ec)"
    "ops = block_ops oo counts (number f amounts) po ec prefs (sorted_list_of_set spent) (ch # bt_transaction_hashes block)
       (t + 1) new (encode_raw_block blob blobs) (cfg st)"
    "infos_ok (info(t + 1 := new)) (t + 1) (pushed (t + 1) new ops st)"
    "push_block H (t + 1) block blob blobs txs new spent st =
       (Inr (), (pushed (t + 1) new ops st)\<lparr>median_size := main_median (info(t + 1 := new)) (t + 1)\<rparr>)"
proof -
  obtain oo counts po ec ops where push: "push_ops H st (t + 1) block blob blobs txs new spent = Inr ops"
    and ops: "ops = block_ops oo counts (number f amounts) po ec prefs (sorted_list_of_set spent)
       (ch # bt_transaction_hashes block) (t + 1) new (encode_raw_block blob blobs) (cfg st)"
    and o: "outputs_pushed f amounts (oo, counts, number f amounts)" and e: "entries_pushed g prefs (po, ec)"
    using push_ops_parts [OF ok(1,2) ch refl] unfolding defs by blast
  note reads = block_ops_reads [OF o e cf(1) ops]
  have i: "i \<noteq> t + 1" if "i \<le> t" for i using that t by (auto simp: word_le_nat_alt unat_add_small)
  have infos: "infos_ok (info(t + 1 := new)) (t + 1) (pushed (t + 1) new ops st)"
    using i reads(1) by (intro infos_ok_pushed [OF ok(3) t cf(2) len]) (auto simp: store_get_def)
  show thesis
    using push update_median_ok [OF infos] by (intro that [OF o e ops infos]) (simp add: push_block_def)
qed

lemma unwind_after_push:
  assumes ok: "outputs_numbered st f" "entries_numbered st g" "infos_ok info t st" "store_get st (Meta ''tip'') = u32_value t"
    and t: "unat t + 1 < 2 ^ 32" and hist: "unwind_history (cfg st) \<noteq> 0"
    and o: "outputs_pushed f amounts (oo, counts, number f amounts)" and e: "entries_pushed g prefs (po, ec)"
    and ops: "ops = block_ops oo counts (number f amounts) po ec prefs images txh (t + 1) new body (cfg st)"
    and fresh: "fresh_block st (t + 1) (bi_block_hash new) txh (set images)"
    and lens: "list_all (\<lambda>h. length h = 32) images" "list_all (\<lambda>h. length h = 32) txh"
      "list_all (\<lambda>(p, h). length p = 32 \<and> length h = 32) prefs"
    and small: "\<And>a. unat (f a) + length amounts < 2 ^ 32" "\<And>p. unat (g p) + length prefs < 2 ^ 32"
    and st1: "kv st1 = write_batch ops (kv st)" "tip st1 = Some (t + 1)" "cfg st1 = cfg st"
      "block_info_at st1 (t + 1) = Inr (Some new)"
  obtains ops2 where "\<And>k. k \<notin> pruned_keys (cfg st) (t + 1) \<Longrightarrow> write_batch ops2 (kv st1) k = kv st k"
    "unwind_block H (t + 1) st1 =
      (Inr (), st1\<lparr>kv := write_batch ops2 (kv st1), tip := Some t, recent := recent st, median_size := main_median info t\<rparr>)"
proof -
  let ?i = "t + 1"
  note reads = block_ops_reads [OF o e hist ops, where m = "kv st"]
  have ecount: "payment_id_entry_count st1 p = Inr (g p + of_nat (count_list (map fst prefs) p))" for p
    using reads(6) [of p] entry_count_numbered [OF ok(2), of p]
    by (cases "p \<in> fst ` set prefs")
      (simp_all add: payment_id_entry_count_def store_get_def st1 u32_record_value unwrap_or_zero_def count_notin)
  have few: "length prefs < 2 ^ 32" using small(2) [of "[]"] by linarith
  have got: "store_get st1 (BlockKeyImages ?i) = (if images \<noteq> [] then Some (encode_hashes images) else None)"
    "store_get st1 (BlockPaymentIds ?i) = (if prefs \<noteq> [] then Some (encode_payment_id_refs prefs) else None)"
    "store_get st1 (BlockOutputs ?i) = Some (encode_output_refs (number f amounts))"
    "store_get st1 (BlockTxHashes ?i) = Some (encode_hashes txh)"
    using reads(2-5) fresh by (simp_all add: store_get_def st1 fresh_block_def)
  have entry: "store_get st1 (PaymentIdEntry (fst (prefs ! j)) (snd (number g (map fst prefs) ! j))) = Some (snd (prefs ! j))"
    if "j < length prefs" for j using reads(7) [OF that few] by (simp add: store_get_def st1)
  obtain sc eo where un: "unwind_ops H st1 ?i scratch_new [] = Inr (sc, removal_ops images eo prefs (number f amounts) txh ?i new)"
    and sc: "legacy sc = []" "lowest_output sc = fold note_lowest (number f amounts) []"
      "distinct (map fst (entry_counts sc))"
      "set eo = (\<lambda>(p, n). (key_bytes (PaymentIdEntry p n), None)) ` set (number g (map fst prefs))"
      "\<forall>p. map_of (entry_counts sc) p = (if p \<in> fst ` set prefs then Some (g p) else None)"
    using unwind_ops_parts [OF st1(4) got ecount entry lens small(2)] by blast
  define ops2 where "ops2 = removal_ops images eo prefs (number f amounts) txh ?i new @ finish_scratch sc @
    [(key_bytes (Meta ''tip''), u32_value t)]"
  have restored: "write_batch ops2 (kv st1) k = kv st k" if "k \<notin> pruned_keys (cfg st) ?i" for k
    unfolding st1 using removal_restores [OF o e ok(1,2) small fresh sc(1-3,5,4) ok(4) ops ops2_def that] .
  have rinfo: "write_batch ops2 (kv st1) (key_bytes (BlockInfoKey i)) = kv st (key_bytes (BlockInfoKey i))" for i
    by (rule restored) (auto simp: pruned_keys_def)
  have "settle_tip (Some t) ops2 st1 =
      (Inr (), st1\<lparr>kv := write_batch ops2 (kv st1), tip := Some t, recent := recent st, median_size := main_median info t\<rparr>)"
    using ok(3) by (intro settle_tip_ok [OF ok(3) st1(3)]) (simp add: rinfo infos_ok_def store_get_def)
  moreover have "?i \<noteq> 0" using unat_add_small [of t 1] t by auto
  ultimately show thesis using un st1(2) by (intro that [OF restored]) (simp_all add: unwind_block_def ops2_def)
qed

text \<open>C10: Taking a block off undoes putting it on.\<close>

theorem unwind_undoes_push:
  assumes "chain_ok st" "tip st = Some t" "unat t + 1 < 2 ^ 32" "unwind_history (cfg st) \<noteq> 0" "0 < recent_window (cfg st)"
    and ch: "tx_hash H (bt_base_transaction block) = Inr ch"
    and fresh: "fresh_block st (t + 1) (bi_block_hash new) (ch # bt_transaction_hashes block) spent"
    and fits: "block_fits st block txs ch new spent"
  shows "\<exists>st1 st2. push_block H (t + 1) block blob blobs txs new spent st = (Inr (), st1) \<and> tip st1 = Some (t + 1) \<and>
    unwind_block H (t + 1) st1 = (Inr (), st2) \<and> st2 = st\<lparr>kv := kv st2\<rparr> \<and>
    (\<forall>k. k \<notin> pruned_keys (cfg st) (t + 1) \<longrightarrow> kv st2 k = kv st k)"
proof -
  obtain f g info where ok: "outputs_numbered st f" "entries_numbered st g" "infos_ok info t st"
    "store_get st (Meta ''tip'') = u32_value t" "median_size st = main_median info t"
    using assms(1,2) by (auto simp: chain_ok_def infos_ok_def)
  let ?prefs = "payment_refs_of (zip txs (bt_transaction_hashes block))" and ?images = "sorted_list_of_set spent"
  have images: "set ?images = spent" and len: "length (bi_block_hash new) = 32" using fits by (simp_all add: block_fits_def)
  obtain oo counts po ec ops where push:
    "outputs_pushed f (block_amounts block txs) (oo, counts, number f (block_amounts block txs))"
    "entries_pushed g ?prefs (po, ec)"
    "ops = block_ops oo counts (number f (block_amounts block txs)) po ec ?prefs ?images (ch # bt_transaction_hashes block)
       (t + 1) new (encode_raw_block blob blobs) (cfg st)"
    "infos_ok (info(t + 1 := new)) (t + 1) (pushed (t + 1) new ops st)"
    "push_block H (t + 1) block blob blobs txs new spent st =
       (Inr (), (pushed (t + 1) new ops st)\<lparr>median_size := main_median (info(t + 1 := new)) (t + 1)\<rparr>)"
    using push_block_ok [OF ok(1-3) assms(3-5) ch len refl refl] .
  let ?st1 = "(pushed (t + 1) new ops st)\<lparr>median_size := main_median (info(t + 1 := new)) (t + 1)\<rparr>"
  have "infos_ok (info(t + 1 := new)) (t + 1) ?st1" using push(4) by (simp add: infos_ok_def store_get_def)
  from block_info_at_ok [OF this] have bi: "block_info_at ?st1 (t + 1) = Inr (Some new)" by simp
  have lens: "list_all (\<lambda>h. length h = 32) ?images" "list_all (\<lambda>h. length h = 32) (ch # bt_transaction_hashes block)"
    "list_all (\<lambda>(p, h). length p = 32 \<and> length h = 32) ?prefs"
    using fits images payment_refs_hashes by (fastforce simp: block_fits_def list_all_iff Let_def)+
  have small: "unat (f a) + length (block_amounts block txs) < 2 ^ 32" "unat (g p) + length ?prefs < 2 ^ 32" for a p
    using fits output_count_numbered [OF ok(1)] entry_count_numbered [OF ok(2)] by (simp_all add: block_fits_def Let_def)
  obtain ops2 where restored: "\<And>k. k \<notin> pruned_keys (cfg st) (t + 1) \<Longrightarrow> write_batch ops2 (kv ?st1) k = kv st k"
    and un: "unwind_block H (t + 1) ?st1 = (Inr (), ?st1\<lparr>kv := write_batch ops2 (kv ?st1), tip := Some t,
      recent := recent st, median_size := main_median info t\<rparr>)"
    using unwind_after_push [OF ok(1-4) assms(3,4) push(1-3) _ lens small _ _ _ bi, of H] fresh images
    by (auto simp: pushed_def)
  have "?st1\<lparr>kv := write_batch ops2 (kv ?st1), tip := Some t, recent := recent st, median_size := main_median info t\<rparr> =
      st\<lparr>kv := write_batch ops2 (kv ?st1)\<rparr>"
    using ok(3,5) by (simp add: pushed_def infos_ok_def)
  then show ?thesis using push(5) un restored by (intro exI [of _ ?st1] exI [of _ "st\<lparr>kv := write_batch ops2 (kv ?st1)\<rparr>"]) (simp add: pushed_def)
qed

definition one_block_info :: block_info where
  "one_block_info = \<lparr>bi_block_hash = replicate 32 1, bi_timestamp = 10, bi_block_size = 100, bi_cumulative_difficulty = 1,
     bi_already_generated_coins = 5, bi_already_generated_transactions = 1\<rparr>"

definition one_block_chain :: chain_state where
  "one_block_chain =
     \<lparr>kv = [key_bytes (BlockInfoKey 0) \<mapsto> block_info_encode one_block_info, key_bytes (Meta ''tip'') \<mapsto> to_le 4 (0 :: u32)],
      cfg = config_default, cs_checkpoints = \<lparr>points = [], disabled_from = 0\<rparr>, tip = Some 0, recent = [one_block_info],
      median_size = main_median (\<lambda>i. one_block_info) 0, alt_blocks = [], unwound = [], clock = 0, strict_list = True,
      transactions_floor = 0\<rparr>"

definition next_block :: block_template where
  "next_block =
     \<lparr>bt_major_version = 1, bt_minor_version = 0, bt_timestamp = 70, bt_previous_block_hash = replicate 32 1, bt_nonce = 0,
      bt_parent_block = None,
      bt_base_transaction =
        \<lparr>prefix = \<lparr>version = 1, unlock_time = 11, inputs = [Base 1], outputs = [\<lparr>out_amount = 5, out_key = replicate 32 2\<rparr>],
           extra = []\<rparr>, signatures = []\<rparr>,
      bt_transaction_hashes = []\<rparr>"

lemma next_block_hash: "tx_hash (\<lambda>bs. replicate 32 3) (bt_base_transaction next_block) = Inr (replicate 32 3)"
  by (simp add: next_block_def tx_hash_def tx_to_bytes_def tx_write_def)

lemma one_block_chain_reads:
  "store_get one_block_chain k =
     (if k = BlockInfoKey 0 then Some (block_info_encode one_block_info) else if k = Meta ''tip'' then u32_value 0 else None)"
  by (simp add: one_block_chain_def store_get_def u32_value_def)

lemma one_block_chain_ok: "chain_ok one_block_chain"
proof -
  have "outputs_numbered one_block_chain (\<lambda>a. 0)" "entries_numbered one_block_chain (\<lambda>p. 0)"
    by (simp_all add: outputs_numbered_def entries_numbered_def numbered_def one_block_chain_reads)
  moreover have "infos_ok (\<lambda>i. one_block_info) 0 one_block_chain"
    by (simp add: infos_ok_def one_block_chain_reads) (simp add: one_block_chain_def config_default_def one_block_info_def)
  moreover have "median_size one_block_chain = main_median (\<lambda>i. one_block_info) 0" by (simp add: one_block_chain_def)
  ultimately show ?thesis unfolding chain_ok_def by (metis one_block_chain_reads store_key.distinct)
qed

theorem unwind_undoes_push_witness:
  "\<exists>st1 st2. push_block (\<lambda>bs. replicate 32 3) 1 next_block [] [] [] (one_block_info\<lparr>bi_block_hash := replicate 32 4\<rparr>) {}
      one_block_chain = (Inr (), st1) \<and> tip st1 = Some 1 \<and>
    unwind_block (\<lambda>bs. replicate 32 3) 1 st1 = (Inr (), st2) \<and> st2 = one_block_chain\<lparr>kv := kv st2\<rparr> \<and>
    (\<forall>k. k \<notin> pruned_keys (cfg one_block_chain) 1 \<longrightarrow> kv st2 k = kv one_block_chain k)"
proof -
  have st: "tip one_block_chain = Some 0" "unwind_history (cfg one_block_chain) \<noteq> 0" "0 < recent_window (cfg one_block_chain)"
    by (simp_all add: one_block_chain_def config_default_def)
  have fresh: "fresh_block one_block_chain (0 + 1) (bi_block_hash (one_block_info\<lparr>bi_block_hash := replicate 32 4\<rparr>))
      (replicate 32 3 # bt_transaction_hashes next_block) {}"
    by (simp add: fresh_block_def one_block_chain_reads next_block_def)
  have fits: "block_fits one_block_chain next_block [] (replicate 32 3) (one_block_info\<lparr>bi_block_hash := replicate 32 4\<rparr>) {}"
    by (simp add: block_fits_def next_block_def payment_refs_of_def block_amounts_def payment_id_entry_count_def
        output_count_for_amount_def one_block_chain_reads u32_record_def unwrap_or_zero_def List.map_filter_def)
  show ?thesis
    using unwind_undoes_push [OF one_block_chain_ok st(1) _ st(2,3) next_block_hash fresh fits] by simp
qed

end
