(* ===== verification/Chain_Open.thy ===== *)
theory Chain_Open
  imports Chain_Unwind
begin

text \<open>
  Opening a stored chain (\<open>wrkz-chain/src/state.rs\<close>, \<open>ChainState::open\<close> and the body policy): the schema check,
  the two settings that are permanent for a database, the catch-up pass that deletes bodies, and the genesis block.
\<close>

section \<open>Metadata\<close>

definition recorded_lite_height :: "chain_state \<Rightarrow> chain_error + u32 option" where
  "recorded_lite_height st = u32_record ''lite height record'' (store_get st (Meta ''lite_height''))"

definition put :: "store_key \<Rightarrow> bytes \<Rightarrow> chain_state \<Rightarrow> chain_state" where
  "put k v st = st\<lparr>kv := (kv st)(key_bytes k \<mapsto> v)\<rparr>"

definition settle_lite_height :: "chain_state \<Rightarrow> chain_error + chain_state" where
  "settle_lite_height st =
     and_then (recorded_lite_height st) (\<lambda>recorded.
       let asked = lite_start_height (cfg st) in
       case recorded of
         None \<Rightarrow>
           if asked = 0 then Inr st
           else if tip st = None then Inr (put (Meta ''lite_height'') (to_le 4 asked) st)
           else Inl (Corrupt ''built as a full node, cannot be reopened as a lite node'')
       | Some r \<Rightarrow>
           if r = asked then Inr st
           else if asked = 0 then Inl (Corrupt ''created as a lite node, cannot be opened as a full node'')
           else Inl (Corrupt ''created as a lite node with another height''))"

definition settle_network :: "chain_state \<Rightarrow> chain_error + chain_state" where
  "settle_network st =
     (let recorded = store_get st (Meta ''network'') in
      if recorded \<noteq> None \<and> recorded \<noteq> Some (ascii ''simnet'') then
        Inl (Corrupt ''records a network this build does not know'')
      else
        let recorded_simnet = (recorded \<noteq> None) in
        if recorded_simnet = simnet (cfg st) then Inr st
        else if \<not> recorded_simnet \<and> tip st = None then Inr (put (Meta ''network'') (ascii ''simnet'') st)
        else if \<not> recorded_simnet then Inl (Corrupt ''holds a mainnet chain and cannot be opened as a simnet'')
        else Inl (Corrupt ''belongs to a simnet, can never be opened as mainnet''))"

definition declare_lite_height :: "u32 \<Rightarrow> chain_state \<Rightarrow> chain_error + chain_state" where
  "declare_lite_height height st =
     and_then (recorded_lite_height st) (\<lambda>recorded.
       case recorded of
         Some r \<Rightarrow> if r = height then Inr st else Inl (Corrupt ''already recorded as a lite node'')
       | None \<Rightarrow>
           Inr ((put (Meta ''lite_height'') (to_le 4 height) st)\<lparr>cfg := (cfg st)\<lparr>lite_start_height := height\<rparr>\<rparr>))"

text \<open>\<open>String::from_utf8\<close>: the byte sequences of Unicode scalar values.\<close>

definition utf8_tail :: "u8 \<Rightarrow> bool" where
  "utf8_tail b \<longleftrightarrow> 0x80 \<le> b \<and> b \<le> 0xBF"

fun utf8_valid :: "bytes \<Rightarrow> bool" where
  "utf8_valid [] = True"
| "utf8_valid (a # rest) =
     (if a < 0x80 then utf8_valid rest
      else case rest of
        [] \<Rightarrow> False
      | b # rest2 \<Rightarrow>
          if 0xC2 \<le> a \<and> a \<le> 0xDF then utf8_tail b \<and> utf8_valid rest2
          else case rest2 of
            [] \<Rightarrow> False
          | c # rest3 \<Rightarrow>
              if 0xE0 \<le> a \<and> a \<le> 0xEF then
                utf8_tail b \<and> (a = 0xE0 \<longrightarrow> 0xA0 \<le> b) \<and> (a = 0xED \<longrightarrow> b \<le> 0x9F) \<and> utf8_tail c \<and> utf8_valid rest3
              else case rest3 of
                [] \<Rightarrow> False
              | d # rest4 \<Rightarrow>
                  0xF0 \<le> a \<and> a \<le> 0xF4 \<and> utf8_tail b \<and> (a = 0xF0 \<longrightarrow> 0x90 \<le> b) \<and> (a = 0xF4 \<longrightarrow> b \<le> 0x8F) \<and>
                  utf8_tail c \<and> utf8_tail d \<and> utf8_valid rest4)"

text \<open>\<open>tag\<close>, whose string is kept as its bytes.\<close>

definition state_tag :: "chain_state \<Rightarrow> chain_error + bytes option" where
  "state_tag st =
     (case store_get st (Meta ''tag'') of
        Some b \<Rightarrow> if utf8_valid b then Inr (Some b) else Inl (Corrupt ''state tag is not UTF-8'')
      | None \<Rightarrow> Inr None)"

definition read_transactions_floor :: "chain_state \<Rightarrow> chain_error + u32" where
  "read_transactions_floor st =
     and_then (state_tag st) (\<lambda>t.
       if t = Some (ascii ''lite-snapshot'') then
         and_then (recorded_lite_height st) (ok_or (Corrupt ''tagged as a lite snapshot but records no lite height''))
       else Inr 0)"

definition set_tag :: "bytes \<Rightarrow> chain_state \<Rightarrow> (chain_error + unit) \<times> chain_state" where
  "set_tag t st =
     (let st = put (Meta ''tag'') t st in
      case read_transactions_floor st of
        Inl e \<Rightarrow> (Inl e, st)
      | Inr n \<Rightarrow> (Inr (), st\<lparr>transactions_floor := n\<rparr>))"

section \<open>Bodies\<close>

definition pruned_below :: "chain_state \<Rightarrow> chain_error + u32" where
  "pruned_below st = unwrap_or_zero (u32_record ''prune floor record'' (store_get st (Meta ''prune_floor'')))"

lemma search_halves:
  fixes lo hi :: u32
  assumes "lo < hi" "hi - lo > 1"
  shows "unat (lo + (hi - lo) div 2) = unat lo + (unat hi - unat lo) div 2" "1 < unat hi - unat lo"
  using assms unat_mid [of lo hi] unat_sub [of lo hi] by (simp_all add: word_less_nat_alt word_le_nat_alt)

text \<open>
  The loop of \<open>lowest_stored_body\<close>, on \<open>has\<close>; it runs with \<open>lo\<close> below \<open>hi\<close>, so the subtraction never wraps.
\<close>

function lowest_body_search :: "(u32 \<Rightarrow> bool) \<Rightarrow> u32 \<Rightarrow> u32 \<Rightarrow> u32" where
  "lowest_body_search has lo hi =
     (if lo < hi \<and> hi - lo > 1 then
        let mid = lo + (hi - lo) div 2 in
        if has mid then lowest_body_search has lo mid else lowest_body_search has mid hi
      else hi)"
  by pat_completeness auto
termination
proof (relation "measure (\<lambda>(has, lo, hi). unat hi - unat lo)", goal_cases)
  case (2 has lo hi mid)
  then show ?case using search_halves [of lo hi] by simp
next
  case (3 has lo hi mid)
  then show ?case using search_halves [of lo hi] by simp
qed simp

declare lowest_body_search.simps [simp del]

definition lowest_stored_body :: "chain_state \<Rightarrow> u32 option" where
  "lowest_stored_body st =
     (case tip st of
        None \<Rightarrow> None
      | Some t \<Rightarrow>
          let has = (\<lambda>index. store_get st (RawBlock index) \<noteq> None) in
          if \<not> has t then None
          else if has 0 then Some 0
          else Some (lowest_body_search has 0 t))"

abbreviation (input) MAX_SCAN :: u32 where "MAX_SCAN \<equiv> 200000"

text \<open>The scan of \<open>prune_bodies\<close> over \<open>from..end\<close>: what it deletes, how many, and where it stopped.\<close>

fun prune_scan :: "(u32 \<Rightarrow> bool) \<Rightarrow> u32 \<Rightarrow> u32 \<Rightarrow> nat list \<Rightarrow> write_op list \<Rightarrow> u32 \<Rightarrow> write_op list \<times> u32 \<times> u32" where
  "prune_scan has budget stop [] ops removed = (ops, removed, stop)"
| "prune_scan has budget stop (i # is) ops removed =
     (if removed \<ge> budget then (ops, removed, of_nat i)
      else if has (of_nat i) then
        prune_scan has budget stop is (ops @ [(key_bytes (RawBlock (of_nat i)), None)]) (removed + 1)
      else prune_scan has budget stop is ops removed)"

definition prune_bodies :: "u32 \<Rightarrow> chain_state \<Rightarrow> chain_error + u32 \<times> chain_state" where
  "prune_bodies budget st =
     (case (tip st, prune_depth (cfg st)) of
        (Some t, Some _) \<Rightarrow>
          (case body_floor (cfg st) t of
             None \<Rightarrow> Inr (0, st)
           | Some flr \<Rightarrow>
               and_then (pruned_below st) (\<lambda>below.
                 let start = (if below = 0 then (case lowest_stored_body st of Some b \<Rightarrow> b | None \<Rightarrow> flr) else below) in
                 if start \<ge> flr then
                   Inr (0, if below < flr then put (Meta ''prune_floor'') (to_le 4 flr) st else st)
                 else
                   let stop = min flr (saturating_add start MAX_SCAN);
                       has = (\<lambda>index. store_get st (RawBlock index) \<noteq> None);
                       (ops, removed, reached) = prune_scan has budget stop [unat start..<unat stop] [] 0
                   in Inr (removed,
                        st\<lparr>kv := write_batch (ops @ [(key_bytes (Meta ''prune_floor''), u32_value reached)]) (kv st)\<rparr>)))
      | _ \<Rightarrow> Inr (0, st))"

section \<open>Opening\<close>

text \<open>\<open>open\<close>; the assertion on \<open>recent_window\<close> is the precondition of the model.\<close>

definition open_chain :: "store \<Rightarrow> config \<Rightarrow> checkpoints \<Rightarrow> u64 \<Rightarrow> (chain_error + unit) \<times> chain_state" where
  "open_chain s cf cp now =
     (let st = \<lparr>kv = s, cfg = cf, cs_checkpoints = cp, tip = None, recent = [], median_size = 0, alt_blocks = [],
            unwound = [], clock = now, strict_list = True,
            transactions_floor = 0\<rparr> in
      if (case prune_depth cf of Some depth \<Rightarrow> depth < MIN_PRUNE_DEPTH | None \<Rightarrow> False) then
        (Inl (Corrupt ''prune depth is below the blocks a reorganisation can need''), st)
      else if unwind_history cf < MIN_PRUNE_DEPTH then
        (Inl (Corrupt ''unwind_history is below the blocks a reorganisation can need''), st)
      else
        (case u32_record ''state version record'' (store_get st (Meta ''version'')) of
           Inl e \<Rightarrow> (Inl e, st)
         | Inr v \<Rightarrow>
        if (case v of Some v \<Rightarrow> v < OLDEST_READABLE_SCHEMA_VERSION \<or> v > STATE_SCHEMA_VERSION | None \<Rightarrow> False)
        then (Inl (Corrupt ''state schema version''), st)
        else
        (case u32_record ''tip record'' (store_get st (Meta ''tip'')) of
           Inl e \<Rightarrow> (Inl e, st)
         | Inr t \<Rightarrow>
        (case settle_lite_height (st\<lparr>tip := t\<rparr>) of
           Inl e \<Rightarrow> (Inl e, st)
         | Inr st \<Rightarrow>
        (case settle_network st of
           Inl e \<Rightarrow> (Inl e, st)
         | Inr st \<Rightarrow>
        (case read_transactions_floor st of
           Inl e \<Rightarrow> (Inl e, st)
         | Inr n \<Rightarrow>
             let st = st\<lparr>transactions_floor := n\<rparr>;
                 st = (case prune_depth cf of
                         Some depth \<Rightarrow> put (Meta ''prune_depth'') (to_le 4 depth) st | None \<Rightarrow> st)
             in case reload_recent st of
                  (Inl e, st) \<Rightarrow> (Inl e, st)
                | (Inr _, st) \<Rightarrow> update_block_median_size st))))))"

definition apply_genesis :: "(bytes \<Rightarrow> hash) \<Rightarrow> chain_state \<Rightarrow> (chain_error + unit) \<times> chain_state" where
  "apply_genesis H st =
     (case genesis_block of
        Inl _ \<Rightarrow> (Inl (Corrupt ''genesis''), st)
      | Inr block \<Rightarrow>
          (case block_to_bytes H block of
             Inl _ \<Rightarrow> (Inl (Corrupt ''genesis does not serialize''), st)
           | Inr blob \<Rightarrow>
          (case block_hash H block of
             Inl _ \<Rightarrow> (Inl (Corrupt ''genesis has no hash''), st)
           | Inr h \<Rightarrow>
          (case tx_to_bytes (bt_base_transaction block) of
             Inl _ \<Rightarrow> (Inl (Corrupt ''genesis coinbase does not serialize''), st)
           | Inr coinbase \<Rightarrow>
          (case coinbase_output_total block of
             None \<Rightarrow> (Inl (Corrupt ''genesis coinbase total overflows''), st)
           | Some miner_reward \<Rightarrow>
               push_block H 0 block blob [] []
                 \<lparr>bi_block_hash = h, bi_timestamp = bt_timestamp block, bi_block_size = of_nat (length coinbase),
                  bi_cumulative_difficulty = 1, bi_already_generated_coins = miner_reward,
                  bi_already_generated_transactions = 1\<rparr> {} st)))))"

definition open_or_genesis ::
  "(bytes \<Rightarrow> hash) \<Rightarrow> store \<Rightarrow> config \<Rightarrow> checkpoints \<Rightarrow> u64 \<Rightarrow> (chain_error + unit) \<times> chain_state" where
  "open_or_genesis H s cf cp now =
     (case open_chain s cf cp now of
        (Inl e, st) \<Rightarrow> (Inl e, st)
      | (Inr _, st) \<Rightarrow> if tip st = None then apply_genesis H st else (Inr (), st))"

section \<open>Imports\<close>

definition info_ops :: "(u32 \<times> block_info) list \<Rightarrow> write_op list" where
  "info_ops infos = concat (map (\<lambda>(index, info).
     [(key_bytes (BlockInfoKey index), Some (block_info_encode info)),
      (key_bytes (HashToIndex (bi_block_hash info)), u32_value index)]) infos)"

text \<open>The steps the imports end with.\<close>

definition import_tip :: "u32 \<Rightarrow> write_op list \<Rightarrow> chain_state \<Rightarrow> (chain_error + unit) \<times> chain_state" where
  "import_tip t ops st =
     (case reload_recent (st\<lparr>kv := write_batch ops (kv st), tip := Some t, alt_blocks := []\<rparr>) of
        (Inl e, st) \<Rightarrow> (Inl e, st)
      | (Inr _, st) \<Rightarrow> update_block_median_size st)"

definition import_history :: "(u32 \<times> block_info) list \<Rightarrow> u32 \<Rightarrow> chain_state \<Rightarrow> (chain_error + unit) \<times> chain_state" where
  "import_history infos t st =
     import_tip t (info_ops infos @
       [(key_bytes (Meta ''version''), u32_value STATE_SCHEMA_VERSION), (key_bytes (Meta ''tip''), u32_value t)]) st"

definition import_state ::
  "(u64 \<times> u32 \<times> output_record) list \<Rightarrow> (u64 \<times> u32) list \<Rightarrow> (hash \<times> u32) list \<Rightarrow> chain_state \<Rightarrow> chain_state" where
  "import_state outs counts images st =
     st\<lparr>kv := write_batch
       (map (\<lambda>(amount, g, r). (key_bytes (OutputAt amount g), Some (output_record_encode r))) outs @
        map (\<lambda>(amount, n). (key_bytes (OutputCount amount), u32_value n)) counts @
        map (\<lambda>(ki, index). (key_bytes (KeyImage ki), u32_value index)) images) (kv st)\<rparr>"

definition import_block_infos :: "(u32 \<times> block_info) list \<Rightarrow> chain_state \<Rightarrow> chain_state" where
  "import_block_infos infos st = st\<lparr>kv := write_batch (info_ops infos) (kv st)\<rparr>"

definition finish_snapshot_import :: "u32 \<Rightarrow> chain_state \<Rightarrow> (chain_error + unit) \<times> chain_state" where
  "finish_snapshot_import lite st =
     (case recorded_lite_height st of
        Inl e \<Rightarrow> if lite = 0 then (Inl (Corrupt ''a lite snapshot can only finish into a lite node at its height''), st) else (Inl e, st)
      | Inr r \<Rightarrow>
          if lite = 0 \<or> r \<noteq> Some lite then
            (Inl (Corrupt ''a lite snapshot can only finish into a lite node at its height''), st)
          else import_tip (lite - 1)
            [(key_bytes (Meta ''version''), u32_value STATE_SCHEMA_VERSION),
             (key_bytes (Meta ''tip''), u32_value (lite - 1)),
             (key_bytes (Meta ''tag''), Some (ascii ''lite-snapshot''))] (st\<lparr>transactions_floor := lite\<rparr>))"

section \<open>The policy on bodies\<close>

lemma keeps_body_floor:
  assumes "index \<noteq> 0" "prune_depth cf \<noteq> Some 0"
  shows "keeps_body cf index t \<longleftrightarrow> (case body_floor cf t of Some flr \<Rightarrow> flr \<le> index | None \<Rightarrow> False)"
proof (cases "prune_depth cf")
  case None
  then show ?thesis using assms by (auto simp: keeps_body_def body_floor_def)
next
  case (Some d)
  have lt: "unat t < 18446744073709551615" "unat index + unat d < 18446744073709551616"
    using unat_u32_less [of t] unat_u32_less [of index] unat_u32_less [of d] by linarith+
  have u: "unat (ucast t + 1 :: u64) = unat t + 1" "unat (ucast index + ucast d :: u64) = unat index + unat d"
    using lt unat_add_small [of "ucast t :: u64" 1] unat_add_small [of "ucast index :: u64" "ucast d"] by simp_all
  have "unat (saturating_sub (ucast t + 1 :: u64) (ucast d)) = unat t + 1 - unat d"
    unfolding unat_saturating_sub u(1) by simp
  moreover have "0 < unat d" using assms(2) Some by (simp add: unat_gt_0)
  ultimately have "unat (ucast (saturating_sub (ucast t + 1 :: u64) (ucast d)) :: u32) = unat t + 1 - unat d"
    using unat_u32_less [of t] by (simp add: unat_ucast_down del: unat_u32_less)
  then have "(ucast (saturating_sub (ucast t + 1 :: u64) (ucast d)) :: u32) \<le> index \<longleftrightarrow> \<not> (ucast index :: u64) + ucast d \<le> ucast t"
    using u(2) by (auto simp: word_le_nat_alt)
  then show ?thesis using assms(1) Some by (auto simp: keeps_body_def body_floor_def Let_def)
qed

lemma lowest_body_search_edge:
  assumes "lo < hi" "\<not> has lo" "has hi"
  shows "lowest_body_search has lo hi \<le> hi \<and> lo < lowest_body_search has lo hi \<and> has (lowest_body_search has lo hi) \<and>
    \<not> has (lowest_body_search has lo hi - 1)"
  using assms
proof (induction has lo hi rule: lowest_body_search.induct)
  case (1 has lo hi)
  show ?case
  proof (cases "hi - lo > 1")
    case True
    define mid where "mid = lo + (hi - lo) div 2"
    have mid: "lo < mid" "mid < hi"
      using search_halves [OF 1(3) True] by (auto simp: word_less_nat_alt mid_def)
    have step: "lowest_body_search has lo hi = (if has mid then lowest_body_search has lo mid else lowest_body_search has mid hi)"
      using 1(3) True by (subst lowest_body_search.simps) (simp add: mid_def Let_def)
    show ?thesis
    proof (cases "has mid")
      case h: True
      then show ?thesis using 1(1) [OF conjI [OF 1(3) True] mid_def] mid 1(4) unfolding step by auto
    next
      case h: False
      then show ?thesis using 1(2) [OF conjI [OF 1(3) True] mid_def] mid 1(5) unfolding step by auto
    qed
  next
    case False
    then have "unat hi - unat lo \<le> 1" using 1(3) by (simp add: word_less_nat_alt unat_sub word_le_nat_alt)
    then have "unat (lo + 1) = unat hi" using 1(3) unat_Suc_less [of lo hi] by (simp add: word_less_nat_alt)
    then have "hi = lo + 1" unfolding word_unat_eq_iff by simp
    then show ?thesis using 1(3-5) False by (simp add: lowest_body_search.simps)
  qed
qed

definition stored_body :: "chain_state \<Rightarrow> u32 \<Rightarrow> bool" where
  "stored_body st i \<longleftrightarrow> store_get st (RawBlock i) \<noteq> None"

lemma lowest_stored_body_edge:
  assumes "lowest_stored_body st = Some b" "tip st = Some t"
  shows "b \<le> t" "stored_body st b" "b = 0 \<or> \<not> stored_body st (b - 1)"
proof -
  have d: "lowest_stored_body st = (if \<not> stored_body st t then None else if stored_body st 0 then Some 0
      else Some (lowest_body_search (stored_body st) 0 t))"
    using assms(2) by (simp add: lowest_stored_body_def stored_body_def [abs_def] Let_def)
  show "b \<le> t" "stored_body st b" "b = 0 \<or> \<not> stored_body st (b - 1)"
    using assms(1) lowest_body_search_edge [of 0 t "stored_body st"] unfolding d
    by (cases "t = 0"; auto simp: word_gt_0 split: if_splits)+
qed

lemma prune_scan_range:
  assumes "a \<le> b" "k + (b - a) < 2 ^ 32" "k \<le> unat budget"
  obtains r where "a \<le> r" "r \<le> b"
    "prune_scan has budget (of_nat b) [a..<b] ops (of_nat k) =
      (ops @ map (\<lambda>i. (key_bytes (RawBlock (of_nat i)), None)) (filter (\<lambda>i. has (of_nat i)) [a..<r]),
       of_nat (k + length (filter (\<lambda>i. has (of_nat i)) [a..<r])), of_nat r)"
    "k + length (filter (\<lambda>i. has (of_nat i)) [a..<r]) \<le> unat budget"
    "r = b \<or> k + length (filter (\<lambda>i. has (of_nat i)) [a..<r]) = unat budget"
  using assms
proof (induction "b - a" arbitrary: a k ops thesis)
  case 0
  then show ?case by (intro 0(2) [of a]) auto
next
  case (Suc n)
  have k: "unat (of_nat k :: u32) = k" using Suc.prems(3) by (intro unat_of_nat_less) simp
  have ab: "a < b" using Suc.hyps(2) by simp
  note up = upt_conv_Cons [OF ab]
  show ?case
  proof (cases "k = unat budget")
    case True
    then show ?thesis using Suc.prems up by (intro Suc.prems(1) [of a]) (simp_all add: word_le_nat_alt k)
  next
    case False
    let ?k = "if has (of_nat a) then Suc k else k"
      and ?ops = "if has (of_nat a) then ops @ [(key_bytes (RawBlock (of_nat a)), None)] else ops"
    have pre: "n = b - Suc a" "Suc a \<le> b" "?k + (b - Suc a) < 2 ^ 32" "?k \<le> unat budget"
      using Suc.hyps(2) Suc.prems(2-4) ab False by auto
    obtain r where r: "Suc a \<le> r" "r \<le> b"
      "prune_scan has budget (of_nat b) [Suc a..<b] ?ops (of_nat ?k) =
        (?ops @ map (\<lambda>i. (key_bytes (RawBlock (of_nat i)), None)) (filter (\<lambda>i. has (of_nat i)) [Suc a..<r]),
         of_nat (?k + length (filter (\<lambda>i. has (of_nat i)) [Suc a..<r])), of_nat r)"
      "?k + length (filter (\<lambda>i. has (of_nat i)) [Suc a..<r]) \<le> unat budget"
      "r = b \<or> ?k + length (filter (\<lambda>i. has (of_nat i)) [Suc a..<r]) = unat budget"
      by (rule Suc.hyps(1) [OF pre(1) _ pre(2-4)])
    have ar: "[a..<r] = a # [Suc a..<r]" using r(1) by (simp add: upt_conv_Cons)
    have "\<not> of_nat k \<ge> budget" using False Suc.prems(4) by (simp add: word_le_nat_alt k)
    then have "prune_scan has budget (of_nat b) [a..<b] ops (of_nat k) = prune_scan has budget (of_nat b) [Suc a..<b] ?ops (of_nat ?k)"
      unfolding up by (simp add: add.commute)
    then show ?thesis using r by (intro Suc.prems(1) [of r]) (auto simp: ar split: if_splits)
  qed
qed

lemma write_deletes:
  "write_batch (map (\<lambda>x. (key_bytes (g x), None)) xs) m (key_bytes sk) = (if sk \<in> g ` set xs then None else m (key_bytes sk))"
  by (induction xs arbitrary: m) (auto simp: write_batch_Cons)

text \<open>Where a pass starts, and what it leaves.\<close>

definition prune_start :: "chain_state \<Rightarrow> u32 \<Rightarrow> u32 \<Rightarrow> u32" where
  "prune_start st flr below = (if below = 0 then (case lowest_stored_body st of Some b \<Rightarrow> b | None \<Rightarrow> flr) else below)"

definition bodies_cut :: "u32 \<Rightarrow> u32 \<Rightarrow> chain_state \<Rightarrow> chain_state \<Rightarrow> bool" where
  "bodies_cut start r st st' \<longleftrightarrow>
     st' = st\<lparr>kv := kv st'\<rparr> \<and>
     (\<forall>k. store_get st' k =
        (case k of
           RawBlock i \<Rightarrow> if start \<le> i \<and> i < r then None else store_get st k
         | Meta m \<Rightarrow> if m = ''prune_floor'' then u32_value r else store_get st k
         | _ \<Rightarrow> store_get st k))"

lemma scanned_set:
  assumes "r < 2 ^ 32"
  shows "of_nat ` {j \<in> {unat start..<r}. stored_body st (of_nat j)} = {i :: u32. start \<le> i \<and> i < of_nat r \<and> stored_body st i}"
proof (rule set_eqI)
  have r: "unat (of_nat r :: u32) = r" using assms by (simp add: unat_of_nat_less)
  show "i \<in> of_nat ` {j \<in> {unat start..<r}. stored_body st (of_nat j)} \<longleftrightarrow>
      i \<in> {i. start \<le> i \<and> i < of_nat r \<and> stored_body st i}" for i :: u32
    using assms r by (force simp: word_le_nat_alt word_less_nat_alt unat_of_nat_less intro: image_eqI [of _ _ "unat i"])
qed

lemma scanned_card:
  assumes "r < 2 ^ 32"
  shows "card (of_nat ` {j \<in> {a..<r}. P j} :: u32 set) = length (filter P [a..<r])"
proof -
  have u: "unat (of_nat j :: u32) = j" if "j < r" for j using that assms by (intro unat_of_nat_less) simp
  have "inj_on (of_nat :: nat \<Rightarrow> u32) {j \<in> {a..<r}. P j}"
    by (rule inj_on_inverseI [of _ unat]) (simp add: u)
  then have "card (of_nat ` {j \<in> {a..<r}. P j} :: u32 set) = card {j \<in> {a..<r}. P j}" by (rule card_image)
  also have "\<dots> = length (filter P [a..<r])"
    using distinct_card [of "filter P [a..<r]"] by simp
  finally show ?thesis .
qed

lemma bodies_cut_batch:
  assumes "unat start \<le> r" "r < 2 ^ 32"
    and "kv st' = write_batch (map (\<lambda>i. (key_bytes (RawBlock (of_nat i)), None)) (filter (\<lambda>i. stored_body st (of_nat i)) [unat start..<r]) @
      [(key_bytes (Meta ''prune_floor''), u32_value (of_nat r))]) (kv st)"
    and "st' = st\<lparr>kv := kv st'\<rparr>"
  shows "bodies_cut start (of_nat r) st st'"
proof -
  have r: "unat (of_nat r :: u32) = r" using assms(2) by (simp add: unat_of_nat_less)
  note set = scanned_set [OF assms(2), of start st]
  have "(\<lambda>i. RawBlock (of_nat i)) ` {j \<in> {unat start..<r}. stored_body st (of_nat j)} =
      RawBlock ` {i. start \<le> i \<and> i < of_nat r \<and> stored_body st i}"
    unfolding set [symmetric] by (simp add: image_image)
  then show ?thesis
    using assms(3,4)
    by (auto simp: bodies_cut_def store_get_def write_batch_append write_deletes write_batch_Cons stored_body_def split: store_key.splits)
qed

lemma prune_bodies_pass:
  assumes "tip st = Some t" "prune_depth (cfg st) = Some d" "body_floor (cfg st) t = Some flr" "pruned_below st = Inr below"
  obtains (idle) "flr \<le> prune_start st flr below" "prune_bodies budget st = Inr (0, st)" "flr \<le> below"
  | (mark) "flr \<le> prune_start st flr below" "below < flr" "prune_bodies budget st = Inr (0, put (Meta ''prune_floor'') (to_le 4 flr) st)"
  | (cut) r st' where "prune_start st flr below \<le> r" "r \<le> flr" "0 < budget \<Longrightarrow> prune_start st flr below < r"
      "bodies_cut (prune_start st flr below) r st st'"
      "prune_bodies budget st = Inr (of_nat (card {i. prune_start st flr below \<le> i \<and> i < r \<and> stored_body st i}), st')"
      "card {i. prune_start st flr below \<le> i \<and> i < r \<and> stored_body st i} \<le> unat budget"
proof -
  let ?s = "prune_start st flr below"
  have p: "prune_bodies budget st = (if ?s \<ge> flr then
      Inr (0, if below < flr then put (Meta ''prune_floor'') (to_le 4 flr) st else st)
    else case prune_scan (stored_body st) budget (min flr (saturating_add ?s MAX_SCAN))
        [unat ?s..<unat (min flr (saturating_add ?s MAX_SCAN))] [] 0 of
      (ops, removed, reached) \<Rightarrow> Inr (removed,
        st\<lparr>kv := write_batch (ops @ [(key_bytes (Meta ''prune_floor''), u32_value reached)]) (kv st)\<rparr>))"
    using assms by (simp add: prune_bodies_def prune_start_def stored_body_def [abs_def] Let_def)
  show thesis
  proof (cases "flr \<le> ?s")
    case True
    then show thesis using p idle mark by (cases "below < flr") (simp_all add: not_less)
  next
    case False
    define stop where "stop = min flr (saturating_add ?s MAX_SCAN)"
    have "unat stop = min (unat flr) (min (unat ?s + 200000) 4294967295)"
      by (simp add: stop_def min_def word_le_nat_alt unat_saturating_add)
    moreover have "unat flr \<le> 4294967295" using unat_u32_less [of flr] by linarith
    ultimately have stop: "unat ?s < unat stop" "stop \<le> flr" using False by (auto simp: word_le_nat_alt)
    have pre: "unat ?s \<le> unat stop" "0 + (unat stop - unat ?s) < 2 ^ 32" "0 \<le> unat budget"
      using stop(1) unat_u32_less [of stop] by (simp_all del: unat_u32_less)
    obtain r where r: "unat ?s \<le> r" "r \<le> unat stop"
      "prune_scan (stored_body st) budget stop [unat ?s..<unat stop] [] (of_nat 0) =
        (map (\<lambda>i. (key_bytes (RawBlock (of_nat i)), None)) (filter (\<lambda>i. stored_body st (of_nat i)) [unat ?s..<r]),
         of_nat (length (filter (\<lambda>i. stored_body st (of_nat i)) [unat ?s..<r])), of_nat r)"
      "length (filter (\<lambda>i. stored_body st (of_nat i)) [unat ?s..<r]) \<le> unat budget"
      "r = unat stop \<or> length (filter (\<lambda>i. stored_body st (of_nat i)) [unat ?s..<r]) = unat budget"
      by (rule prune_scan_range [OF pre, of "stored_body st" "[]", unfolded append_Nil add_0 of_nat_unat ucast_id])
    have small: "r < 2 ^ 32" using r(2) unat_u32_less [of stop] by (simp del: unat_u32_less)
    let ?is = "filter (\<lambda>i. stored_body st (of_nat i)) [unat ?s..<r]"
      and ?st' = "st\<lparr>kv := write_batch (map (\<lambda>i. (key_bytes (RawBlock (of_nat i)), None))
        (filter (\<lambda>i. stored_body st (of_nat i)) [unat ?s..<r]) @ [(key_bytes (Meta ''prune_floor''), u32_value (of_nat r))]) (kv st)\<rparr>"
    have count: "card {i. ?s \<le> i \<and> i < of_nat r \<and> stored_body st i} = length ?is"
      using scanned_set [OF small, of ?s st] scanned_card [OF small, of "unat ?s" "\<lambda>i. stored_body st (of_nat i)"] by simp
    have ur: "unat (of_nat r :: u32) = r" using small by (simp add: unat_of_nat_less)
    show thesis
    proof (rule cut [of "of_nat r" ?st'])
      show "?s \<le> of_nat r" "of_nat r \<le> flr" using r(1,2) stop by (simp_all add: word_le_nat_alt ur)
      show "?s < of_nat r" if "0 < budget"
      proof -
        have "r \<noteq> unat ?s" using r(5) stop(1) that by (auto simp: word_less_nat_alt)
        then show ?thesis using r(1) by (simp add: word_less_nat_alt ur)
      qed
      show "bodies_cut ?s (of_nat r) st ?st'" by (rule bodies_cut_batch [OF r(1) small]) simp_all
      show "prune_bodies budget st = Inr (of_nat (card {i. ?s \<le> i \<and> i < of_nat r \<and> stored_body st i}), ?st')"
        unfolding p count stop_def [symmetric] using False r(3) by simp
      show "card {i. ?s \<le> i \<and> i < of_nat r \<and> stored_body st i} \<le> unat budget" unfolding count by (rule r(4))
    qed
  qed
qed

lemma u32_record_get: "u32_record what (u32_value n) = Inr (Some n)"
  by (simp add: u32_record_def u32_value_def)

lemma bodies_cut_stored: "bodies_cut start r st st' \<Longrightarrow> stored_body st' i \<longleftrightarrow> stored_body st i \<and> \<not> (start \<le> i \<and> i < r)"
  by (auto simp: bodies_cut_def stored_body_def)

lemma bodies_cut_rest: "bodies_cut start r st st' \<Longrightarrow> tip st' = tip st \<and> cfg st' = cfg st"
  by (cases st'; cases st) (simp add: bodies_cut_def)

lemma stored_body_put [simp]: "stored_body (put (Meta m) v st) i = stored_body st i"
  by (simp add: stored_body_def put_def store_get_def)

text \<open>C20: A prune pass only ever deletes bodies below the floor of the policy, never more than its budget.\<close>

theorem prune_bodies_safe:
  assumes "tip st = Some t" "prune_depth (cfg st) = Some d" "body_floor (cfg st) t = Some flr" "pruned_below st = Inr below"
  shows "\<exists>n st'. prune_bodies budget st = Inr (n, st') \<and> st' = st\<lparr>kv := kv st'\<rparr> \<and> n \<le> budget \<and>
    unat n = card {i. stored_body st i \<and> \<not> stored_body st' i} \<and>
    (\<forall>k. store_get st' k \<noteq> store_get st k \<longrightarrow>
       k = Meta ''prune_floor'' \<or> (\<exists>i < flr. k = RawBlock i \<and> store_get st' k = None))"
  using assms
proof (cases rule: prune_bodies_pass [where budget = budget])
  case mark
  then show ?thesis by (auto simp: put_def store_get_def stored_body_def)
next
  case (cut r st')
  have gone: "{i. stored_body st i \<and> \<not> stored_body st' i} = {i. prune_start st flr below \<le> i \<and> i < r \<and> stored_body st i}"
    using bodies_cut_stored [OF cut(4)] by auto
  have n: "unat (of_nat (card {i. prune_start st flr below \<le> i \<and> i < r \<and> stored_body st i}) :: u32) =
      card {i. prune_start st flr below \<le> i \<and> i < r \<and> stored_body st i}"
    using cut(6) unat_u32_less [of budget] by (intro unat_of_nat_less) (simp del: unat_u32_less)
  have "k = Meta ''prune_floor'' \<or> (\<exists>i < flr. k = RawBlock i \<and> store_get st' k = None)"
    if "store_get st' k \<noteq> store_get st k" for k
    using that cut(2,4) by (auto simp: bodies_cut_def split: store_key.splits if_splits)
  then show ?thesis using cut(4-6) n gone by (auto simp: word_le_nat_alt bodies_cut_def)
qed auto

definition prune_pass :: "u32 \<Rightarrow> chain_state \<Rightarrow> chain_state" where
  "prune_pass budget st = (case prune_bodies budget st of Inr (_, st') \<Rightarrow> st' | Inl _ \<Rightarrow> st)"

text \<open>No body is stored below the point where the next pass starts.\<close>

definition prune_point :: "chain_state \<Rightarrow> u32 \<Rightarrow> u32 \<Rightarrow> bool" where
  "prune_point st flr below \<longleftrightarrow> pruned_below st = Inr below \<and> (\<forall>i < prune_start st flr below. \<not> stored_body st i)"

lemma prune_pass_progress:
  assumes "tip st = Some t" "prune_depth (cfg st) = Some d" "body_floor (cfg st) t = Some flr" "prune_point st flr below" "0 < budget"
  shows "(\<forall>i < flr. \<not> stored_body (prune_pass budget st) i) \<or>
    (\<exists>r > below. prune_point (prune_pass budget st) flr r \<and> tip (prune_pass budget st) = tip st \<and> cfg (prune_pass budget st) = cfg st)"
proof -
  have pb: "pruned_below st = Inr below" and none: "\<And>i. i < prune_start st flr below \<Longrightarrow> \<not> stored_body st i"
    using assms(4) by (auto simp: prune_point_def)
  from assms(1-3) pb show ?thesis
  proof (cases rule: prune_bodies_pass [where budget = budget])
    case (cut r st')
    have st': "prune_pass budget st = st'" using cut(5) by (simp add: prune_pass_def)
    have r: "prune_start st flr below < r" using cut(3) assms(5) by simp
    then have "below < r" "r \<noteq> 0" by (auto simp: prune_start_def word_gt_0 split: if_splits)
    moreover have "pruned_below st' = Inr r"
      using cut(4) by (simp add: bodies_cut_def pruned_below_def u32_record_get unwrap_or_zero_def)
    moreover have "\<not> stored_body st' i" if "i < r" for i
      using bodies_cut_stored [OF cut(4), of i] none [of i] that by fastforce
    moreover have "tip st' = tip st" "cfg st' = cfg st" using bodies_cut_rest [OF cut(4)] by simp_all
    ultimately show ?thesis unfolding st' by (auto simp: prune_point_def prune_start_def)
  qed (auto simp: prune_pass_def none)
qed

lemma prune_passes_reach:
  assumes "tip st = Some t" "prune_depth (cfg st) = Some d" "body_floor (cfg st) t = Some flr" "prune_point st flr below" "0 < budget"
  shows "\<exists>n. \<forall>i < flr. \<not> stored_body ((prune_pass budget ^^ n) st) i"
  using assms
proof (induction "2 ^ 32 - unat below" arbitrary: st below rule: less_induct)
  case less
  from prune_pass_progress [OF less.prems] show ?case
  proof
    assume "\<forall>i < flr. \<not> stored_body (prune_pass budget st) i"
    then show ?thesis by (intro exI [of _ 1]) simp
  next
    assume "\<exists>r > below. prune_point (prune_pass budget st) flr r \<and> tip (prune_pass budget st) = tip st \<and> cfg (prune_pass budget st) = cfg st"
    then obtain r where r: "below < r" "prune_point (prune_pass budget st) flr r" "tip (prune_pass budget st) = tip st"
      "cfg (prune_pass budget st) = cfg st" by blast
    have "2 ^ 32 - unat r < 2 ^ 32 - unat below"
      using r(1) unat_u32_less [of r] by (simp add: word_less_nat_alt del: unat_u32_less)
    then obtain n where "\<forall>i < flr. \<not> stored_body ((prune_pass budget ^^ n) (prune_pass budget st)) i"
      using less.hyps [of r "prune_pass budget st"] less.prems r by auto
    then show ?thesis by (intro exI [of _ "Suc n"]) (simp add: funpow_swap1)
  qed
qed

text \<open>The shape of the stored bodies: present from some height up to the tip.\<close>

definition bodies_from :: "chain_state \<Rightarrow> u32 \<Rightarrow> bool" where
  "bodies_from st t \<longleftrightarrow> (\<forall>i. stored_body st i \<longrightarrow> i \<le> t \<and> (\<forall>j. i \<le> j \<and> j \<le> t \<longrightarrow> stored_body st j))"

lemma bodies_fromD:
  assumes "bodies_from st t" "stored_body st i"
  shows "i \<le> t" "i \<le> j \<Longrightarrow> j \<le> t \<Longrightarrow> stored_body st j"
  using assms unfolding bodies_from_def by blast+

lemma lowest_stored_body_least:
  assumes "bodies_from st t" "tip st = Some t" "stored_body st i"
  obtains b where "lowest_stored_body st = Some b" "b \<le> i"
proof -
  note above = bodies_fromD [OF assms(1,3)]
  have "stored_body st t" by (rule above(2) [OF above(1) order.refl])
  then have "lowest_stored_body st \<noteq> None"
    using assms(2) by (auto simp: lowest_stored_body_def stored_body_def Let_def)
  then obtain b where b: "lowest_stored_body st = Some b" by blast
  note edge = lowest_stored_body_edge [OF b assms(2)]
  have "b \<le> i"
  proof (rule ccontr)
    assume "\<not> b \<le> i"
    then have "i < b" "b \<noteq> 0" by auto
    then have "i \<le> b - 1" "b - 1 \<le> t" using edge(1) by (auto simp: word_less_nat_alt word_le_nat_alt unat_minus_one)
    then have "stored_body st (b - 1)" by (rule above(2))
    then show False using edge(3) \<open>b \<noteq> 0\<close> by simp
  qed
  then show thesis using b that by blast
qed

text \<open>C19: Repeated passes clear every body below the floor, whether the first pass has a recorded height to start from or not,
  when no body is stored below the recorded height and the stored bodies run without a gap up to the tip.\<close>

theorem prune_passes_finish:
  assumes "tip st = Some t" "prune_depth (cfg st) = Some d" "body_floor (cfg st) t = Some flr"
    and "pruned_below st = Inr below" "\<And>i. i < below \<Longrightarrow> \<not> stored_body st i"
    and "bodies_from st t" "0 < budget"
  shows "\<exists>n. \<forall>i < flr. \<not> stored_body ((prune_pass budget ^^ n) st) i"
proof (rule prune_passes_reach [OF assms(1-3) _ assms(7)])
  have "\<not> stored_body st i" if "i < prune_start st flr below" for i
  proof
    assume i: "stored_body st i"
    then obtain b where "lowest_stored_body st = Some b" "b \<le> i" by (rule lowest_stored_body_least [OF assms(6,1)])
    then show False using that assms(5) i by (auto simp: prune_start_def split: if_splits)
  qed
  then show "prune_point st flr below" using assms(4) by (simp add: prune_point_def)
qed

definition two_bodies :: chain_state where
  "two_bodies = one_block_chain\<lparr>kv := [key_bytes (RawBlock 0) \<mapsto> [], key_bytes (RawBlock 1) \<mapsto> []],
     cfg := config_default\<lparr>prune_depth := Some 1\<rparr>, tip := Some 1\<rparr>"

lemma two_bodies_facts:
  "tip two_bodies = Some 1" "prune_depth (cfg two_bodies) = Some 1" "body_floor (cfg two_bodies) 1 = Some 1"
  "store_get two_bodies (Meta ''prune_floor'') = None" "stored_body two_bodies i \<longleftrightarrow> i = 0 \<or> i = 1"
  by (auto simp: two_bodies_def config_default_def body_floor_def saturating_sub_def store_get_def stored_body_def)

lemma two_bodies_shape: "bodies_from two_bodies 1"
proof -
  have "j = 0 \<or> j = 1" if "j \<le> 1" for j :: u32 using that by (auto simp: word_le_nat_alt word_unat_eq_iff)
  then show ?thesis by (auto simp: bodies_from_def two_bodies_facts)
qed

theorem prune_bodies_safe_witness:
  "\<exists>n st'. prune_bodies 5 two_bodies = Inr (n, st') \<and> st' = two_bodies\<lparr>kv := kv st'\<rparr> \<and> n \<le> 5 \<and>
    unat n = card {i. stored_body two_bodies i \<and> \<not> stored_body st' i} \<and>
    (\<forall>k. store_get st' k \<noteq> store_get two_bodies k \<longrightarrow>
       k = Meta ''prune_floor'' \<or> (\<exists>i < 1. k = RawBlock i \<and> store_get st' k = None))"
proof (rule prune_bodies_safe [OF two_bodies_facts(1-3)])
  show "pruned_below two_bodies = Inr 0"
    by (simp add: pruned_below_def two_bodies_facts u32_record_def unwrap_or_zero_def)
qed

theorem prune_passes_finish_witness:
  "stored_body two_bodies 0 \<and> (\<exists>n. \<forall>i < 1. \<not> stored_body ((prune_pass 5 ^^ n) two_bodies) i)"
proof -
  have "pruned_below two_bodies = Inr 0"
    by (simp add: pruned_below_def two_bodies_facts u32_record_def unwrap_or_zero_def)
  from prune_passes_finish [OF two_bodies_facts(1-3) this _ two_bodies_shape, of 5] show ?thesis
    using two_bodies_facts(5) by simp
qed

section \<open>What an open fixes\<close>

lemma reload_recent_kv: "kv (snd (reload_recent st)) = kv st"
proof -
  have "kv (snd (reload_loop st is)) = kv st" for st "is" by (induction "is" arbitrary: st) (simp_all split: sum.splits)
  then show ?thesis by (simp add: reload_recent_def Let_def split: option.splits)
qed

lemma update_median_kv: "kv (snd (update_block_median_size st)) = kv st"
  by (simp add: update_block_median_size_def Let_def split: option.splits sum.splits)

text \<open>The two records agree with what the open asked for; the defaults have none.\<close>

definition lite_recorded :: "store \<Rightarrow> config \<Rightarrow> bool" where
  "lite_recorded s cf \<longleftrightarrow>
     (case s (key_bytes (Meta ''lite_height'')) of
        None \<Rightarrow> lite_start_height cf = 0
      | Some b \<Rightarrow> length b = 4 \<and> from_le b = lite_start_height cf)"

definition network_recorded :: "store \<Rightarrow> config \<Rightarrow> bool" where
  "network_recorded s cf \<longleftrightarrow> s (key_bytes (Meta ''network'')) = (if simnet cf then Some (ascii ''simnet'') else None)"

lemma settle_lite_recorded:
  assumes "settle_lite_height st = Inr st'"
  shows "lite_recorded (kv st') (cfg st)" "cfg st' = cfg st" "tip st' = tip st" "tip st \<noteq> None \<Longrightarrow> kv st' = kv st"
    "kv st' (key_bytes (Meta ''network'')) = kv st (key_bytes (Meta ''network''))"
  using assms
  by (auto simp: settle_lite_height_def recorded_lite_height_def lite_recorded_def u32_record_def store_get_def put_def Let_def
      and_then_simps split: option.splits if_splits)

lemma settle_network_recorded:
  assumes "settle_network st = Inr st'"
  shows "network_recorded (kv st') (cfg st)" "tip st \<noteq> None \<Longrightarrow> kv st' = kv st"
    "kv st' (key_bytes (Meta ''lite_height'')) = kv st (key_bytes (Meta ''lite_height''))"
  using assms
  by (auto simp: settle_network_def network_recorded_def store_get_def put_def Let_def split: if_splits)

lemma open_chain_recorded:
  assumes "open_chain s cf cp now = (Inr (), st)"
  shows "lite_recorded (kv st) cf \<and> network_recorded (kv st) cf \<and>
    (s (key_bytes (Meta ''tip'')) \<noteq> None \<longrightarrow> lite_recorded s cf \<and> network_recorded s cf)"
proof -
  let ?st = "\<lparr>kv = s, cfg = cf, cs_checkpoints = cp, tip = None, recent = [], median_size = 0, alt_blocks = [],
    unwound = [], clock = now, strict_list = True, transactions_floor = 0\<rparr>"
  obtain t where t: "u32_record ''tip record'' (store_get ?st (Meta ''tip'')) = Inr t"
    using assms by (simp add: open_chain_def Let_def split: if_splits sum.splits)
  obtain st1 where st1: "settle_lite_height (?st\<lparr>tip := t\<rparr>) = Inr st1"
    using assms t by (simp add: open_chain_def Let_def split: if_splits sum.splits)
  obtain st2 where st2: "settle_network st1 = Inr st2"
    using assms t st1 by (simp add: open_chain_def Let_def split: if_splits sum.splits)
  obtain n where n: "read_transactions_floor st2 = Inr n"
    using assms t st1 st2 by (simp add: open_chain_def Let_def split: if_splits sum.splits)
  define st3 where "st3 = (case prune_depth cf of
    Some depth \<Rightarrow> put (Meta ''prune_depth'') (to_le 4 depth) (st2\<lparr>transactions_floor := n\<rparr>) | None \<Rightarrow> st2\<lparr>transactions_floor := n\<rparr>)"
  have "(case reload_recent st3 of (Inl e, st) \<Rightarrow> (Inl e, st) | (Inr _, st) \<Rightarrow> update_block_median_size st) = (Inr (), st)"
    using assms t st1 st2 n by (simp add: open_chain_def Let_def st3_def split: if_splits sum.splits)
  then have kv: "kv st = kv st3"
    using reload_recent_kv [of st3] update_median_kv [of "snd (reload_recent st3)"]
    by (auto split: prod.splits sum.splits)
  have meta: "kv st3 (key_bytes (Meta m)) = kv st2 (key_bytes (Meta m))" if "m \<noteq> ''prune_depth''" for m
    using that by (simp add: st3_def put_def split: option.splits)
  have tip: "t \<noteq> None" if "s (key_bytes (Meta ''tip'')) \<noteq> None"
    using t that by (auto simp: u32_record_def store_get_def split: if_splits)
  show ?thesis
    using settle_lite_recorded [OF st1] settle_network_recorded [OF st2] tip kv meta
    by (cases "t = None") (auto simp: lite_recorded_def network_recorded_def)
qed

lemma declare_lite_records:
  assumes "declare_lite_height h st = Inr st'" "lite_recorded (kv st) cf"
  shows "kv st' (key_bytes (Meta ''network'')) = kv st (key_bytes (Meta ''network''))"
    "lite_recorded (kv st') cf' \<Longrightarrow> lite_start_height cf' = h" "lite_start_height cf \<noteq> 0 \<Longrightarrow> lite_start_height cf = h"
  using assms
  by (auto simp: declare_lite_height_def recorded_lite_height_def lite_recorded_def u32_record_def store_get_def put_def
      and_then_simps split: option.splits if_splits)

text \<open>C21: The mode of a database that has blocks is settled by its two records. When they are those the first open left, it
  opens again only at the same lite height and on the same network. The one operation that relabels,
  \<open>declare_lite_height\<close>, keeps the network and a lite height that is not 0, and makes a full database open only at the
  declared height.\<close>

theorem open_mode_permanent:
  assumes "open_chain s cf cp now = (Inr (), st)" and "st1 = st \<or> declare_lite_height h st = Inr st1"
    and "s' (key_bytes (Meta ''lite_height'')) = kv st1 (key_bytes (Meta ''lite_height''))"
      "s' (key_bytes (Meta ''network'')) = kv st1 (key_bytes (Meta ''network''))" "s' (key_bytes (Meta ''tip'')) \<noteq> None"
    and "open_chain s' cf' cp' now' = (Inr (), st')"
  shows "simnet cf' = simnet cf \<and> (st1 = st \<or> lite_start_height cf \<noteq> 0 \<longrightarrow> lite_start_height cf' = lite_start_height cf) \<and>
    (st1 \<noteq> st \<longrightarrow> lite_start_height cf' = h)"
proof -
  note first = open_chain_recorded [OF assms(1)]
  have second: "lite_recorded s' cf'" "network_recorded s' cf'" using open_chain_recorded [OF assms(6)] assms(5) by simp_all
  then have lite: "lite_recorded (kv st1) cf'" using assms(3) by (simp add: lite_recorded_def)
  have "kv st1 (key_bytes (Meta ''network'')) = kv st (key_bytes (Meta ''network''))"
    using assms(2) declare_lite_records(1) first by blast
  then have "simnet cf' = simnet cf"
    using first second(2) assms(4) by (auto simp: network_recorded_def split: if_splits)
  moreover have "lite_start_height cf' = lite_start_height cf" if "st1 = st"
    using first lite that by (auto simp: lite_recorded_def split: option.splits)
  moreover have "lite_start_height cf' = h" "lite_start_height cf \<noteq> 0 \<Longrightarrow> lite_start_height cf = h" if "st1 \<noteq> st"
    using that assms(2) first lite declare_lite_records(2,3) by blast+
  ultimately show ?thesis by (cases "st1 = st") simp_all
qed

lemma one_block_opens: "\<exists>st. open_chain (kv one_block_chain) config_default cp now = (Inr (), st) \<and> kv st = kv one_block_chain"
proof -
  let ?st = "\<lparr>kv = kv one_block_chain, cfg = config_default, cs_checkpoints = cp, tip = None, recent = [], median_size = 0,
    alt_blocks = [], unwound = [], clock = now, strict_list = True, transactions_floor = 0\<rparr>"
  let ?st1 = "?st\<lparr>tip := Some 0\<rparr>"
  have get: "kv one_block_chain (key_bytes k) = (if k = BlockInfoKey 0 then Some (block_info_encode one_block_info)
      else if k = Meta ''tip'' then u32_value 0 else None)" for k
    using one_block_chain_reads by (simp add: store_get_def)
  have cf: "lite_start_height config_default = 0" "\<not> simnet config_default" "prune_depth config_default = None"
    "unwind_history config_default = 512" "recent_window config_default = 256"
    by (simp_all add: config_default_def)
  have settle: "settle_lite_height ?st1 = Inr ?st1" "settle_network ?st1 = Inr ?st1" "read_transactions_floor ?st1 = Inr 0"
    by (simp_all add: settle_lite_height_def recorded_lite_height_def settle_network_def read_transactions_floor_def state_tag_def
        store_get_def get u32_record_def cf Let_def)
  have infos: "infos_ok (\<lambda>i. one_block_info) 0 (?st1\<lparr>recent := [one_block_info]\<rparr>)"
    by (simp add: infos_ok_def store_get_def get cf) (simp add: one_block_info_def)
  have decode: "block_info_decode (block_info_encode one_block_info) = Inr one_block_info"
    by (rule block_info_roundtrip) (simp add: one_block_info_def)
  have rec: "reload_recent ?st1 = (Inr (), ?st1\<lparr>recent := [one_block_info]\<rparr>)"
    using decode by (simp add: reload_recent_def store_get_def get Let_def cf ok_or_def)
  have "open_chain (kv one_block_chain) config_default cp now = update_block_median_size (?st1\<lparr>recent := [one_block_info]\<rparr>)"
    using settle rec
    by (simp add: open_chain_def Let_def store_get_def get u32_record_def [of _ None] u32_record_get cf)
      (simp add: CRYPTONOTE_MAX_ALT_BLOCK_DEPTH_def)
  then show ?thesis using update_median_ok [OF infos] by simp
qed

theorem open_mode_permanent_witness:
  "\<exists>st st' st1. open_chain (kv one_block_chain) config_default \<lparr>points = [], disabled_from = 0\<rparr> 7 = (Inr (), st) \<and>
    open_chain (kv st) config_default \<lparr>points = [], disabled_from = 0\<rparr> 8 = (Inr (), st') \<and>
    (\<forall>st''. open_chain (kv st) (config_default\<lparr>simnet := True\<rparr>) \<lparr>points = [], disabled_from = 0\<rparr> 9 \<noteq> (Inr (), st'')) \<and>
    declare_lite_height 5 st = Inr st1 \<and>
    (\<forall>st''. open_chain (kv st1) config_default \<lparr>points = [], disabled_from = 0\<rparr> 9 \<noteq> (Inr (), st''))"
proof -
  let ?cp = "\<lparr>points = [], disabled_from = 0\<rparr>"
  obtain st where st: "open_chain (kv one_block_chain) config_default ?cp 7 = (Inr (), st)" "kv st = kv one_block_chain"
    using one_block_opens by blast
  obtain st' where st': "open_chain (kv st) config_default ?cp 8 = (Inr (), st')"
    using one_block_opens [of ?cp 8] st(2) by auto
  have get: "kv st (key_bytes (Meta ''tip'')) \<noteq> None" "kv st (key_bytes (Meta ''lite_height'')) = None"
    using st(2) one_block_chain_reads by (simp_all add: store_get_def u32_value_def)
  define st1 where "st1 = (put (Meta ''lite_height'') (to_le 4 (5 :: u32)) st)\<lparr>cfg := (cfg st)\<lparr>lite_start_height := 5\<rparr>\<rparr>"
  have declared: "declare_lite_height 5 st = Inr st1"
    using get(2) by (simp add: declare_lite_height_def recorded_lite_height_def store_get_def u32_record_def st1_def)
  have st1: "kv st1 (key_bytes (Meta ''tip'')) \<noteq> None" "kv st1 (key_bytes (Meta ''lite_height'')) \<noteq> None"
    using get(1) by (simp_all add: st1_def put_def)
  have "open_chain (kv st) (config_default\<lparr>simnet := True\<rparr>) ?cp 9 \<noteq> (Inr (), st'')" for st''
    using open_mode_permanent [OF st(1) disjI1 [OF refl] refl refl get(1), of "config_default\<lparr>simnet := True\<rparr>"]
    by (auto simp: config_default_def)
  moreover have "open_chain (kv st1) config_default ?cp 9 \<noteq> (Inr (), st'')" for st''
    using open_mode_permanent [OF st(1) disjI2 [OF declared] refl refl st1(1), of config_default] st1(2) get(2)
    by (auto simp: config_default_def)
  ultimately show ?thesis using st(1) st' declared by blast
qed

end
