(* ===== verification/Chain_Accept.thy ===== *)
theory Chain_Accept
  imports Chain_Open "HOL-Library.Product_Lexorder"
begin

text \<open>
  Accepting a block (\<open>wrkz-chain/src/state.rs\<close>, \<open>validate_block\<close> to \<open>drop_alternative_subtree\<close>): the checks of
  \<open>addBlock\<close>, the main-chain and the alternative path, the switch to a heavier branch with its rollback, and the
  pruning of alternative chains. Alternative blocks are an association list for the code's hash map.
\<close>

section \<open>Results\<close>

text \<open>An error of the chain, or a panic: a missing key of an indexed map, a failed expectation, a division by zero.\<close>

datatype halt = Error chain_error | Panic

definition lift :: "chain_error + 'a \<Rightarrow> halt + 'a" where
  "lift = map_sum Error (\<lambda>v. v)"

definition refuse :: "rule \<Rightarrow> halt + 'a" where
  "refuse rl = Inl (Error (Rule rl))"

text \<open>The functions of other crates the checks call: hashes and curve operations.\<close>

record primitives =
  pr_crypto :: crypto
  pr_slow :: "bytes \<Rightarrow> cn_params \<Rightarrow> hash"
  pr_argon2id :: "bytes \<Rightarrow> bytes \<Rightarrow> hash"

abbreviation pr_hash :: "primitives \<Rightarrow> bytes \<Rightarrow> hash" where
  "pr_hash P \<equiv> cn_fast_hash (pr_crypto P)"

datatype add_status = Main | Alternative | AlternativeAndSwitched

record add_outcome =
  ao_index :: u32
  ao_hash :: hash
  ao_cumulative_difficulty :: u64
  ao_already_generated_coins :: u64
  ao_difficulty :: u64
  ao_status :: add_status

datatype parent = MainTip u32 | MainDepth u32 | AltParent hash

section \<open>The checks of a block\<close>

definition parse_transactions :: "block_template \<Rightarrow> bytes list \<Rightarrow> chain_error + transaction list" where
  "parse_transactions block tx_blobs =
     (if length tx_blobs \<noteq> length (bt_transaction_hashes block) then
        Inl (Rule (DeserializationFailed ''transaction count does not match tx_hashes''))
      else traverse (\<lambda>blob.
        case tx_from_bytes blob of Inl _ \<Rightarrow> Inl (Rule (DeserializationFailed ''transaction'')) | Inr tx \<Rightarrow> Inr tx) tx_blobs)"

definition listed_hash :: "(bytes \<Rightarrow> hash) \<Rightarrow> transaction \<Rightarrow> chain_error + hash" where
  "listed_hash H tx =
     (case tx_hash H tx of Inl _ \<Rightarrow> Inl (Rule (DeserializationFailed ''transaction hash'')) | Inr h \<Rightarrow> Inr h)"

fun named_in_place :: "(bytes \<Rightarrow> hash) \<Rightarrow> (transaction \<times> hash) list \<Rightarrow> chain_error + unit" where
  "named_in_place H [] = Inr ()"
| "named_in_place H ((tx, named) # rest) =
     and_then (listed_hash H tx) (\<lambda>h.
       if h \<noteq> named then Inl (Rule TransactionInconsistency) else named_in_place H rest)"

definition check_transaction_list ::
  "(bytes \<Rightarrow> hash) \<Rightarrow> block_template \<Rightarrow> transaction list \<Rightarrow> u64 \<Rightarrow> bool \<Rightarrow> chain_error + unit" where
  "check_transaction_list H block transactions claimed_index strict =
     (let template = bt_transaction_hashes block in
      if claimed_index < BLOCK_BLOB_SHUFFLE_CHECK_HEIGHT then
        if \<not> strict then Inr () else named_in_place H (zip transactions template)
      else if \<not> distinct template then Inl (Rule TransactionDuplicates)
      else and_then (traverse (listed_hash H) transactions) (\<lambda>supplied.
        if \<not> distinct supplied then Inl (Rule TransactionDuplicates)
        else if \<not> set supplied \<subseteq> set template then Inl (Rule TransactionInconsistency)
        else if template \<noteq> supplied then Inl (Rule TransactionInconsistency)
        else Inr ()))"

fun coinbase_outputs :: "crypto \<Rightarrow> u64 \<Rightarrow> tx_output list \<Rightarrow> chain_error + u64" where
  "coinbase_outputs c miner_reward [] = Inr miner_reward"
| "coinbase_outputs c miner_reward (v # rest) =
     (if out_amount v = 0 then Inl (Rule CoinbaseOutputZeroAmount)
      else if \<not> check_key c (out_key v) then Inl (Rule CoinbaseOutputInvalidKey)
      else case checked_add miner_reward (out_amount v) of
        None \<Rightarrow> Inl (Rule CoinbaseOutputsAmountOverflow)
      | Some r \<Rightarrow> coinbase_outputs c r rest)"

definition claimed_index_of :: "block_template \<Rightarrow> u64" where
  "claimed_index_of block = (case coinbase_height block of Some i \<Rightarrow> i | None \<Rightarrow> 0)"

text \<open>The parent-block rule, from version 2.\<close>

definition check_parent :: "(bytes \<Rightarrow> hash) \<Rightarrow> block_template \<Rightarrow> chain_error + unit" where
  "check_parent H block =
     (if bt_major_version block \<ge> BLOCK_MAJOR_VERSION_2 then
        case bt_parent_block block of
          None \<Rightarrow> Inl (Rule (DeserializationFailed ''v2+ block without a parent block''))
        | Some pb \<Rightarrow>
            if bt_major_version block = BLOCK_MAJOR_VERSION_2 \<and> pb_major_version pb > BLOCK_MAJOR_VERSION_1 then
              Inl (Rule ParentBlockWrongVersion)
            else (case parent_write H pb (bt_timestamp block) (bt_nonce block) False False [] of
                Inl _ \<Rightarrow> Inl (Rule (DeserializationFailed ''parent block does not re-serialize''))
              | Inr w \<Rightarrow> if length w > 2048 then Inl (Rule ParentBlockSizeTooBig) else Inr ())
      else Inr ())"

definition check_time :: "chain_state \<Rightarrow> block_template \<Rightarrow> chain_view \<Rightarrow> u32 \<Rightarrow> chain_error + unit" where
  "check_time st block view previous_index =
     (let limit = saturating_add (clock st) (block_future_time_limit (ucast previous_index + 1)) in
      if bt_timestamp block > limit then Inl (Rule (TimestampTooFarInFuture (bt_timestamp block) limit))
      else and_then (timestamp_median st view previous_index) (\<lambda>median.
        case median of
          Some m \<Rightarrow> if bt_timestamp block < m then Inl (Rule (TimestampTooFarInPast (bt_timestamp block) m)) else Inr ()
        | None \<Rightarrow> Inr ()))"

definition check_coinbase :: "crypto \<Rightarrow> block_template \<Rightarrow> u64 \<Rightarrow> chain_error + u64" where
  "check_coinbase c block index =
     (let coinbase = bt_base_transaction block in
      case inputs (prefix coinbase) of
        [Base i] \<Rightarrow>
          if i \<noteq> index then Inl (Rule (BaseInputWrongBlockIndex index i))
          else
            let expected_unlock = index + CRYPTONOTE_MINED_MONEY_UNLOCK_WINDOW in
            if unlock_time (prefix coinbase) \<noteq> expected_unlock then
              Inl (Rule (CoinbaseWrongUnlockTime expected_unlock (unlock_time (prefix coinbase))))
            else if claimed_index_of block \<ge> TRANSACTION_SIGNATURE_COUNT_VALIDATION_HEIGHT \<and> signatures coinbase \<noteq> [] then
              Inl (Rule CoinbaseHasSignatures)
            else coinbase_outputs c 0 (outputs (prefix coinbase))
      | [_] \<Rightarrow> Inl (Rule CoinbaseInputUnexpectedType)
      | ins \<Rightarrow> Inl (Rule (CoinbaseInputWrongCount (length ins))))"

definition validate_block ::
  "crypto \<Rightarrow> chain_state \<Rightarrow> block_template \<Rightarrow> chain_view \<Rightarrow> u32 \<Rightarrow> chain_error + u64" where
  "validate_block c st block view previous_index =
     (let expected_version = block_major_version_for_index (claimed_index_of block) in
      if expected_version \<noteq> bt_major_version block then
        Inl (Rule (WrongVersion expected_version (bt_major_version block)))
      else
        and_then (check_parent (cn_fast_hash c) block) (\<lambda>_.
        and_then (check_time st block view previous_index) (\<lambda>_.
        check_coinbase c block (ucast previous_index + 1))))"

section \<open>The main-chain path\<close>

text \<open>A proof-of-work hash computed ahead of the call, with the hash of its block.\<close>

type_synonym pow_hint = "hash \<times> hash"

definition pow_hint_compute :: "primitives \<Rightarrow> block_template \<Rightarrow> pow_hint option option" where
  "pow_hint_compute P block =
     (case block_hash (pr_hash P) block of
        Inl _ \<Rightarrow> Some None
      | Inr h \<Rightarrow> map_option (\<lambda>r. case r of Inl _ \<Rightarrow> None | Inr p \<Rightarrow> Some (h, p))
          (pow_hash (pr_hash P) (pr_slow P) (pr_argon2id P) block))"

definition proof_of_work_passes ::
  "primitives \<Rightarrow> pow_hint option \<Rightarrow> chain_state \<Rightarrow> block_template \<Rightarrow> hash \<Rightarrow> u64 \<Rightarrow> halt + bool" where
  "proof_of_work_passes P hint st block h difficulty =
     (if simnet (cfg st) then Inr True
      else
        case (case hint of
            Some (for_block, p) \<Rightarrow>
              if for_block = h then Some (check_proof_of_work_with (pr_hash P) block p difficulty)
              else check_proof_of_work (pr_hash P) (pr_slow P) (pr_argon2id P) block difficulty
          | None \<Rightarrow> check_proof_of_work (pr_hash P) (pr_slow P) (pr_argon2id P) block difficulty) of
          None \<Rightarrow> Inl Panic
        | Some (Inl _) \<Rightarrow> refuse (DeserializationFailed ''proof of work input'')
        | Some (Inr b) \<Rightarrow> Inr b)"

definition checkpoint_or_proof_of_work ::
  "primitives \<Rightarrow> pow_hint option \<Rightarrow> chain_state \<Rightarrow> block_template \<Rightarrow> u64 \<Rightarrow> hash \<Rightarrow> u64 \<Rightarrow> halt + unit" where
  "checkpoint_or_proof_of_work P hint st block claimed_index h difficulty =
     (if is_in_checkpoint_zone claimed_index (cs_checkpoints st) then
        if \<not> check_block (ucast claimed_index) h (cs_checkpoints st) then
          (case checkpoints_get (ucast claimed_index) (cs_checkpoints st) of
             None \<Rightarrow> Inl Panic
           | Some expected \<Rightarrow> refuse (CheckpointBlockHashMismatch expected h))
        else Inr ()
      else and_then (proof_of_work_passes P hint st block h difficulty) (\<lambda>passes.
        if \<not> passes then refuse (ProofOfWorkTooWeak difficulty) else Inr ()))"

text \<open>Steps 3 to 7, the same lines on both paths: the transactions, the size, what the coinbase pays, the difficulty.\<close>

definition block_checks ::
  "primitives \<Rightarrow> chain_state \<Rightarrow> chain_view \<Rightarrow> u32 \<Rightarrow> block_template \<Rightarrow> bytes list \<Rightarrow>
   halt + transaction list \<times> u64 \<times> u64 \<times> u64" where
  "block_checks P st view previous_index block tx_blobs =
     and_then (lift (parse_transactions block tx_blobs)) (\<lambda>transactions.
     case tx_to_bytes (bt_base_transaction block) of
       Inl _ \<Rightarrow> refuse (DeserializationFailed ''coinbase does not re-serialize'')
     | Inr coinbase \<Rightarrow>
         let full_size = of_nat (length coinbase + sum_list (map length tx_blobs));
             max_cumulative = max_block_cumulative_size (ucast (previous_index + 1)) in
         if full_size > max_cumulative then refuse (CumulativeBlockSizeTooBig full_size max_cumulative)
         else
           and_then (lift (validate_block (pr_crypto P) st block view previous_index)) (\<lambda>miner_reward.
           and_then (lift (difficulty_for_next_block st view previous_index)) (\<lambda>d.
           case d of
             Inl _ \<Rightarrow> Inl Panic
           | Inr None \<Rightarrow> refuse DifficultyOverhead
           | Inr (Some difficulty) \<Rightarrow>
               and_then (lift (check_transaction_list (pr_hash P) block transactions (claimed_index_of block) (strict_list st)))
                 (\<lambda>_. Inr (transactions, full_size, miner_reward, difficulty)))))"

text \<open>Step 9, with the info of the parent, and the record of step 11.\<close>

definition reward_check ::
  "chain_state \<Rightarrow> chain_view \<Rightarrow> u32 \<Rightarrow> block_template \<Rightarrow> u64 \<Rightarrow> u64 \<Rightarrow> u64 \<Rightarrow> halt + block_info \<times> block_reward" where
  "reward_check st view previous_index block full_size cumulative_fee miner_reward =
     and_then (lift (info_or_missing st view previous_index)) (\<lambda>parent_info.
     and_then (lift (reward_size_median st view previous_index)) (\<lambda>size_median.
     case get_block_reward (bt_major_version block) size_median full_size (bi_already_generated_coins parent_info)
            cumulative_fee (claimed_index_of block) of
       Inl _ \<Rightarrow> Inl Panic
     | Inr None \<Rightarrow>
         refuse (CumulativeBlockSizeTooBig full_size (2 * max size_median (of_nat (full_reward_zone (bt_major_version block)))))
     | Inr (Some r) \<Rightarrow>
         if miner_reward \<noteq> reward r then refuse (BlockRewardMismatch (reward r) miner_reward)
         else Inr (parent_info, r)))"

definition new_block_info ::
  "block_template \<Rightarrow> hash \<Rightarrow> u64 \<Rightarrow> u64 \<Rightarrow> block_info \<Rightarrow> block_reward \<Rightarrow> nat \<Rightarrow> chain_error + block_info" where
  "new_block_info block h full_size difficulty parent_info r n =
     (if unat full_size < 2 ^ 32 then
        Inr \<lparr>bi_block_hash = h, bi_timestamp = bt_timestamp block, bi_block_size = ucast full_size,
          bi_cumulative_difficulty = bi_cumulative_difficulty parent_info + difficulty,
          bi_already_generated_coins = bi_already_generated_coins parent_info + of_int (emission_change r),
          bi_already_generated_transactions = bi_already_generated_transactions parent_info + of_nat n + 1\<rparr>
      else Inl (Corrupt ''cumulative block size exceeds uint32''))"

definition block_context :: "chain_state \<Rightarrow> u32 \<Rightarrow> block_template \<Rightarrow> tx_context" where
  "block_context st previous_index block =
     \<lparr>block_height = ucast previous_index, block_median_size = median_size st, block_timestamp = bt_timestamp block,
      is_pool_transaction = False, ctx_checkpoints = cs_checkpoints st\<rparr>"

text \<open>Steps 3 to 10 of the main-chain path, which write nothing.\<close>

definition validate_main ::
  "primitives \<Rightarrow> pow_hint option \<Rightarrow> chain_state \<Rightarrow> block_template \<Rightarrow> bytes list \<Rightarrow> hash \<Rightarrow> u32 \<Rightarrow>
   halt + transaction list \<times> validator_state \<times> block_info \<times> u64" where
  "validate_main P hint st block tx_blobs h previous_index =
     (let view = main_chain previous_index in
      and_then (block_checks P st view previous_index block tx_blobs) (\<lambda>(transactions, full_size, miner_reward, difficulty).
      let work = checkpoint_or_proof_of_work P hint st block (claimed_index_of block) h difficulty in
      and_then (if transactions \<noteq> [] then work else Inr ()) (\<lambda>_.
      and_then (lift (validate_block_transactions (pr_crypto P) (chain_access_of st) (block_context st previous_index block)
          (bt_transaction_hashes block) 0 0 {} batch_new (zip transactions tx_blobs))) (\<lambda>(cumulative_fee, spent).
      and_then (reward_check st view previous_index block full_size cumulative_fee miner_reward) (\<lambda>(parent_info, r).
      and_then (if transactions = [] then work else Inr ()) (\<lambda>_.
      and_then (lift (new_block_info block h full_size difficulty parent_info r (length transactions))) (\<lambda>info.
        Inr (transactions, spent, info, difficulty))))))))"

definition add_to_main ::
  "primitives \<Rightarrow> pow_hint option \<Rightarrow> block_template \<Rightarrow> bytes \<Rightarrow> bytes list \<Rightarrow> hash \<Rightarrow> u32 \<Rightarrow> chain_state \<Rightarrow>
   (halt + add_outcome) \<times> chain_state" where
  "add_to_main P hint block block_blob tx_blobs h previous_index st =
     (case validate_main P hint st block tx_blobs h previous_index of
        Inl e \<Rightarrow> (Inl e, st)
      | Inr (transactions, spent, info, difficulty) \<Rightarrow>
          (case push_block (pr_hash P) (previous_index + 1) block block_blob tx_blobs transactions info spent st of
             (Inl e, st) \<Rightarrow> (Inl (Error e), st)
           | (Inr _, st) \<Rightarrow>
               (Inr \<lparr>ao_index = previous_index + 1, ao_hash = h,
                  ao_cumulative_difficulty = bi_cumulative_difficulty info,
                  ao_already_generated_coins = bi_already_generated_coins info, ao_difficulty = difficulty,
                  ao_status = Main\<rparr>, st)))"

section \<open>Alternative blocks\<close>

definition alt_get :: "chain_state \<Rightarrow> hash \<Rightarrow> alt_block option" where
  "alt_get st h = map_of (alt_blocks st) h"

definition alternative_leaves :: "(hash \<times> alt_block) list \<Rightarrow> hash list" where
  "alternative_leaves alts = filter (\<lambda>h. h \<notin> alt_prev_hash ` snd ` set alts) (map fst alts)"

text \<open>The leaf of the least key: cumulative difficulty, index, hash.\<close>

fun least_leaf :: "(hash \<times> alt_block) list \<Rightarrow> (hash \<times> alt_block) option" where
  "least_leaf [] = None"
| "least_leaf (a # as) =
     (case least_leaf as of
        None \<Rightarrow> Some a
      | Some b \<Rightarrow>
          Some (if (bi_cumulative_difficulty (alt_info (snd b)), alt_index (snd b), fst b) <
                   (bi_cumulative_difficulty (alt_info (snd a)), alt_index (snd a), fst a) then b else a))"

definition weakest_leaf :: "hash option \<Rightarrow> (hash \<times> alt_block) list \<Rightarrow> hash option" where
  "weakest_leaf exclude alts =
     map_option fst (least_leaf (filter (\<lambda>(h, b). h \<in> set (alternative_leaves alts) \<and> Some h \<noteq> exclude) alts))"

definition children :: "(hash \<times> alt_block) list \<Rightarrow> hash \<Rightarrow> nat" where
  "children alts h = length (filter (\<lambda>(k, b). alt_prev_hash b = h) alts)"

text \<open>The walk of \<open>leaf_segment\<close> from \<open>cursor\<close>. It takes at most one step per alternative block (\<open>leaf_walk_enough\<close>).\<close>

fun leaf_walk :: "nat \<Rightarrow> (hash \<times> alt_block) list \<Rightarrow> hash \<Rightarrow> hash list" where
  "leaf_walk 0 alts cursor = []"
| "leaf_walk (Suc n) alts cursor =
     (case map_of alts cursor of
        None \<Rightarrow> []
      | Some b \<Rightarrow> if children alts cursor > 1 then [] else cursor # leaf_walk n alts (alt_prev_hash b))"

definition leaf_segment :: "(hash \<times> alt_block) list \<Rightarrow> hash \<Rightarrow> hash list" where
  "leaf_segment alts leaf =
     leaf # (case map_of alts leaf of None \<Rightarrow> [] | Some b \<Rightarrow> leaf_walk (length alts) alts (alt_prev_hash b))"

definition remove_alts :: "hash list \<Rightarrow> (hash \<times> alt_block) list \<Rightarrow> (hash \<times> alt_block) list" where
  "remove_alts hs alts = filter (\<lambda>(h, b). h \<notin> set hs) alts"

text \<open>Passes 2 and 3: the weakest leaf goes while there are too many.\<close>

lemma least_leaf_mem: "least_leaf as = Some a \<Longrightarrow> a \<in> set as"
  by (induction as arbitrary: a) (auto split: option.splits if_splits)

lemma weakest_leaf_mem:
  assumes "weakest_leaf exclude alts = Some w"
  shows "w \<in> fst ` set alts" "w \<in> set (alternative_leaves alts)" "Some w \<noteq> exclude"
proof -
  obtain b where "(w, b) \<in> set (filter (\<lambda>(h, b). h \<in> set (alternative_leaves alts) \<and> Some h \<noteq> exclude) alts)"
    using assms least_leaf_mem unfolding weakest_leaf_def by fastforce
  then show "w \<in> fst ` set alts" "w \<in> set (alternative_leaves alts)" "Some w \<noteq> exclude" by force+
qed

lemma remove_alts_less: "w \<in> fst ` set alts \<Longrightarrow> w \<in> set hs \<Longrightarrow> length (remove_alts hs alts) < length alts"
  unfolding remove_alts_def by (force intro: length_filter_less)

function drop_weakest :: "((hash \<times> alt_block) list \<Rightarrow> bool) \<Rightarrow> hash option \<Rightarrow> (hash \<times> alt_block) list \<Rightarrow> (hash \<times> alt_block) list" where
  "drop_weakest too_many exclude alts =
     (if too_many alts then
        case weakest_leaf exclude alts of
          None \<Rightarrow> alts
        | Some w \<Rightarrow> drop_weakest too_many exclude (remove_alts (leaf_segment alts w) alts)
      else alts)"
  by pat_completeness auto
termination
  by (relation "measure (\<lambda>(too_many, exclude, alts). length alts)")
    (auto intro!: remove_alts_less dest: weakest_leaf_mem(1) simp: leaf_segment_def)

declare drop_weakest.simps [simp del]

definition stale_segments :: "u32 \<Rightarrow> hash option \<Rightarrow> (hash \<times> alt_block) list \<Rightarrow> hash list" where
  "stale_segments t exclude alts =
     concat (map (leaf_segment alts) (filter (\<lambda>leaf. Some leaf \<noteq> exclude \<and>
       (case map_of alts leaf of
          None \<Rightarrow> False
        | Some b \<Rightarrow> t > alt_index b \<and> (ucast (t - alt_index b) :: u64) > CRYPTONOTE_MAX_ALT_BLOCK_DEPTH))
       (alternative_leaves alts)))"

definition prune_alts :: "u32 \<Rightarrow> hash option \<Rightarrow> (hash \<times> alt_block) list \<Rightarrow> (hash \<times> alt_block) list" where
  "prune_alts t exclude alts =
     (let alts = remove_alts (stale_segments t exclude alts) alts;
          alts = drop_weakest (\<lambda>alts. length (alternative_leaves alts) > CRYPTONOTE_MAX_ALT_CHAIN_COUNT) exclude alts
      in drop_weakest (\<lambda>alts. length alts > CRYPTONOTE_MAX_ALT_BLOCK_COUNT) exclude alts)"

definition prune_alternative_chains :: "hash option \<Rightarrow> chain_state \<Rightarrow> chain_state" where
  "prune_alternative_chains exclude st =
     (case tip st of None \<Rightarrow> st | Some t \<Rightarrow> st\<lparr>alt_blocks := prune_alts t exclude (alt_blocks st)\<rparr>)"

text \<open>One pass of the loop of \<open>drop_alternative_subtree\<close>, and the loop.\<close>

definition doom_pass :: "(hash \<times> alt_block) list \<Rightarrow> hash set \<Rightarrow> hash set" where
  "doom_pass alts doomed = fold (\<lambda>(h, b) d. if alt_prev_hash b \<in> d then insert h d else d) alts doomed"

lemma doom_pass_bounds: "d \<subseteq> doom_pass alts d" "doom_pass alts d \<subseteq> d \<union> fst ` set alts"
proof -
  have "d \<subseteq> fold (\<lambda>(h, b) d. if alt_prev_hash b \<in> d then insert h d else d) as d \<and>
      fold (\<lambda>(h, b) d. if alt_prev_hash b \<in> d then insert h d else d) as d \<subseteq> d \<union> fst ` set as" for "as"
  proof (induction "as" arbitrary: d)
    case (Cons a as)
    from Cons [of "case a of (h, b) \<Rightarrow> if alt_prev_hash b \<in> d then insert h d else d"]
    show ?case by (auto split: prod.splits if_splits)
  qed simp
  then show "d \<subseteq> doom_pass alts d" "doom_pass alts d \<subseteq> d \<union> fst ` set alts" by (auto simp: doom_pass_def)
qed

function doom_loop :: "(hash \<times> alt_block) list \<Rightarrow> hash set \<Rightarrow> hash set" where
  "doom_loop alts doomed =
     (let d = doom_pass alts doomed in if d = doomed then doomed else doom_loop alts d)"
  by pat_completeness auto
termination
proof (relation "measure (\<lambda>(alts, d). card (fst ` set alts - d))", goal_cases)
  case (2 alts doomed d)
  have "fst ` set alts - d \<subset> fst ` set alts - doomed"
    using 2 doom_pass_bounds [where d = doomed and alts = alts] by blast
  then show ?case by (simp add: psubset_card_mono)
qed simp

declare doom_loop.simps [simp del]

definition drop_alternative_subtree :: "hash \<Rightarrow> chain_state \<Rightarrow> chain_state" where
  "drop_alternative_subtree root st =
     st\<lparr>alt_blocks := filter (\<lambda>(h, b). h \<notin> doom_loop (alt_blocks st) {root}) (alt_blocks st)\<rparr>"

text \<open>\<open>branch_hashes\<close>: the walk from a block to the main chain; the hashes come out oldest first.\<close>

function branch_walk :: "chain_state \<Rightarrow> hash \<Rightarrow> hash list \<Rightarrow> chain_error + u32 \<times> hash list" where
  "branch_walk st cursor chain =
     (case alt_get st cursor of
        None \<Rightarrow>
          and_then (block_index_by_hash st cursor) (\<lambda>index.
            case index of None \<Rightarrow> Inl (Rule RejectedAsOrphaned) | Some index \<Rightarrow> Inr (index, chain))
      | Some alt \<Rightarrow>
          if length (cursor # chain) > length (alt_blocks st) then
            Inl (Corrupt ''alternative chain loops back on itself'')
          else branch_walk st (alt_prev_hash alt) (cursor # chain))"
  by pat_completeness auto
termination
  by (relation "measure (\<lambda>(st, cursor, chain). length (alt_blocks st) - length chain)") auto

declare branch_walk.simps [simp del]

definition branch_hashes :: "chain_state \<Rightarrow> hash \<Rightarrow> chain_error + u32 \<times> hash list" where
  "branch_hashes st h = branch_walk st h []"

definition branch_infos :: "chain_state \<Rightarrow> hash option \<Rightarrow> u32 \<Rightarrow> halt + u32 \<times> block_info list" where
  "branch_infos st parent_alt previous_index =
     (case parent_alt of
        None \<Rightarrow> Inr (previous_index, [])
      | Some p \<Rightarrow>
          and_then (lift (branch_hashes st p)) (\<lambda>(fork, hashes).
          and_then (traverse (\<lambda>h. case alt_get st h of None \<Rightarrow> Inl Panic | Some b \<Rightarrow> Inr (alt_info b)) hashes)
            (\<lambda>infos. Inr (fork, infos))))"

section \<open>The switch to another branch\<close>

definition unwound_raw ::
  "chain_state \<Rightarrow> u32 \<Rightarrow> chain_error + u32 \<times> block_info \<times> bytes \<times> bytes list" where
  "unwound_raw st index =
     and_then (block_info_at st index) (\<lambda>info.
     and_then (ok_or (Corrupt ''block info is missing'') info) (\<lambda>info.
     and_then (raw_block_at st index) (\<lambda>body.
     and_then (ok_or (Rule (ReorganisationUnavailable index)) body) (\<lambda>(blob, txs).
       Inr (index, info, blob, txs)))))"

fun unwind_blocks :: "(bytes \<Rightarrow> hash) \<Rightarrow> u32 list \<Rightarrow> chain_state \<Rightarrow> (chain_error + unit) \<times> chain_state" where
  "unwind_blocks H [] st = (Inr (), st)"
| "unwind_blocks H (i # is) st =
     (case unwind_block H i st of (Inl e, st) \<Rightarrow> (Inl e, st) | (Inr _, st) \<Rightarrow> unwind_blocks H is st)"

text \<open>The branch through the main-chain path: how many were applied, and the error and the block it stopped at.\<close>

fun apply_branch ::
  "primitives \<Rightarrow> pow_hint option \<Rightarrow> hash list \<Rightarrow> nat \<Rightarrow> chain_state \<Rightarrow> (halt + nat \<times> (chain_error \<times> hash) option) \<times> chain_state" where
  "apply_branch P hint [] applied st = (Inr (applied, None), st)"
| "apply_branch P hint (h # hs) applied st =
     (case alt_get st h of
        None \<Rightarrow> (Inl Panic, st)
      | Some alt \<Rightarrow>
          (case block_from_bytes (alt_block_blob alt) of
             Inl _ \<Rightarrow> (refuse (DeserializationFailed ''alternative block blob''), st)
           | Inr block \<Rightarrow>
               (case add_to_main P hint block (alt_block_blob alt) (alt_tx_blobs alt) h (alt_index alt - 1) st of
                  (Inr _, st) \<Rightarrow> apply_branch P hint hs (Suc applied) st
                | (Inl (Error e), st) \<Rightarrow> (Inr (applied, Some (e, h)), st)
                | (Inl Panic, st) \<Rightarrow> (Inl Panic, st))))"

text \<open>The old tail put back, lowest block first.\<close>

fun restore_tail ::
  "primitives \<Rightarrow> pow_hint option \<Rightarrow> (u32 \<times> block_info \<times> bytes \<times> bytes list) list \<Rightarrow> chain_state \<Rightarrow> (halt + unit) \<times> chain_state" where
  "restore_tail P hint [] st = (Inr (), st)"
| "restore_tail P hint ((index, _, blob, txs) # rest) st =
     (case block_from_bytes blob of
        Inl _ \<Rightarrow> (Inl (Error (Corrupt ''stored block no longer parses'')), st)
      | Inr block \<Rightarrow>
          (case block_hash (pr_hash P) block of
             Inl _ \<Rightarrow> (Inl (Error (Corrupt ''stored block has no hash'')), st)
           | Inr h \<Rightarrow>
               (case add_to_main P hint block blob txs h (index - 1) st of
                  (Inl e, st) \<Rightarrow> (Inl e, st)
                | (Inr _, st) \<Rightarrow> restore_tail P hint rest st)))"

definition roll_back ::
  "primitives \<Rightarrow> pow_hint option \<Rightarrow> u32 \<Rightarrow> nat \<Rightarrow> (u32 \<times> block_info \<times> bytes \<times> bytes list) list \<Rightarrow> chain_error \<Rightarrow> hash \<Rightarrow>
   chain_state \<Rightarrow> (halt + unit) \<times> chain_state" where
  "roll_back P hint fork applied tail e bad st =
     (case unwind_blocks (pr_hash P) (map of_nat (rev [Suc (unat fork)..<Suc (unat fork + applied)])) st of
        (Inl e, st) \<Rightarrow> (Inl (Error e), st)
      | (Inr _, st) \<Rightarrow>
          (case restore_tail P hint (rev tail) st of
             (Inl e, st) \<Rightarrow> (Inl e, st)
           | (Inr _, st) \<Rightarrow>
               (Inl (Error e), case e of Rule _ \<Rightarrow> drop_alternative_subtree bad st | _ \<Rightarrow> st)))"

text \<open>The old tail kept as alternative blocks and reported, highest block first.\<close>

fun keep_tail ::
  "(u32 \<times> block_info \<times> bytes \<times> bytes list) list \<Rightarrow> chain_state \<Rightarrow> (halt + unit) \<times> chain_state" where
  "keep_tail [] st = (Inr (), st)"
| "keep_tail ((index, info, blob, txs) # rest) st =
     (case block_from_bytes blob of
        Inl _ \<Rightarrow> (Inl (Error (Corrupt ''stored block no longer parses'')), st)
      | Inr block \<Rightarrow>
          keep_tail rest (st\<lparr>
            unwound := unwound st @ [\<lparr>uw_index = index, uw_hash = bi_block_hash info,
              uw_transaction_hashes = bt_transaction_hashes block, uw_transactions = txs\<rparr>],
            alt_blocks := AList.update (bi_block_hash info)
              \<lparr>alt_index = index, alt_prev_hash = bt_previous_block_hash block, alt_info = info,
               alt_block_blob = blob, alt_tx_blobs = txs\<rparr> (alt_blocks st)\<rparr>))"

definition switch_to ::
  "primitives \<Rightarrow> pow_hint option \<Rightarrow> hash \<Rightarrow> chain_state \<Rightarrow> (halt + unit) \<times> chain_state" where
  "switch_to P hint h st =
     (case and_then (branch_hashes st h) (\<lambda>(fork, hashes).
        and_then (ok_or (Corrupt ''switching chains on an empty state'') (tip st)) (\<lambda>t.
        and_then (case body_floor (cfg st) t of
            Some flr \<Rightarrow> if fork + 1 < flr then Inl (Rule (ReorganisationBelowBodyFloor (fork + 1) flr)) else Inr ()
          | None \<Rightarrow> Inr ()) (\<lambda>_.
        and_then (traverse (unwound_raw st) (map of_nat (rev [Suc (unat fork)..<Suc (unat t)]))) (\<lambda>tail.
          Inr (fork, hashes, tail))))) of
        Inl e \<Rightarrow> (Inl (Error e), st)
      | Inr (fork, hashes, tail) \<Rightarrow>
          (case unwind_blocks (pr_hash P) (map fst tail) st of
             (Inl e, st) \<Rightarrow> (Inl (Error e), st)
           | (Inr _, st) \<Rightarrow>
               (case apply_branch P hint hashes 0 st of
                  (Inl e, st) \<Rightarrow> (Inl e, st)
                | (Inr (applied, Some (e, bad)), st) \<Rightarrow> roll_back P hint fork applied tail e bad st
                | (Inr (_, None), st) \<Rightarrow> keep_tail tail (st\<lparr>alt_blocks := remove_alts hashes (alt_blocks st)\<rparr>))))"

section \<open>The alternative path\<close>

fun branch_fees :: "hash list \<Rightarrow> nat \<Rightarrow> u64 \<Rightarrow> transaction list \<Rightarrow> chain_error + u64" where
  "branch_fees hashes i cumulative_fee [] = Inr cumulative_fee"
| "branch_fees hashes i cumulative_fee (tx # txs) =
     (case sum_inputs (prefix tx) of
        None \<Rightarrow> Inl (Rule (TransactionRule (hashes ! i) i InputsAmountOverflow))
      | Some sum_in \<Rightarrow>
          (case sum_outputs (prefix tx) of
             None \<Rightarrow> Inl (Rule (TransactionRule (hashes ! i) i OutputsAmountOverflow))
           | Some sum_out \<Rightarrow>
               (case checked_sub sum_in sum_out of
                  None \<Rightarrow> Inl (Rule (TransactionRule (hashes ! i) i WrongAmount))
                | Some f \<Rightarrow> branch_fees hashes (Suc i) (saturating_add cumulative_fee f) txs)))"

definition validate_alternative ::
  "primitives \<Rightarrow> pow_hint option \<Rightarrow> chain_state \<Rightarrow> block_template \<Rightarrow> bytes list \<Rightarrow> hash \<Rightarrow> u32 \<Rightarrow> hash option \<Rightarrow>
   halt + block_info \<times> u64" where
  "validate_alternative P hint st block tx_blobs h previous_index parent_alt =
     and_then (branch_infos st parent_alt previous_index) (\<lambda>(fork, infos).
     let view = \<lparr>fork_index = fork, branch = infos\<rparr> in
     and_then (block_checks P st view previous_index block tx_blobs) (\<lambda>(transactions, full_size, miner_reward, difficulty).
     and_then (lift (branch_fees (bt_transaction_hashes block) 0 0 transactions)) (\<lambda>cumulative_fee.
     and_then (reward_check st view previous_index block full_size cumulative_fee miner_reward) (\<lambda>(parent_info, r).
     and_then (checkpoint_or_proof_of_work P hint st block (claimed_index_of block) h difficulty) (\<lambda>_.
     and_then (lift (new_block_info block h full_size difficulty parent_info r (length transactions))) (\<lambda>info.
       Inr (info, difficulty)))))))"

definition add_to_alternative ::
  "primitives \<Rightarrow> pow_hint option \<Rightarrow> block_template \<Rightarrow> bytes \<Rightarrow> bytes list \<Rightarrow> hash \<Rightarrow> u32 \<Rightarrow> hash option \<Rightarrow> chain_state \<Rightarrow>
   (halt + add_outcome) \<times> chain_state" where
  "add_to_alternative P hint block block_blob tx_blobs h previous_index parent_alt st =
     (case validate_alternative P hint st block tx_blobs h previous_index parent_alt of
        Inl e \<Rightarrow> (Inl e, st)
      | Inr (info, difficulty) \<Rightarrow>
          let st = st\<lparr>alt_blocks := AList.update h
                \<lparr>alt_index = previous_index + 1, alt_prev_hash = bt_previous_block_hash block, alt_info = info,
                 alt_block_blob = block_blob, alt_tx_blobs = tx_blobs\<rparr> (alt_blocks st)\<rparr>;
              main_cumulative = (case tip_info st of Some i \<Rightarrow> bi_cumulative_difficulty i | None \<Rightarrow> 0);
              heavier = (bi_cumulative_difficulty info > main_cumulative)
          in (case (if heavier then switch_to P hint h st else (Inr (), st)) of
                (Inl e, st) \<Rightarrow> (Inl e, st)
              | (Inr _, st) \<Rightarrow>
                  (Inr \<lparr>ao_index = previous_index + 1, ao_hash = h,
                     ao_cumulative_difficulty = bi_cumulative_difficulty info,
                     ao_already_generated_coins = bi_already_generated_coins info, ao_difficulty = difficulty,
                     ao_status = (if heavier then AlternativeAndSwitched else Alternative)\<rparr>,
                   prune_alternative_chains (Some h) st)))"

section \<open>Adding a block\<close>

definition locate_parent :: "chain_state \<Rightarrow> hash \<Rightarrow> chain_error + parent" where
  "locate_parent st prev_hash =
     (if alt_get st prev_hash \<noteq> None then Inr (AltParent prev_hash)
      else and_then (block_index_by_hash st prev_hash) (\<lambda>index.
        case index of
          Some i \<Rightarrow> Inr (if Some i = tip st then MainTip i else MainDepth i)
        | None \<Rightarrow> Inl (Rule RejectedAsOrphaned)))"

definition add_block_inner ::
  "primitives \<Rightarrow> pow_hint option \<Rightarrow> bytes \<Rightarrow> bytes list \<Rightarrow> chain_state \<Rightarrow> (halt + add_outcome) \<times> chain_state" where
  "add_block_inner P hint block_blob tx_blobs st =
     (case block_from_bytes block_blob of
        Inl _ \<Rightarrow> (refuse (DeserializationFailed ''block blob''), st)
      | Inr block \<Rightarrow>
     (case block_hash (pr_hash P) block of
        Inl _ \<Rightarrow> (refuse (DeserializationFailed ''block hash''), st)
      | Inr h \<Rightarrow>
     (case has_block st h of
        Inl e \<Rightarrow> (Inl (Error e), st)
      | Inr True \<Rightarrow> (refuse AlreadyExists, st)
      | Inr False \<Rightarrow>
     (case locate_parent st (bt_previous_block_hash block) of
        Inl e \<Rightarrow> (Inl (Error e), st)
      | Inr (MainTip i) \<Rightarrow>
          (case add_to_main P hint block block_blob tx_blobs h i st of
             (Inl e, st) \<Rightarrow> (Inl e, st)
           | (Inr outcome, st) \<Rightarrow> (Inr outcome, prune_alternative_chains None st))
      | Inr (MainDepth i) \<Rightarrow> add_to_alternative P hint block block_blob tx_blobs h i None st
      | Inr (AltParent p) \<Rightarrow>
          (case alt_get st p of
             None \<Rightarrow> (Inl Panic, st)
           | Some b \<Rightarrow> add_to_alternative P hint block block_blob tx_blobs h (alt_index b) (Some p) st)))))"

text \<open>\<open>add_block_detailed_with_pow\<close>; without a hint it is \<open>add_block_detailed\<close>.\<close>

definition add_block ::
  "primitives \<Rightarrow> pow_hint option \<Rightarrow> bytes \<Rightarrow> bytes list \<Rightarrow> chain_state \<Rightarrow> (halt + add_outcome \<times> unwound_block list) \<times> chain_state" where
  "add_block P hint block_blob tx_blobs st =
     (case add_block_inner P hint block_blob tx_blobs (st\<lparr>unwound := []\<rparr>) of
        (Inl e, st) \<Rightarrow> (Inl e, st)
      | (Inr outcome, st) \<Rightarrow> (Inr (outcome, unwound st), st\<lparr>unwound := []\<rparr>))"

end
