(* ===== verification/Pool.thy ===== *)
theory Pool
  imports Chain_Accept
begin

text \<open>
  The transaction pool (\<open>wrkz-mempool/src/pool.rs\<close>) and its reads of the chain (\<open>wrkz-mempool/src/chain.rs\<close>): the
  entries with their indexes, the priority order, admission with the cache of rejections, eviction, the cleaner, the
  sweep after a block and the composition with block acceptance. Hash maps are association lists; the ordered set of
  priority keys is the list of its elements in order. The clock, fixed or the system's, is a field of the pool.
\<close>

section \<open>Configuration, entries and answers\<close>

datatype pool_source = Network | Rpc | AlternativeBlock

record pool_config =
  max_size_bytes :: u64
  evict_to_percent :: u64
  tx_livetime :: u64
  alt_block_tx_livetime :: u64
  fusion_max_pool_count :: nat
  rejection_cache_capacity :: nat
  rejection_cache_ttl :: u64

abbreviation (input) REJECTION_CACHE_CAPACITY :: nat where "REJECTION_CACHE_CAPACITY \<equiv> 10000"
abbreviation (input) REJECTION_CACHE_TTL :: u64 where "REJECTION_CACHE_TTL \<equiv> 60 * 60"

definition pool_config_default :: pool_config where
  "pool_config_default =
     \<lparr>max_size_bytes = of_nat CRYPTONOTE_MEMPOOL_MAX_SIZE_BYTES, evict_to_percent = of_nat CRYPTONOTE_MEMPOOL_EVICT_TO_PERCENT,
      tx_livetime = CRYPTONOTE_MEMPOOL_TX_LIVETIME, alt_block_tx_livetime = CRYPTONOTE_MEMPOOL_TX_LIVETIME,
      fusion_max_pool_count = FUSION_TX_MAX_POOL_COUNT, rejection_cache_capacity = REJECTION_CACHE_CAPACITY,
      rejection_cache_ttl = REJECTION_CACHE_TTL\<rparr>"

record pool_entry =
  pe_hash :: hash
  pe_transaction :: transaction
  pe_blob :: bytes
  pe_fee :: u64
  pe_amount :: u64
  pe_is_fusion :: bool
  pe_receive_time :: u64
  pe_source :: pool_source
  pe_payment_id :: "hash option"

abbreviation pe_size :: "pool_entry \<Rightarrow> nat" where
  "pe_size e \<equiv> length (pe_blob e)"

datatype pool_status =
    Added
  | DeserializationFailed
  | AlreadyInPool
  | AlreadyInBlockchain
  | RecentlyDeleted
  | FusionPoolFull
  | Rejected tx_rule
  | KeyImageInPool hash hash
  | PoolFull
  | CachedRejection tx_rule

datatype rejection_category = Malformed | Invalid | InvalidSignature | InvalidAtHeight | ChainState | Policy

fun of_rule :: "tx_rule \<Rightarrow> rejection_category" where
  "of_rule EmptyInputs = Invalid"
| "of_rule InputUnknownType = Invalid"
| "of_rule InputIdenticalKeyImages = Invalid"
| "of_rule InputEmptyOutputUsage = Invalid"
| "of_rule InputInvalidDomainKeyImages = Invalid"
| "of_rule InputIdenticalOutputIndexes = Invalid"
| "of_rule InputsAmountOverflow = Invalid"
| "of_rule OutputZeroAmount = Invalid"
| "of_rule OutputInvalidKey = Invalid"
| "of_rule OutputsAmountOverflow = Invalid"
| "of_rule WrongAmount = Invalid"
| "of_rule ZeroInputSum = Invalid"
| "of_rule (ExtraTooLarge _) = Invalid"
| "of_rule (ExcessiveOutputs _) = Invalid"
| "of_rule (InputInvalidSignaturesCount _ _) = Invalid"
| "of_rule (InputInvalidSignatures _) = InvalidSignature"
| "of_rule (SizeTooLarge _ _) = InvalidAtHeight"
| "of_rule (OutputAmountTooLarge _) = InvalidAtHeight"
| "of_rule (WrongFee _ _) = InvalidAtHeight"
| "of_rule (UnlockTimeTooSmall _ _) = InvalidAtHeight"
| "of_rule (InvalidMixin _) = InvalidAtHeight"
| "of_rule (PowInvalid _) = InvalidAtHeight"
| "of_rule (InputKeyImageAlreadySpent _) = ChainState"
| "of_rule (InputInvalidGlobalIndex _ _) = ChainState"
| "of_rule (InputSpendLockedOut _ _ _) = ChainState"

definition is_peer_fault :: "rejection_category \<Rightarrow> bool" where
  "is_peer_fault c \<longleftrightarrow> c \<in> {Malformed, Invalid, InvalidSignature}"

fun status_category :: "pool_status \<Rightarrow> rejection_category option" where
  "status_category Added = None"
| "status_category DeserializationFailed = Some Malformed"
| "status_category AlreadyInBlockchain = Some ChainState"
| "status_category AlreadyInPool = Some Policy"
| "status_category RecentlyDeleted = Some Policy"
| "status_category FusionPoolFull = Some Policy"
| "status_category (KeyImageInPool _ _) = Some Policy"
| "status_category PoolFull = Some Policy"
| "status_category (Rejected rl) = Some (of_rule rl)"
| "status_category (CachedRejection rl) = Some (of_rule rl)"

section \<open>The priority order\<close>

record tx_priority =
  pri_fee :: u64
  pri_size :: nat
  pri_amount :: u64
  pri_in_out_ratio :: u64
  pri_receive_time :: u64

definition priority_of :: "pool_entry \<Rightarrow> tx_priority" where
  "priority_of e =
     (let ins = of_nat (length (inputs (prefix (pe_transaction e)))) :: u64;
          outs = of_nat (length (outputs (prefix (pe_transaction e)))) :: u64
      in \<lparr>pri_fee = pe_fee e, pri_size = pe_size e, pri_amount = pe_amount e,
          pri_in_out_ratio = (if outs = 0 then - 1 else ins div outs), pri_receive_time = pe_receive_time e\<rparr>)"

text \<open>The two products have 128 bits in the code, so they do not wrap.\<close>

definition prefers :: "tx_priority \<Rightarrow> tx_priority \<Rightarrow> bool" where
  "prefers a b =
     (let lhs = unat (pri_fee a) * pri_size b; rhs = unat (pri_fee b) * pri_size a in
      if lhs > rhs then True
      else if rhs > lhs then False
      else if pri_amount a \<noteq> pri_amount b then pri_amount a > pri_amount b
      else if pri_in_out_ratio a \<noteq> pri_in_out_ratio b then pri_in_out_ratio a > pri_in_out_ratio b
      else if pri_size a \<noteq> pri_size b then pri_size a < pri_size b
      else pri_receive_time a < pri_receive_time b)"

record priority_key =
  key_priority :: tx_priority
  key_seq :: u64

datatype ordering = Less | Equal | Greater

definition key_cmp :: "priority_key \<Rightarrow> priority_key \<Rightarrow> ordering" where
  "key_cmp a b =
     (if prefers (key_priority a) (key_priority b) then Less
      else if prefers (key_priority b) (key_priority a) then Greater
      else if key_seq a < key_seq b then Less else if key_seq a = key_seq b then Equal else Greater)"

text \<open>\<open>BTreeSet::insert\<close> and \<open>BTreeSet::remove\<close> on the elements in order.\<close>

fun set_insert :: "priority_key \<Rightarrow> priority_key list \<Rightarrow> priority_key list" where
  "set_insert k [] = [k]"
| "set_insert k (x # xs) =
     (case key_cmp k x of Less \<Rightarrow> k # x # xs | Equal \<Rightarrow> x # xs | Greater \<Rightarrow> x # set_insert k xs)"

fun set_remove :: "priority_key \<Rightarrow> priority_key list \<Rightarrow> priority_key list" where
  "set_remove k [] = []"
| "set_remove k (x # xs) =
     (case key_cmp k x of Less \<Rightarrow> x # xs | Equal \<Rightarrow> xs | Greater \<Rightarrow> x # set_remove k xs)"

section \<open>What the pool reads of the chain\<close>

record pool_chain =
  pc_access :: chain_access
  pc_top_index :: u64
  pc_block_info_at :: "u64 \<Rightarrow> chain_error + block_info option"
  pc_block_median_size :: u64
  pc_checkpoint_table :: checkpoints
  pc_fixed_difficulty :: "u64 option"
  pc_transaction_in_chain :: "hash \<Rightarrow> chain_error + bool"

definition has_transaction :: "chain_state \<Rightarrow> hash \<Rightarrow> chain_error + bool" where
  "has_transaction st h = and_then (transaction_block_index st h) (\<lambda>i. Inr (i \<noteq> None))"

definition pool_chain_of :: "chain_state \<Rightarrow> pool_chain" where
  "pool_chain_of st =
     \<lparr>pc_access = chain_access_of st, pc_top_index = (case tip st of Some i \<Rightarrow> ucast i | None \<Rightarrow> 0),
      pc_block_info_at = (\<lambda>i. if unat i < 2 ^ 32 then block_info_at st (ucast i) else Inr None),
      pc_block_median_size = median_size st, pc_checkpoint_table = cs_checkpoints st,
      pc_fixed_difficulty = (if simnet (cfg st) then Some SIMNET_DIFFICULTY else None),
      pc_transaction_in_chain = has_transaction st\<rparr>"

definition unwrap_or_false :: "chain_error + bool \<Rightarrow> bool" where
  "unwrap_or_false r = (case r of Inl _ \<Rightarrow> False | Inr b \<Rightarrow> b)"

section \<open>The cache of rejections\<close>

record context_key =
  ck_height :: u64
  ck_median :: u64
  ck_timestamp :: u64

definition context_of :: "pool_chain \<Rightarrow> context_key" where
  "context_of chain =
     \<lparr>ck_height = pc_top_index chain, ck_median = pc_block_median_size chain,
      ck_timestamp = ca_top_block_timestamp (pc_access chain)\<rparr>"

datatype cache_scope = Always | UntilChainSwitch | Context context_key

record remembered =
  rm_rule :: tx_rule
  rm_scope :: cache_scope
  rm_blob_len :: nat
  rm_at :: u64
  rm_seq :: u64

record rejection_cache =
  cache_entries :: "(hash \<times> remembered) list"
  cache_order :: "(hash \<times> u64) list"
  cache_next_seq :: u64

definition still_stands :: "u64 \<Rightarrow> u64 \<Rightarrow> context_key \<Rightarrow> remembered \<Rightarrow> bool" where
  "still_stands now ttl context e \<longleftrightarrow>
     saturating_sub now (rm_at e) < ttl \<and> (case rm_scope e of Context key \<Rightarrow> key = context | _ \<Rightarrow> True)"

definition cache_lookup ::
  "hash \<Rightarrow> nat \<Rightarrow> u64 \<Rightarrow> u64 \<Rightarrow> context_key \<Rightarrow> rejection_cache \<Rightarrow> tx_rule option \<times> rejection_cache" where
  "cache_lookup h blob_len now ttl context c =
     (case map_of (cache_entries c) h of
        None \<Rightarrow> (None, c)
      | Some e \<Rightarrow>
          if rm_blob_len e \<noteq> blob_len then (None, c)
          else if still_stands now ttl context e then (Some (rm_rule e), c)
          else (None, c\<lparr>cache_entries := AList.delete h (cache_entries c)\<rparr>))"

text \<open>The loop at the end of \<open>insert\<close>, which pops positions off the front of the queue.\<close>

fun cache_trim :: "nat \<Rightarrow> (hash \<times> remembered) list \<Rightarrow> (hash \<times> u64) list \<Rightarrow> (hash \<times> remembered) list \<times> (hash \<times> u64) list" where
  "cache_trim capacity es [] = (es, [])"
| "cache_trim capacity es ((old, old_seq) # order) =
     (if length es > capacity \<or> length ((old, old_seq) # order) > 2 * capacity then
        cache_trim capacity
          (if (case map_of es old of Some e \<Rightarrow> rm_seq e = old_seq | None \<Rightarrow> False) then AList.delete old es else es) order
      else (es, (old, old_seq) # order))"

definition cache_insert :: "hash \<Rightarrow> nat \<Rightarrow> tx_rule \<Rightarrow> cache_scope \<Rightarrow> u64 \<Rightarrow> nat \<Rightarrow> rejection_cache \<Rightarrow> rejection_cache" where
  "cache_insert h blob_len rl scope now capacity c =
     (if capacity = 0 then c
      else
        let seq = cache_next_seq c;
            es = AList.update h \<lparr>rm_rule = rl, rm_scope = scope, rm_blob_len = blob_len, rm_at = now, rm_seq = seq\<rparr> (cache_entries c);
            (es, order) = cache_trim capacity es (cache_order c @ [(h, seq)])
        in \<lparr>cache_entries = es, cache_order = order, cache_next_seq = seq + 1\<rparr>)"

definition cache_expire :: "u64 \<Rightarrow> u64 \<Rightarrow> rejection_cache \<Rightarrow> rejection_cache" where
  "cache_expire now ttl c =
     (let es = filter (\<lambda>(h, e). saturating_sub now (rm_at e) < ttl) (cache_entries c)
      in c\<lparr>cache_entries := es,
           cache_order := filter (\<lambda>(h, s). case map_of es h of Some e \<Rightarrow> rm_seq e = s | None \<Rightarrow> False) (cache_order c)\<rparr>)"

definition forget_ring_dependent :: "rejection_cache \<Rightarrow> rejection_cache" where
  "forget_ring_dependent c = c\<lparr>cache_entries := filter (\<lambda>(h, e). rm_scope e \<noteq> UntilChainSwitch) (cache_entries c)\<rparr>"

section \<open>The pool\<close>

record transaction_pool =
  pool_cfg :: pool_config
  entries :: "(u64 \<times> pool_entry) list"
  priority :: "priority_key list"
  by_hash :: "(hash \<times> u64) list"
  by_payment_id :: "(hash \<times> hash list) list"
  pool_key_images :: "(hash \<times> hash) list"
  size_bytes :: u64
  fee_less :: nat
  next_seq :: u64
  evicted :: "hash list"
  recently_deleted :: "(hash \<times> u64) list"
  rejected :: rejection_cache
  pool_now :: u64

definition pool_new :: "pool_config \<Rightarrow> u64 \<Rightarrow> transaction_pool" where
  "pool_new cf now =
     \<lparr>pool_cfg = cf, entries = [], priority = [], by_hash = [], by_payment_id = [], pool_key_images = [], size_bytes = 0,
      fee_less = 0, next_seq = 0, evicted = [], recently_deleted = [],
      rejected = \<lparr>cache_entries = [], cache_order = [], cache_next_seq = 0\<rparr>, pool_now = now\<rparr>"

definition pool_contains :: "transaction_pool \<Rightarrow> hash \<Rightarrow> bool" where
  "pool_contains p h \<longleftrightarrow> map_of (by_hash p) h \<noteq> None"

definition pool_get :: "transaction_pool \<Rightarrow> hash \<Rightarrow> pool_entry option" where
  "pool_get p h = Option.bind (map_of (by_hash p) h) (map_of (entries p))"

definition hashes_by_payment_id :: "transaction_pool \<Rightarrow> hash \<Rightarrow> hash list" where
  "hashes_by_payment_id p pid = (case map_of (by_payment_id p) pid of Some hs \<Rightarrow> hs | None \<Rightarrow> [])"

definition by_priority :: "transaction_pool \<Rightarrow> pool_entry list" where
  "by_priority p = List.map_filter (\<lambda>k. map_of (entries p) (key_seq k)) (priority p)"

definition pool_hashes :: "transaction_pool \<Rightarrow> hash list" where
  "pool_hashes p = map pe_hash (by_priority p)"

text \<open>The entries that pay a fee and the ones that do not, each in priority order.\<close>

definition for_block_template :: "transaction_pool \<Rightarrow> pool_entry list \<times> pool_entry list" where
  "for_block_template p = partition (\<lambda>e. pe_fee e \<noteq> 0) (by_priority p)"

definition transactions_for_relay :: "transaction_pool \<Rightarrow> hash list \<Rightarrow> bytes list" where
  "transactions_for_relay p hs = List.map_filter (\<lambda>h. map_option pe_blob (pool_get p h)) hs"

definition take_evicted :: "transaction_pool \<Rightarrow> hash list \<times> transaction_pool" where
  "take_evicted p = (evicted p, p\<lparr>evicted := []\<rparr>)"

subsection \<open>Insertion, removal and eviction\<close>

fun fee_inputs :: "u64 \<Rightarrow> input list \<Rightarrow> u64 option" where
  "fee_inputs acc [] = Some acc"
| "fee_inputs acc (Key amount _ _ # rest) = fee_inputs (acc + amount) rest"
| "fee_inputs acc (Base _ # rest) = None"

definition transaction_fee_of :: "transaction \<Rightarrow> u64" where
  "transaction_fee_of tx =
     (case fee_inputs 0 (inputs (prefix tx)) of
        None \<Rightarrow> 0
      | Some ins \<Rightarrow> ins - foldl (\<lambda>a v. a + out_amount v) 0 (outputs (prefix tx)))"

definition payment_id_of :: "transaction \<Rightarrow> hash option" where
  "payment_id_of tx = (case we_payment_id (parse_extra_wallet (extra (prefix tx))) of Some (Long i) \<Rightarrow> Some i | _ \<Rightarrow> None)"

definition is_least_profitable :: "transaction_pool \<Rightarrow> pool_entry \<Rightarrow> bool" where
  "is_least_profitable p candidate =
     (if priority p = [] then False else \<not> prefers (priority_of candidate) (key_priority (last (priority p))))"

definition pool_insert :: "pool_entry \<Rightarrow> hash set \<Rightarrow> transaction_pool \<Rightarrow> transaction_pool" where
  "pool_insert e images p =
     (let seq = next_seq p in
      p\<lparr>next_seq := seq + 1,
        priority := set_insert \<lparr>key_priority = priority_of e, key_seq = seq\<rparr> (priority p),
        fee_less := fee_less p + (if pe_fee e = 0 then 1 else 0),
        size_bytes := size_bytes p + of_nat (pe_size e),
        by_hash := AList.update (pe_hash e) seq (by_hash p),
        by_payment_id :=
          (case pe_payment_id e of
             Some pid \<Rightarrow> AList.update pid (hashes_by_payment_id p pid @ [pe_hash e]) (by_payment_id p)
           | None \<Rightarrow> by_payment_id p),
        pool_key_images := fold (\<lambda>ki m. AList.update ki (pe_hash e) m) (sorted_list_of_set images) (pool_key_images p),
        entries := AList.update seq e (entries p)\<rparr>)"

text \<open>The key images of the removed entry that are still filed under its hash.\<close>

fun release_images :: "hash \<Rightarrow> input list \<Rightarrow> (hash \<times> hash) list \<Rightarrow> (hash \<times> hash) list" where
  "release_images h [] m = m"
| "release_images h (Key _ _ ki # rest) m =
     release_images h rest (if map_of m ki = Some h then AList.delete ki m else m)"
| "release_images h (Base _ # rest) m = release_images h rest m"

definition release_payment_id :: "hash \<Rightarrow> hash \<Rightarrow> (hash \<times> hash list) list \<Rightarrow> (hash \<times> hash list) list" where
  "release_payment_id h pid m =
     (case map_of m pid of
        None \<Rightarrow> m
      | Some hs \<Rightarrow>
          let rest = filter (\<lambda>k. k \<noteq> h) hs in
          if rest = [] then AList.delete pid m else AList.update pid rest m)"

definition pool_remove :: "hash \<Rightarrow> transaction_pool \<Rightarrow> bool \<times> transaction_pool" where
  "pool_remove h p =
     (case map_of (by_hash p) h of
        None \<Rightarrow> (False, p)
      | Some seq \<Rightarrow>
          let p = p\<lparr>by_hash := AList.delete h (by_hash p)\<rparr> in
          (case map_of (entries p) seq of
             None \<Rightarrow> (False, p)
           | Some e \<Rightarrow>
               (True, p\<lparr>
                 entries := AList.delete seq (entries p),
                 priority := set_remove \<lparr>key_priority = priority_of e, key_seq = seq\<rparr> (priority p),
                 fee_less := fee_less p - (if pe_fee e = 0 then 1 else 0),
                 pool_key_images := release_images h (inputs (prefix (pe_transaction e))) (pool_key_images p),
                 by_payment_id :=
                   (case pe_payment_id e of Some pid \<Rightarrow> release_payment_id h pid (by_payment_id p) | None \<Rightarrow> by_payment_id p),
                 size_bytes := saturating_sub (size_bytes p) (of_nat (pe_size e))\<rparr>)))"

definition remove_all :: "hash list \<Rightarrow> transaction_pool \<Rightarrow> transaction_pool" where
  "remove_all hs p = fold (\<lambda>h p. snd (pool_remove h p)) hs p"

definition pool_flush :: "transaction_pool \<Rightarrow> transaction_pool" where
  "pool_flush p = remove_all (pool_hashes p) p"

text \<open>
  The loop of \<open>evict_to_fit\<close>, bounded by the number of priority keys: in a consistent pool every step takes one
  (\<open>evict_loop_ends\<close>).
\<close>

fun evict_loop :: "nat \<Rightarrow> u64 \<Rightarrow> transaction_pool \<Rightarrow> hash list \<times> transaction_pool" where
  "evict_loop 0 target p = ([], p)"
| "evict_loop (Suc n) target p =
     (if size_bytes p > target \<and> priority p \<noteq> [] then
        (case map_of (entries p) (key_seq (last (priority p))) of
           None \<Rightarrow> ([], p)
         | Some e \<Rightarrow> (case evict_loop n target (snd (pool_remove (pe_hash e) p)) of (hs, p) \<Rightarrow> (pe_hash e # hs, p)))
      else ([], p))"

definition evict_to_fit :: "transaction_pool \<Rightarrow> hash list \<times> transaction_pool" where
  "evict_to_fit p =
     (if size_bytes p \<le> max_size_bytes (pool_cfg p) then ([], p)
      else evict_loop (length (priority p)) (max_size_bytes (pool_cfg p) div 100 * evict_to_percent (pool_cfg p)) p)"

subsection \<open>Admission\<close>

definition remember_rejection :: "hash \<Rightarrow> nat \<Rightarrow> tx_rule \<Rightarrow> context_key \<Rightarrow> u64 \<Rightarrow> transaction_pool \<Rightarrow> transaction_pool" where
  "remember_rejection h blob_len rl context now p =
     (let keep = (\<lambda>scope. p\<lparr>rejected := cache_insert h blob_len rl scope now (rejection_cache_capacity (pool_cfg p)) (rejected p)\<rparr>) in
      case of_rule rl of
        Invalid \<Rightarrow> keep Always
      | InvalidSignature \<Rightarrow> keep UntilChainSwitch
      | InvalidAtHeight \<Rightarrow> keep (Context context)
      | _ \<Rightarrow> p)"

text \<open>The first key image of the inputs another pooled transaction spends, with that transaction.\<close>

fun image_conflict :: "(hash \<times> hash) list \<Rightarrow> input list \<Rightarrow> (hash \<times> hash) option" where
  "image_conflict m [] = None"
| "image_conflict m (Key _ _ ki # rest) = (case map_of m ki of Some holder \<Rightarrow> Some (ki, holder) | None \<Rightarrow> image_conflict m rest)"
| "image_conflict m (Base _ # rest) = image_conflict m rest"

definition pool_context :: "pool_chain \<Rightarrow> tx_context" where
  "pool_context chain =
     (let context = context_of chain in
      \<lparr>block_height = ck_height context, block_median_size = ck_median context, block_timestamp = ck_timestamp context,
       is_pool_transaction = True, ctx_checkpoints = pc_checkpoint_table chain\<rparr>)"

definition candidate_entry :: "transaction \<Rightarrow> bytes \<Rightarrow> hash \<Rightarrow> u64 \<Rightarrow> pool_source \<Rightarrow> pool_entry" where
  "candidate_entry tx blob h now src =
     \<lparr>pe_hash = h, pe_transaction = tx, pe_blob = blob, pe_fee = transaction_fee_of tx,
      pe_amount = (case sum_outputs (prefix tx) of Some s \<Rightarrow> s | None \<Rightarrow> 0), pe_is_fusion = False, pe_receive_time = now,
      pe_source = src, pe_payment_id = payment_id_of tx\<rparr>"

text \<open>From the validator on: the verdict, the insertion and the eviction that follows it.\<close>

definition admit ::
  "crypto \<Rightarrow> pool_chain \<Rightarrow> pool_entry \<Rightarrow> transaction_pool \<Rightarrow> pool_status \<times> transaction_pool" where
  "admit c chain e p =
     (case validate_transaction_early_exit c (pc_access chain) (pool_context chain) (pe_transaction e) (pe_blob e) {} of
        (Inl (TxRule rl), _) \<Rightarrow>
          (Rejected rl, remember_rejection (pe_hash e) (pe_size e) rl (context_of chain) (pool_now p) p)
      | (Inl (Chain _), _) \<Rightarrow> (Rejected (InputKeyImageAlreadySpent (replicate 32 0)), p)
      | (Inr v, spent) \<Rightarrow>
          let (shed, p) = evict_to_fit (pool_insert (e\<lparr>pe_is_fusion := tv_is_fusion v\<rparr>) spent p);
              p = p\<lparr>evicted := evicted p @ shed\<rparr>
          in (if pool_contains p (pe_hash e) then Added else PoolFull, p))"

definition add_parsed ::
  "crypto \<Rightarrow> pool_chain \<Rightarrow> transaction \<Rightarrow> bytes \<Rightarrow> hash \<Rightarrow> pool_source \<Rightarrow> transaction_pool \<Rightarrow> pool_status \<times> transaction_pool" where
  "add_parsed c chain tx blob h src p =
     (if pool_contains p h then (AlreadyInPool, p)
      else
        let (cached, cache) = cache_lookup h (length blob) (pool_now p) (rejection_cache_ttl (pool_cfg p)) (context_of chain) (rejected p);
            p = p\<lparr>rejected := cache\<rparr> in
        case cached of
          Some rl \<Rightarrow> (CachedRejection rl, p)
        | None \<Rightarrow>
            if unwrap_or_false (pc_transaction_in_chain chain h) then (AlreadyInBlockchain, p)
            else if map_of (recently_deleted p) h \<noteq> None then (RecentlyDeleted, p)
            else if transaction_fee_of tx = 0 \<and> fee_less p \<ge> fusion_max_pool_count (pool_cfg p) then (FusionPoolFull, p)
            else (case image_conflict (pool_key_images p) (inputs (prefix tx)) of
                Some (ki, holder) \<Rightarrow> (KeyImageInPool ki holder, p)
              | None \<Rightarrow>
                  let e = candidate_entry tx blob h (pool_now p) src in
                  if size_bytes p + of_nat (length blob) > max_size_bytes (pool_cfg p) \<and> is_least_profitable p e then (PoolFull, p)
                  else admit c chain e p))"

definition pool_add ::
  "crypto \<Rightarrow> pool_chain \<Rightarrow> bytes \<Rightarrow> pool_source \<Rightarrow> transaction_pool \<Rightarrow> pool_status \<times> transaction_pool" where
  "pool_add c chain blob src p =
     (case tx_from_bytes blob of
        Inl _ \<Rightarrow> (DeserializationFailed, p)
      | Inr tx \<Rightarrow>
          (case tx_hash (cn_fast_hash c) tx of
             Inl _ \<Rightarrow> (DeserializationFailed, p)
           | Inr h \<Rightarrow> add_parsed c chain tx blob h src p))"

subsection \<open>The cleaner\<close>

definition clean_recently_deleted :: "u64 \<Rightarrow> transaction_pool \<Rightarrow> transaction_pool" where
  "clean_recently_deleted now p =
     p\<lparr>recently_deleted := filter (\<lambda>(h, at). saturating_sub now at < tx_livetime (pool_cfg p)) (recently_deleted p)\<rparr>"

definition forget_deleted :: "hash \<Rightarrow> transaction_pool \<Rightarrow> bool \<times> transaction_pool" where
  "forget_deleted h p =
     (map_of (recently_deleted p) h \<noteq> None, p\<lparr>recently_deleted := AList.delete h (recently_deleted p)\<rparr>)"

definition forget_rejection :: "hash \<Rightarrow> transaction_pool \<Rightarrow> bool \<times> transaction_pool" where
  "forget_rejection h p =
     (map_of (cache_entries (rejected p)) h \<noteq> None,
      p\<lparr>rejected := (rejected p)\<lparr>cache_entries := AList.delete h (cache_entries (rejected p))\<rparr>\<rparr>)"

definition outdated :: "u64 \<Rightarrow> u64 \<Rightarrow> pool_config \<Rightarrow> pool_entry \<Rightarrow> bool" where
  "outdated height now cf e \<longleftrightarrow>
     saturating_sub now (pe_receive_time e) \<ge> (if pe_source e = AlternativeBlock then alt_block_tx_livetime cf else tx_livetime cf) \<or>
     isl (validate_ring_sizes (ring_sizes (prefix (pe_transaction e))) height)"

fun clean_loop :: "u64 \<Rightarrow> u64 \<Rightarrow> hash list \<Rightarrow> transaction_pool \<Rightarrow> hash list \<times> transaction_pool" where
  "clean_loop height now [] p = ([], p)"
| "clean_loop height now (h # hs) p =
     (case pool_get p h of
        None \<Rightarrow> clean_loop height now hs p
      | Some e \<Rightarrow>
          if outdated height now (pool_cfg p) e then
            (case clean_loop height now hs (snd (pool_remove h (p\<lparr>recently_deleted := AList.update h now (recently_deleted p)\<rparr>))) of
               (deleted, p) \<Rightarrow> (h # deleted, p))
          else clean_loop height now hs p)"

definition pool_clean :: "u64 \<Rightarrow> transaction_pool \<Rightarrow> hash list \<times> transaction_pool" where
  "pool_clean height p =
     (let now = pool_now p;
          (deleted, p) = clean_loop height now (pool_hashes p) p;
          p = clean_recently_deleted now p
      in (deleted, p\<lparr>rejected := cache_expire now (rejection_cache_ttl (pool_cfg p)) (rejected p)\<rparr>))"

subsection \<open>Reacting to the chain\<close>

text \<open>What the sweep after a block removes: \<open>mined\<close> are the block's transactions, \<open>spent\<close> its key images.\<close>

definition swept :: "pool_chain \<Rightarrow> hash list \<Rightarrow> hash set \<Rightarrow> pool_entry \<Rightarrow> bool" where
  "swept chain mined spent e \<longleftrightarrow>
     pe_hash e \<in> set mined \<or> unwrap_or_false (pc_transaction_in_chain chain (pe_hash e)) \<or>
     isl (validate_ring_sizes (ring_sizes (prefix (pe_transaction e))) (pc_top_index chain)) \<or>
     of_nat (pe_size e) > max_tx_size (pc_block_median_size chain) \<or>
     list_ex (\<lambda>i. case i of Key _ _ ki \<Rightarrow> ki \<in> spent | Base _ \<Rightarrow> False) (inputs (prefix (pe_transaction e)))"

definition on_block_added ::
  "pool_chain \<Rightarrow> hash list \<Rightarrow> hash set \<Rightarrow> transaction_pool \<Rightarrow> hash list \<times> transaction_pool" where
  "on_block_added chain mined spent p =
     (let to_remove = filter (\<lambda>h. case pool_get p h of None \<Rightarrow> False | Some e \<Rightarrow> swept chain mined spent e) (pool_hashes p)
      in (to_remove, remove_all to_remove p))"

fun spends_loop :: "chain_access \<Rightarrow> u64 \<Rightarrow> input list \<Rightarrow> chain_error + bool" where
  "spends_loop chain index [] = Inr False"
| "spends_loop chain index (Base _ # rest) = spends_loop chain index rest"
| "spends_loop chain index (Key _ _ ki # rest) =
     (case ca_key_image_spent chain ki index of
        Inl e \<Rightarrow> Inl e
      | Inr True \<Rightarrow> Inr True
      | Inr False \<Rightarrow> spends_loop chain index rest)"

definition spends_on_chain :: "pool_chain \<Rightarrow> transaction \<Rightarrow> u64 \<Rightarrow> chain_error + bool" where
  "spends_on_chain chain tx index = spends_loop (pc_access chain) index (inputs (prefix tx))"

definition remove_spent_in_chain :: "pool_chain \<Rightarrow> transaction_pool \<Rightarrow> hash list \<times> transaction_pool" where
  "remove_spent_in_chain chain p =
     (let p = p\<lparr>rejected := forget_ring_dependent (rejected p)\<rparr>;
          spent = map pe_hash (filter (\<lambda>e. unwrap_or_false (spends_on_chain chain (pe_transaction e) (pc_top_index chain))) (by_priority p))
      in (spent, remove_all spent p))"

fun copy_loop :: "crypto \<Rightarrow> pool_chain \<Rightarrow> bytes list \<Rightarrow> transaction_pool \<Rightarrow> hash list \<times> transaction_pool" where
  "copy_loop c chain [] p = ([], p)"
| "copy_loop c chain (blob # blobs) p =
     (case tx_from_bytes blob of
        Inl _ \<Rightarrow> copy_loop c chain blobs p
      | Inr tx \<Rightarrow>
          (case tx_hash (cn_fast_hash c) tx of
             Inl _ \<Rightarrow> copy_loop c chain blobs p
           | Inr h \<Rightarrow>
               (case add_parsed c chain tx blob h AlternativeBlock (snd (forget_deleted h p)) of
                  (status, p) \<Rightarrow>
                    (case copy_loop c chain blobs p of
                       (restored, p) \<Rightarrow> (if status = Added then h # restored else restored, p)))))"

definition copy_transactions_to_pool ::
  "crypto \<Rightarrow> pool_chain \<Rightarrow> bytes list \<Rightarrow> transaction_pool \<Rightarrow> hash list \<times> transaction_pool" where
  "copy_transactions_to_pool c chain blobs p =
     copy_loop c chain blobs (p\<lparr>rejected := forget_ring_dependent (rejected p)\<rparr>)"

section \<open>A block and the pool\<close>

record chain_update =
  cu_outcome :: add_outcome
  cu_removed :: "hash list"
  cu_restored :: "hash list"
  cu_lowest_unwound :: "u32 option"

text \<open>The key images of the block's transactions, from the blobs that parse.\<close>

definition spent_by_blobs :: "bytes list \<Rightarrow> hash set" where
  "spent_by_blobs tx_blobs =
     set (concat (map (\<lambda>blob. case tx_from_bytes blob of Inl _ \<Rightarrow> [] | Inr tx \<Rightarrow> key_images_of (inputs (prefix tx))) tx_blobs))"

definition add_block_with_pool ::
  "primitives \<Rightarrow> bytes \<Rightarrow> bytes list \<Rightarrow> transaction_pool \<Rightarrow> chain_state \<Rightarrow>
   (halt + chain_update) \<times> transaction_pool \<times> chain_state" where
  "add_block_with_pool P block_blob tx_blobs pool st =
     (case block_from_bytes block_blob of
        Inl _ \<Rightarrow> (refuse (rule.DeserializationFailed ''block blob''), pool, st)
      | Inr block \<Rightarrow>
     (case add_block P None block_blob tx_blobs st of
        (Inl e, st) \<Rightarrow> (Inl e, pool, st)
      | (Inr (outcome, left), st) \<Rightarrow>
          let lowest = (if left = [] then None else Some (uw_index (last left)));
              chain = pool_chain_of st;
              update = (\<lambda>removed restored. \<lparr>cu_outcome = outcome, cu_removed = removed, cu_restored = restored, cu_lowest_unwound = lowest\<rparr>) in
          if ao_status outcome = Alternative then (Inr (update [] []), pool, st)
          else
            let (gone, pool, restored) =
                  (if ao_status outcome = AlternativeAndSwitched then
                     let (gone, pool) = remove_spent_in_chain chain pool;
                         (restored, pool) = copy_transactions_to_pool (pr_crypto P) chain (concat (map uw_transactions left)) pool
                     in (gone, pool, restored)
                   else ([], pool, []));
                (removed, pool) = on_block_added chain (bt_transaction_hashes block) (spent_by_blobs tx_blobs) pool
            in (Inr (update (gone @ removed) restored), pool, st)))"

end
