(* ===== verification/Template.thy ===== *)
theory Template
  imports Pool
begin

text \<open>
  Block templates (\<open>wrkz-mempool/src/template_builder.rs\<close>, \<open>coinbase.rs\<close> and the second half of \<open>chain.rs\<close>): the numbers a
  template reads off the chain and their cache, the coinbase, the selection of pool transactions, the loop that settles
  the coinbase size, and the submission of a mined block. The two curve operations of the coinbase, the generated key pair
  and the system clock are arguments.
\<close>

section \<open>The coinbase\<close>

text \<open>A failure that is an error value of the code, and a panic.\<close>

datatype 'e stop = Stopped 'e | Panicked

definition of_panic :: "panic + 'a \<Rightarrow> 'e stop + 'a" where
  "of_panic r = (case r of Inl _ \<Rightarrow> Inl Panicked | Inr x \<Rightarrow> Inr x)"

record derivations =
  generate_key_derivation :: "hash \<Rightarrow> hash \<Rightarrow> hash option"
  derive_public_key :: "hash \<Rightarrow> u64 \<Rightarrow> hash \<Rightarrow> hash option"

datatype miner_tx_error =
    ExtraNonceTooLong nat
  | BlockTooBig u64 u64
  | MaxOutsIsZero
  | BadKeys
  | AmountMismatch u64 u64

record miner_tx =
  mt_reward :: u64
  mt_tx_public_key :: hash

definition default_dust_threshold :: "u64 \<Rightarrow> u64" where
  "default_dust_threshold height = (if height \<ge> DUST_THRESHOLD_V2_HEIGHT then DEFAULT_DUST_THRESHOLD_V2 else DEFAULT_DUST_THRESHOLD)"

text \<open>The loop that folds the last amount into the one before it while there are too many.\<close>

function merge_outs :: "nat \<Rightarrow> u64 list \<Rightarrow> u64 list" where
  "merge_outs max_outs out_amounts =
     (if max_outs < length out_amounts then
        let rest = butlast out_amounts; n = length rest
        in merge_outs max_outs (rest[n - 1 := rest ! (n - 1) + last out_amounts])
      else out_amounts)"
  by pat_completeness auto
termination
  by (relation "measure (\<lambda>(m, xs). length xs)") auto

declare merge_outs.simps [simp del]

fun miner_outputs :: "derivations \<Rightarrow> hash \<Rightarrow> hash \<Rightarrow> u64 \<Rightarrow> u64 list \<Rightarrow> tx_output list option" where
  "miner_outputs D derivation spend index [] = Some []"
| "miner_outputs D derivation spend index (amount # rest) =
     (case derive_public_key D derivation index spend of
        None \<Rightarrow> None
      | Some key \<Rightarrow> map_option (\<lambda>os. \<lparr>out_amount = amount, out_key = key\<rparr> # os) (miner_outputs D derivation spend (index + 1) rest))"

definition construct_miner_tx ::
  "derivations \<Rightarrow> u8 \<Rightarrow> u64 \<Rightarrow> u64 \<Rightarrow> u64 \<Rightarrow> u64 \<Rightarrow> u64 \<Rightarrow> hash \<Rightarrow> hash \<Rightarrow> bytes \<Rightarrow> nat \<Rightarrow> hash \<times> hash \<Rightarrow>
   miner_tx_error stop + transaction \<times> miner_tx" where
  "construct_miner_tx D block_major_version height median already_generated_coins current_block_size fees view spend extra_nonce max_outs keys =
     (let (tx_secret_key, tx_public_key) = keys;
          nonce = (if extra_nonce = [] then None else Some extra_nonce) in
      if length extra_nonce > 255 then Inl (Stopped (ExtraNonceTooLong (length extra_nonce)))
      else
        (case build_extra tx_public_key nonce None of
           Inl _ \<Rightarrow> Inl (Stopped (ExtraNonceTooLong (case nonce of Some n \<Rightarrow> length n | None \<Rightarrow> 0)))
         | Inr extra_field \<Rightarrow>
             and_then (of_panic (get_block_reward block_major_version median current_block_size already_generated_coins fees height)) (\<lambda>r.
             case r of
               None \<Rightarrow> Inl (Stopped (BlockTooBig current_block_size (2 * max median (of_nat (full_reward_zone block_major_version)))))
             | Some br \<Rightarrow>
                 let pay = reward br;
                     out_amounts = decompose_amount pay (default_dust_threshold height) in
                 if max_outs = 0 then Inl (Stopped MaxOutsIsZero)
                 else
                   let out_amounts = merge_outs max_outs out_amounts in
                   (case generate_key_derivation D view tx_secret_key of
                      None \<Rightarrow> Inl (Stopped BadKeys)
                    | Some derivation \<Rightarrow>
                        (case miner_outputs D derivation spend 0 out_amounts of
                           None \<Rightarrow> Inl (Stopped BadKeys)
                         | Some outs \<Rightarrow>
                             let summary = fold (\<lambda>a s. s + a) out_amounts 0 in
                             if summary \<noteq> pay then Inl (Stopped (AmountMismatch summary pay))
                             else
                               Inr (\<lparr>prefix = \<lparr>version = CURRENT_TRANSACTION_VERSION, unlock_time = height + CRYPTONOTE_MINED_MONEY_UNLOCK_WINDOW,
                                       inputs = [Base height], outputs = outs, extra = extra_field\<rparr>, signatures = []\<rparr>,
                                    \<lparr>mt_reward = pay, mt_tx_public_key = tx_public_key\<rparr>))))))"

section \<open>What a template reads of the chain\<close>

record template_context =
  tc_height :: u64
  tc_previous_block_hash :: hash
  tc_difficulty :: u64
  tc_major_version :: u8
  tc_minor_version :: u8
  tc_median_size :: u64
  tc_max_cumulative_size :: u64
  tc_already_generated_coins :: u64
  tc_timestamp_median :: "u64 option"

datatype context_error = DifficultyIsZero | Missing u64 | OnChain chain_error

definition read_chain :: "chain_error + 'a \<Rightarrow> context_error stop + 'a" where
  "read_chain r = (case r of Inl e \<Rightarrow> Inl (Stopped (OnChain e)) | Inr x \<Rightarrow> Inr x)"

definition info_or_missing_at :: "pool_chain \<Rightarrow> u64 \<Rightarrow> context_error stop + block_info" where
  "info_or_missing_at chain i = and_then (read_chain (pc_block_info_at chain i)) (ok_or (Stopped (Missing i)))"

definition top_block_hash :: "pool_chain \<Rightarrow> chain_error + hash" where
  "top_block_hash chain =
     and_then (pc_block_info_at chain (pc_top_index chain)) (\<lambda>i. Inr (case i of Some i \<Rightarrow> bi_block_hash i | None \<Rightarrow> replicate 32 0))"

definition already_generated_coins_of :: "pool_chain \<Rightarrow> chain_error + u64" where
  "already_generated_coins_of chain =
     and_then (pc_block_info_at chain (pc_top_index chain)) (\<lambda>i. Inr (case i of Some i \<Rightarrow> bi_already_generated_coins i | None \<Rightarrow> 0))"

definition minor_version_for :: "u8 \<Rightarrow> u8" where
  "minor_version_for major =
     (let V2_UNDEFINED = False; V3_UNDEFINED = False in
      if major = BLOCK_MAJOR_VERSION_1 then (if V2_UNDEFINED then 1 else 0)
      else if V3_UNDEFINED \<and> major = BLOCK_MAJOR_VERSION_2 then 1 else 0)"

definition next_block_difficulty :: "pool_chain \<Rightarrow> u64 \<Rightarrow> context_error stop + u64 option" where
  "next_block_difficulty chain parent_index =
     (case pc_fixed_difficulty chain of
        Some fixed \<Rightarrow> Inr (Some fixed)
      | None \<Rightarrow>
          if unat parent_index \<ge> 2 ^ 32 then Inr None
          else
            let parent = ucast parent_index :: u32 in
            and_then (traverse (\<lambda>i. info_or_missing_at chain (ucast i)) (difficulty_window_indexes parent))
              (\<lambda>wnd. of_panic (difficulty_for_next_block_from parent wnd)))"

definition template_timestamp_check_window :: "u64 \<Rightarrow> nat" where
  "template_timestamp_check_window height =
     (if height \<ge> LWMA_2_DIFFICULTY_BLOCK_INDEX then BLOCKCHAIN_TIMESTAMP_CHECK_WINDOW_V3 else BLOCKCHAIN_TIMESTAMP_CHECK_WINDOW)"

definition template_timestamp_median :: "pool_chain \<Rightarrow> u64 \<Rightarrow> context_error stop + u64 option" where
  "template_timestamp_median chain height =
     (let wnd = template_timestamp_check_window height in
      if unat height < wnd then Inr None
      else and_then (traverse (\<lambda>i. info_or_missing_at chain (of_nat i)) [unat height - wnd..<unat height])
        (\<lambda>infos. Inr (Some (median_value (map bi_timestamp infos)))))"

definition context_from_chain :: "pool_chain \<Rightarrow> context_error stop + template_context" where
  "context_from_chain chain =
     (let top = pc_top_index chain; height = top + 1 in
      and_then (next_block_difficulty chain top) (\<lambda>d.
      and_then (ok_or (Stopped DifficultyIsZero) d) (\<lambda>difficulty.
      let major = block_major_version_for_index height in
      and_then (read_chain (top_block_hash chain)) (\<lambda>previous.
      and_then (read_chain (already_generated_coins_of chain)) (\<lambda>coins.
      and_then (template_timestamp_median chain height) (\<lambda>median.
        Inr \<lparr>tc_height = height, tc_previous_block_hash = previous, tc_difficulty = difficulty, tc_major_version = major,
          tc_minor_version = minor_version_for major, tc_median_size = pc_block_median_size chain,
          tc_max_cumulative_size = max_block_cumulative_size height, tc_already_generated_coins = coins,
          tc_timestamp_median = median\<rparr>))))))"

definition clamp_timestamp :: "template_context \<Rightarrow> u64 \<Rightarrow> u64" where
  "clamp_timestamp ctx now =
     (case tc_timestamp_median ctx of Some median \<Rightarrow> if now < median then median else now | None \<Rightarrow> now)"

type_synonym context_cache = "(u64 \<times> hash \<times> template_context) option"

definition cached_context :: "pool_chain \<Rightarrow> context_cache \<Rightarrow> (context_error stop + template_context) \<times> context_cache" where
  "cached_context chain held =
     (let top = pc_top_index chain in
      case read_chain (top_block_hash chain) of
        Inl e \<Rightarrow> (Inl e, held)
      | Inr top_hash \<Rightarrow>
          (case held of
             Some (i, h, ctx) \<Rightarrow>
               if i = top \<and> h = top_hash then (Inr ctx, held)
               else (case context_from_chain chain of Inl e \<Rightarrow> (Inl e, held) | Inr ctx \<Rightarrow> (Inr ctx, Some (top, top_hash, ctx)))
           | None \<Rightarrow> (case context_from_chain chain of Inl e \<Rightarrow> (Inl e, held) | Inr ctx \<Rightarrow> (Inr ctx, Some (top, top_hash, ctx)))))"

section \<open>The selection\<close>

record template_transaction =
  tt_hash :: hash
  tt_blob :: bytes
  tt_fee :: u64

definition template_revalidate_context :: "pool_chain \<Rightarrow> u64 \<Rightarrow> revalidate_context" where
  "template_revalidate_context chain height =
     \<lparr>rc_block_height = height, rc_block_median_size = pc_block_median_size chain,
      rc_block_timestamp = ca_top_block_timestamp (pc_access chain)\<rparr>"

definition valid_for_block_template :: "crypto \<Rightarrow> pool_entry \<Rightarrow> revalidate_context \<Rightarrow> bool" where
  "valid_for_block_template c e ctx \<longleftrightarrow> \<not> isl (revalidate_after_height_change c ctx (pe_transaction e) (pe_blob e))"

text \<open>The walk of the inputs, which claims images up to the first that is taken.\<close>

fun claim_images :: "hash set \<Rightarrow> input list \<Rightarrow> bool \<times> hash set" where
  "claim_images spent [] = (True, spent)"
| "claim_images spent (Base _ # rest) = claim_images spent rest"
| "claim_images spent (Key _ _ ki # rest) = (if ki \<in> spent then (False, spent) else claim_images (insert ki spent) rest)"

fun fill_loop ::
  "crypto \<Rightarrow> pool_chain \<Rightarrow> revalidate_context \<Rightarrow> u64 \<Rightarrow> u64 \<Rightarrow> hash set \<Rightarrow> u64 \<Rightarrow> pool_entry list \<Rightarrow> pool_entry list \<times> hash list" where
  "fill_loop c chain rctx parent limit spent used [] = ([], [])"
| "fill_loop c chain rctx parent limit spent used (e # rest) =
     (if used + of_nat (pe_size e) > limit then fill_loop c chain rctx parent limit spent used rest
      else if \<not> valid_for_block_template c e rctx then
        (case fill_loop c chain rctx parent limit spent used rest of (sel, invalid) \<Rightarrow> (sel, pe_hash e # invalid))
      else
        (case spends_on_chain chain (pe_transaction e) parent of
           Inl _ \<Rightarrow> fill_loop c chain rctx parent limit spent used rest
         | Inr True \<Rightarrow>
             (case fill_loop c chain rctx parent limit spent used rest of (sel, invalid) \<Rightarrow> (sel, pe_hash e # invalid))
         | Inr False \<Rightarrow>
             (case claim_images spent (inputs (prefix (pe_transaction e))) of
                (False, spent) \<Rightarrow> fill_loop c chain rctx parent limit spent used rest
              | (True, spent) \<Rightarrow>
                  (case fill_loop c chain rctx parent limit spent (used + of_nat (pe_size e)) rest of
                     (sel, invalid) \<Rightarrow> (e # sel, invalid)))))"

definition max_total_size :: "template_context \<Rightarrow> u64" where
  "max_total_size ctx =
     saturating_sub (min (125 * tc_median_size ctx div 100) (tc_max_cumulative_size ctx)) (of_nat CRYPTONOTE_COINBASE_BLOB_RESERVED_SIZE)"

definition chosen :: "pool_entry \<Rightarrow> template_transaction" where
  "chosen e = \<lparr>tt_hash = pe_hash e, tt_blob = pe_blob e, tt_fee = pe_fee e\<rparr>"

definition fill_block_template ::
  "crypto \<Rightarrow> pool_chain \<Rightarrow> template_context \<Rightarrow> transaction_pool \<Rightarrow> template_transaction list \<times> transaction_pool" where
  "fill_block_template c chain ctx p =
     (let rctx = template_revalidate_context chain (tc_height ctx);
          (regular, fusion) = for_block_template p;
          (sel, invalid) = fill_loop c chain rctx (saturating_sub (tc_height ctx) 1) (max_total_size ctx) {} 0 (regular @ fusion)
      in (map chosen sel, remove_all invalid p))"

section \<open>The template\<close>

abbreviation (input) COINBASE_REBUILD_TRIES :: nat where "COINBASE_REBUILD_TRIES \<equiv> 10"
abbreviation (input) COINBASE_MAX_OUTS :: nat where "COINBASE_MAX_OUTS \<equiv> 11"
abbreviation (input) MAX_RESERVE_SIZE :: nat where "MAX_RESERVE_SIZE \<equiv> 255"

record template_options =
  to_tx_key :: "(hash \<times> hash) option"
  to_now :: "u64 option"

record block_template_result =
  br_blob :: bytes
  br_block :: block_template
  br_difficulty :: u64
  br_height :: u64
  br_reserved_offset :: u64
  br_reserve_size :: nat
  br_tx_public_key :: hash
  br_reward :: u64
  br_cumulative_size :: u64
  br_fee :: u64

datatype template_error =
    BadAddress base58_error
  | ReserveTooBig nat
  | ContextFailed context_error
  | MinerTxFailed miner_tx_error
  | Serialization error
  | CoinbaseUnstable
  | CoinbaseSizeMismatch u64 u64 u64
  | ReserveDoesNotFit u64 nat nat

definition coinbase_size :: "transaction \<Rightarrow> u64" where
  "coinbase_size tx = (case tx_to_bytes tx of Inr b \<Rightarrow> of_nat (length b) | Inl _ \<Rightarrow> 0)"

text \<open>The position of the first window that is the needle.\<close>

definition find_subslice :: "bytes \<Rightarrow> bytes \<Rightarrow> nat option" where
  "find_subslice haystack needle =
     (if needle = [] \<or> length haystack < length needle then None
      else find (\<lambda>i. take (length needle) (drop i haystack) = needle) [0..<length haystack - length needle + 1])"

definition daemon_template_parent_block :: parent_block where
  "daemon_template_parent_block =
     (let ex = append_merge_mining_tag [] \<lparr>mm_depth = 0, merkle_root = replicate 32 0\<rparr>
      in parent_block_new 0 0 (replicate 32 0) 1 [] \<lparr>version = 0, unlock_time = 0, inputs = [], outputs = [], extra = ex\<rparr> [])"

definition with_extra :: "(bytes \<Rightarrow> bytes) \<Rightarrow> transaction \<Rightarrow> transaction" where
  "with_extra f tx = tx\<lparr>prefix := (prefix tx)\<lparr>extra := f (extra (prefix tx))\<rparr>\<rparr>"

text \<open>The rebuild loop: \<open>build\<close> constructs the coinbase for a block size, \<open>n\<close> are the tries left.\<close>

fun rebuild ::
  "(u64 \<Rightarrow> template_error stop + transaction \<times> miner_tx) \<Rightarrow> u64 \<Rightarrow> nat \<Rightarrow> u64 \<Rightarrow>
   template_error stop + transaction \<times> miner_tx \<times> u64" where
  "rebuild build txs 0 cumulative = Inl (Stopped CoinbaseUnstable)"
| "rebuild build txs (Suc n) cumulative =
     and_then (build cumulative) (\<lambda>(coinbase, miner).
       let mismatch = (\<lambda>tx. Inl (Stopped (CoinbaseSizeMismatch cumulative txs (coinbase_size tx))));
           settled = (\<lambda>tx. if cumulative \<noteq> txs + coinbase_size tx then mismatch tx else Inr (tx, miner, cumulative));
           blob_size = coinbase_size coinbase;
           budget = cumulative - txs in
       if blob_size > budget then rebuild build txs n (txs + blob_size)
       else if blob_size < budget then
         let delta = budget - blob_size;
             padded = with_extra (\<lambda>x. x @ replicate (unat delta) 0) coinbase in
         if cumulative \<noteq> txs + coinbase_size padded then
           if cumulative + 1 \<noteq> txs + coinbase_size padded then mismatch padded
           else
             let popped = with_extra butlast padded in
             if cumulative \<noteq> txs + coinbase_size popped then rebuild build txs n (cumulative + (delta - 1))
             else settled popped
         else settled padded
       else settled coinbase)"

definition build_template_from_context ::
  "crypto \<Rightarrow> derivations \<Rightarrow> hash \<times> hash \<Rightarrow> u64 \<Rightarrow> template_context \<Rightarrow> template_transaction list \<Rightarrow> bytes \<Rightarrow> nat \<Rightarrow> bytes option \<Rightarrow>
   template_options \<Rightarrow> template_error stop + block_template_result" where
  "build_template_from_context c D generated system_now ctx txs wallet_address reserve_size extra_nonce options =
     (case parse_address (cn_fast_hash c) (check_key c) wallet_address of
        Inl e \<Rightarrow> Inl (Stopped (BadAddress e))
      | Inr address \<Rightarrow>
          let reserve = (case extra_nonce of Some n \<Rightarrow> n | None \<Rightarrow> replicate reserve_size 0) in
          if length reserve > MAX_RESERVE_SIZE then Inl (Stopped (ReserveTooBig (length reserve)))
          else
            let tx_keys = (case to_tx_key options of Some k \<Rightarrow> k | None \<Rightarrow> generated);
                now = (case to_now options of Some t \<Rightarrow> t | None \<Rightarrow> system_now);
                transactions_size = fold (\<lambda>t s. s + of_nat (length (tt_blob t))) txs 0;
                fees = fold (\<lambda>t a. a + tt_fee t) txs 0;
                block = \<lparr>bt_major_version = tc_major_version ctx, bt_minor_version = tc_minor_version ctx,
                  bt_timestamp = clamp_timestamp ctx now, bt_previous_block_hash = tc_previous_block_hash ctx, bt_nonce = 0,
                  bt_parent_block = (if tc_major_version ctx \<ge> BLOCK_MAJOR_VERSION_2 then Some daemon_template_parent_block else None),
                  bt_base_transaction = \<lparr>prefix = \<lparr>version = 0, unlock_time = 0, inputs = [], outputs = [], extra = []\<rparr>, signatures = []\<rparr>,
                  bt_transaction_hashes = map tt_hash txs\<rparr>;
                build = (\<lambda>size. map_sum (map_stop MinerTxFailed) id
                  (construct_miner_tx D (tc_major_version ctx) (tc_height ctx) (tc_median_size ctx) (tc_already_generated_coins ctx)
                     size fees (view_public_key address) (spend_public_key address) reserve COINBASE_MAX_OUTS tx_keys)) in
            and_then (build transactions_size) (\<lambda>(coinbase, _).
            and_then (rebuild build transactions_size COINBASE_REBUILD_TRIES (transactions_size + coinbase_size coinbase)) (\<lambda>(coinbase, miner, cumulative_size).
            let block = block\<lparr>bt_base_transaction := coinbase\<rparr> in
            case block_to_bytes (cn_fast_hash c) block of
              Inl e \<Rightarrow> Inl (Stopped (Serialization e))
            | Inr blob \<Rightarrow>
                let at = (case find_subslice blob (mt_tx_public_key miner) of Some i \<Rightarrow> i | None \<Rightarrow> length blob);
                    offset = (if reserve = [] then 0 else at + 32 + 2) in
                if reserve \<noteq> [] \<and> offset + length reserve > length blob then
                  Inl (Stopped (ReserveDoesNotFit (of_nat offset) (length reserve) (length blob)))
                else
                  Inr \<lparr>br_blob = blob, br_block = block, br_difficulty = tc_difficulty ctx, br_height = tc_height ctx,
                    br_reserved_offset = of_nat offset, br_reserve_size = length reserve, br_tx_public_key = mt_tx_public_key miner,
                    br_reward = mt_reward miner, br_cumulative_size = cumulative_size, br_fee = fees\<rparr>)))"

definition build_template ::
  "crypto \<Rightarrow> derivations \<Rightarrow> hash \<times> hash \<Rightarrow> u64 \<Rightarrow> pool_chain \<Rightarrow> bytes \<Rightarrow> nat \<Rightarrow> bytes option \<Rightarrow> template_options \<Rightarrow> transaction_pool \<Rightarrow>
   (template_error stop + block_template_result) \<times> transaction_pool" where
  "build_template c D generated system_now chain wallet_address reserve_size extra_nonce options p =
     (case context_from_chain chain of
        Inl e \<Rightarrow> (Inl (map_stop ContextFailed e), p)
      | Inr ctx \<Rightarrow>
          (case fill_block_template c chain ctx p of
             (sel, p) \<Rightarrow> (build_template_from_context c D generated system_now ctx sel wallet_address reserve_size extra_nonce options, p)))"

definition build_template_cached ::
  "crypto \<Rightarrow> derivations \<Rightarrow> hash \<times> hash \<Rightarrow> u64 \<Rightarrow> pool_chain \<Rightarrow> bytes \<Rightarrow> nat \<Rightarrow> bytes option \<Rightarrow> template_options \<Rightarrow>
   transaction_pool \<Rightarrow> context_cache \<Rightarrow> (template_error stop + block_template_result) \<times> transaction_pool \<times> context_cache" where
  "build_template_cached c D generated system_now chain wallet_address reserve_size extra_nonce options p held =
     (case cached_context chain held of
        (Inl e, held) \<Rightarrow> (Inl (map_stop ContextFailed e), p, held)
      | (Inr ctx, held) \<Rightarrow>
          (case fill_block_template c chain ctx p of
             (sel, p) \<Rightarrow>
               (build_template_from_context c D generated system_now ctx sel wallet_address reserve_size extra_nonce options, p, held)))"

section \<open>Submission\<close>

datatype submit_status =
    SubmitAdded add_outcome
  | SubmitAlreadyExists
  | SubmitDeserializationFailed
  | TransactionAbsentInPool hash
  | NotAccepted rule

fun submit_is_ok :: "submit_status \<Rightarrow> bool" where
  "submit_is_ok (SubmitAdded _) = True"
| "submit_is_ok SubmitAlreadyExists = True"
| "submit_is_ok _ = False"

fun should_relay :: "submit_status \<Rightarrow> bool" where
  "should_relay (SubmitAdded outcome) = (ao_status outcome = Main \<or> ao_status outcome = AlternativeAndSwitched)"
| "should_relay _ = False"

fun refused_status :: "chain_error \<Rightarrow> submit_status" where
  "refused_status (Rule AlreadyExists) = SubmitAlreadyExists"
| "refused_status (Rule (rule.DeserializationFailed _)) = SubmitDeserializationFailed"
| "refused_status (Rule rl) = NotAccepted rl"
| "refused_status _ = NotAccepted (rule.DeserializationFailed ''chain state fault'')"

text \<open>\<open>None\<close> is a panic inside the chain.\<close>

definition submit_block_update ::
  "primitives \<Rightarrow> bytes \<Rightarrow> transaction_pool \<Rightarrow> chain_state \<Rightarrow>
   (submit_status \<times> chain_update option) option \<times> transaction_pool \<times> chain_state" where
  "submit_block_update P block_blob pool st =
     (case block_from_bytes block_blob of
        Inl _ \<Rightarrow> (Some (SubmitDeserializationFailed, None), pool, st)
      | Inr block \<Rightarrow>
          (case traverse (\<lambda>h. case pool_get pool h of Some e \<Rightarrow> Inr (pe_blob e) | None \<Rightarrow> Inl h) (bt_transaction_hashes block) of
             Inl h \<Rightarrow> (Some (TransactionAbsentInPool h, None), pool, st)
           | Inr tx_blobs \<Rightarrow>
               (case add_block_with_pool P block_blob tx_blobs pool st of
                  (Inr update, pool, st) \<Rightarrow> (Some (SubmitAdded (cu_outcome update), Some update), pool, st)
                | (Inl (Error e), pool, st) \<Rightarrow> (Some (refused_status e, None), pool, st)
                | (Inl Panic, pool, st) \<Rightarrow> (None, pool, st))))"

definition submit_block ::
  "primitives \<Rightarrow> bytes \<Rightarrow> transaction_pool \<Rightarrow> chain_state \<Rightarrow> submit_status option \<times> transaction_pool \<times> chain_state" where
  "submit_block P block_blob pool st =
     (case submit_block_update P block_blob pool st of (r, pool, st) \<Rightarrow> (map_option fst r, pool, st))"

end
