(* ===== verification/Pool_Ok.thy ===== *)
theory Pool_Ok
  imports Pool Complex_Main "HOL-Library.Multiset"
begin

text \<open>
  The consistency of the pool. The order of its priority keys is a total order, the ordered set keeps it, and the
  entries, the hash index, the priority order, the key images, the payment ids and the counters agree: this is
  \<open>pool_ok\<close>, with one lemma per part for removal and for insertion. Eviction ends at its target.
\<close>

section \<open>The priority order is a total order\<close>

text \<open>
  \<open>prefers\<close> compares lexicographically, the fee per byte as a fraction first. Of entries with at least one byte the order
  of their keys is the ascending order of this tuple.
\<close>

definition rank :: "tx_priority \<Rightarrow> rat \<times> int \<times> int \<times> nat \<times> u64" where
  "rank a =
     (- (of_nat (unat (pri_fee a)) / of_nat (pri_size a)), - uint (pri_amount a), - uint (pri_in_out_ratio a),
      pri_size a, pri_receive_time a)"

lemma cross_less:
  assumes "0 < m" "0 < n"
  shows "(a * n < b * m) = ((of_nat a / of_nat m :: rat) < of_nat b / of_nat n)"
    "(a * n = b * m) = ((of_nat a / of_nat m :: rat) = of_nat b / of_nat n)"
proof -
  have "((of_nat a / of_nat m :: rat) < of_nat b / of_nat n) = ((of_nat (a * n) :: rat) < of_nat (b * m))"
    using assms by (simp add: field_simps)
  then show "(a * n < b * m) = ((of_nat a / of_nat m :: rat) < of_nat b / of_nat n)" by (simp only: of_nat_less_iff)
  have "((of_nat a / of_nat m :: rat) = of_nat b / of_nat n) = ((of_nat (a * n) :: rat) = of_nat (b * m))"
    using assms by (simp add: field_simps)
  then show "(a * n = b * m) = ((of_nat a / of_nat m :: rat) = of_nat b / of_nat n)" by (simp only: of_nat_eq_iff)
qed

lemma prefers_rank:
  assumes "0 < pri_size a" "0 < pri_size b"
  shows "prefers a b \<longleftrightarrow> rank a < rank b"
proof -
  note less = cross_less(1) [OF assms, of "unat (pri_fee a)" "unat (pri_fee b)"]
  note more = cross_less(1) [OF assms(2,1), of "unat (pri_fee b)" "unat (pri_fee a)"]
  note eq = cross_less(2) [OF assms, of "unat (pri_fee a)" "unat (pri_fee b)"]
  consider "unat (pri_fee b) * pri_size a < unat (pri_fee a) * pri_size b" |
      "unat (pri_fee a) * pri_size b < unat (pri_fee b) * pri_size a" |
      "unat (pri_fee a) * pri_size b = unat (pri_fee b) * pri_size a" by linarith
  then show ?thesis
  proof cases
    case 1
    then show ?thesis using more by (simp add: prefers_def rank_def)
  next
    case 2
    then show ?thesis using less by (simp add: prefers_def rank_def)
  next
    case 3
    then show ?thesis using eq by (auto simp: prefers_def rank_def word_less_def word_uint_eq_iff)
  qed
qed

definition key_pos :: "priority_key \<Rightarrow> (rat \<times> int \<times> int \<times> nat \<times> u64) \<times> u64" where
  "key_pos k = (rank (key_priority k), key_seq k)"

definition sized :: "priority_key \<Rightarrow> bool" where
  "sized k \<longleftrightarrow> 0 < pri_size (key_priority k)"

lemma key_cmp_pos:
  assumes "sized a" "sized b"
  shows "key_cmp a b = (if key_pos a < key_pos b then Less else if key_pos a = key_pos b then Equal else Greater)"
  using assms by (auto simp: key_cmp_def key_pos_def sized_def prefers_rank not_less order.antisym)

text \<open>The list of an ordered set, and what inserting and removing do to it.\<close>

definition in_order :: "priority_key list \<Rightarrow> bool" where
  "in_order ks \<longleftrightarrow> sorted_wrt (\<lambda>a b. key_pos a < key_pos b) ks \<and> list_all sized ks"

lemma set_insert_in_order:
  assumes "in_order ks" "sized k" "key_pos k \<notin> key_pos ` set ks"
  shows "in_order (set_insert k ks)" "mset (set_insert k ks) = add_mset k (mset ks)"
proof -
  have "in_order (set_insert k ks) \<and> mset (set_insert k ks) = add_mset k (mset ks)"
    using assms
  proof (induction ks)
    case (Cons x xs)
    then have IH: "in_order (set_insert k xs)" "mset (set_insert k xs) = add_mset k (mset xs)" by (auto simp: in_order_def)
    have "set (set_insert k xs) = insert k (set xs)" using IH(2) by (metis set_mset_add_mset_insert set_mset_mset)
    then show ?case using Cons.prems IH by (auto simp: in_order_def key_cmp_pos)
  qed (simp add: in_order_def)
  then show "in_order (set_insert k ks)" "mset (set_insert k ks) = add_mset k (mset ks)" by auto
qed

lemma sorted_wrt_remove1: "sorted_wrt P xs \<Longrightarrow> sorted_wrt P (remove1 x xs)"
  by (induction xs) (auto dest: notin_set_remove1 set_remove1_subset [THEN subsetD])

lemma set_remove_in_order:
  assumes "in_order ks" "k \<in> set ks"
  shows "in_order (set_remove k ks)" "mset (set_remove k ks) = mset ks - {#k#}"
proof -
  have "set_remove k ks = remove1 k ks"
    using assms
  proof (induction ks)
    case (Cons x xs)
    then show ?case by (cases "x = k") (auto simp: in_order_def key_cmp_pos list_all_iff)
  qed simp
  then show "in_order (set_remove k ks)" "mset (set_remove k ks) = mset ks - {#k#}"
    using assms(1) by (auto simp: in_order_def list_all_iff sorted_wrt_remove1 dest: notin_set_remove1)
qed

section \<open>Consistent pools\<close>

declare map_of_eq_Some_iff [simp del]

lemma alist_delete_mset:
  "distinct (map fst al) \<Longrightarrow> map_of al k = Some v \<Longrightarrow> mset al = add_mset (k, v) (mset (AList.delete k al))"
proof (induction al)
  case (Cons a al)
  have "AList.delete k al = al" if "k \<notin> fst ` set al" using that by (simp add: AList.delete_eq) (induction al, auto)
  then show ?case using Cons by (cases a) (auto split: if_splits)
qed simp

lemma alist_update_new: "k \<notin> fst ` set al \<Longrightarrow> AList.update k v al = al @ [(k, v)]"
  by (induction al) auto

lemma fold_update_map_of:
  "map_of (fold (\<lambda>k m. AList.update k v m) ks m) = (\<lambda>k. if k \<in> set ks then Some v else map_of m k)"
  by (induction ks arbitrary: m) (auto simp: update_conv' fun_eq_iff)

definition pooled :: "transaction_pool \<Rightarrow> pool_entry set" where
  "pooled p = snd ` set (entries p)"

definition images_of :: "pool_entry \<Rightarrow> hash set" where
  "images_of e = set (key_images_of (inputs (prefix (pe_transaction e))))"

definition key_of :: "u64 \<times> pool_entry \<Rightarrow> priority_key" where
  "key_of x = \<lparr>key_priority = priority_of (snd x), key_seq = fst x\<rparr>"

text \<open>Every entry has a sequence number below the next one and at least a byte; the hash index names it.\<close>

definition entries_ok :: "transaction_pool \<Rightarrow> bool" where
  "entries_ok p \<longleftrightarrow>
     distinct (map fst (entries p)) \<and> list_all (\<lambda>(s, e). s < next_seq p \<and> pe_blob e \<noteq> []) (entries p) \<and>
     (\<forall>h s. map_of (by_hash p) h = Some s \<longleftrightarrow> (\<exists>e. map_of (entries p) s = Some e \<and> pe_hash e = h))"

definition order_ok :: "transaction_pool \<Rightarrow> bool" where
  "order_ok p \<longleftrightarrow> in_order (priority p) \<and> mset (priority p) = mset (map key_of (entries p))"

text \<open>A key image is filed under the one pooled transaction that spends it, a payment id under the ones that carry it.\<close>

definition images_ok :: "transaction_pool \<Rightarrow> bool" where
  "images_ok p \<longleftrightarrow>
     (\<forall>ki h. map_of (pool_key_images p) ki = Some h \<longleftrightarrow> (\<exists>e \<in> pooled p. pe_hash e = h \<and> ki \<in> images_of e))"

definition ids_ok :: "transaction_pool \<Rightarrow> bool" where
  "ids_ok p \<longleftrightarrow>
     (\<forall>pid h. h \<in> set (hashes_by_payment_id p pid) \<longleftrightarrow> (\<exists>e \<in> pooled p. pe_hash e = h \<and> pe_payment_id e = Some pid))"

definition counts_ok :: "transaction_pool \<Rightarrow> bool" where
  "counts_ok p \<longleftrightarrow>
     unat (size_bytes p) = (\<Sum>x\<leftarrow>entries p. pe_size (snd x)) \<and>
     fee_less p = length (filter (\<lambda>x. pe_fee (snd x) = 0) (entries p))"

definition pool_ok :: "transaction_pool \<Rightarrow> bool" where
  "pool_ok p \<longleftrightarrow> entries_ok p \<and> order_ok p \<and> images_ok p \<and> ids_ok p \<and> counts_ok p"

lemma pool_new_ok: "pool_ok (pool_new cf now)"
  by (simp add: pool_ok_def pool_new_def entries_ok_def order_ok_def images_ok_def ids_ok_def counts_ok_def in_order_def
      pooled_def hashes_by_payment_id_def)

lemma pooled_iff: "entries_ok p \<Longrightarrow> e \<in> pooled p \<longleftrightarrow> (\<exists>s. map_of (entries p) s = Some e)"
  unfolding pooled_def entries_ok_def by (auto simp: map_of_eq_Some_iff image_iff Bex_def)

text \<open>No two pooled transactions have the same hash.\<close>

lemma pooled_hash:
  assumes "entries_ok p" "map_of (entries p) s = Some e" "map_of (entries p) t = Some f" "pe_hash e = pe_hash f"
  shows "s = t"
proof -
  have "map_of (by_hash p) (pe_hash e) = Some s" "map_of (by_hash p) (pe_hash f) = Some t"
    using assms by (auto simp: entries_ok_def)
  then show ?thesis using assms(4) by simp
qed

lemma pooled_unique:
  assumes "entries_ok p" "x \<in> pooled p" "y \<in> pooled p" "pe_hash x = pe_hash y"
  shows "x = y"
proof -
  obtain s t where st: "map_of (entries p) s = Some x" "map_of (entries p) t = Some y"
    using assms(2,3) pooled_iff [OF assms(1)] by blast
  from pooled_hash [OF assms(1) st assms(4)] show ?thesis using st by simp
qed

lemma by_hash_Some:
  "entries_ok p \<Longrightarrow> map_of (by_hash p) h = Some s \<longleftrightarrow> (\<exists>e. map_of (entries p) s = Some e \<and> pe_hash e = h)"
  by (simp add: entries_ok_def)

lemma pool_get_Some:
  assumes "entries_ok p"
  shows "pool_get p h = Some e \<longleftrightarrow> e \<in> pooled p \<and> pe_hash e = h"
proof -
  have "pool_get p h = Some e \<longleftrightarrow> (\<exists>s. map_of (entries p) s = Some e \<and> pe_hash e = h)"
    using by_hash_Some [OF assms] by (auto simp: pool_get_def bind_eq_Some_conv)
  then show ?thesis using pooled_iff [OF assms] by auto
qed

lemma pool_contains_iff:
  assumes "entries_ok p"
  shows "pool_contains p h \<longleftrightarrow> (\<exists>e \<in> pooled p. pe_hash e = h)"
  using by_hash_Some [OF assms] pooled_iff [OF assms] unfolding pool_contains_def by fastforce

section \<open>Removal\<close>

lemma release_images_map:
  "map_of (release_images h ins m) ki =
     (if ki \<in> set (key_images_of ins) \<and> map_of m ki = Some h then None else map_of m ki)"
  by (induction h ins m rule: release_images.induct) (auto simp: delete_conv')

lemma release_payment_id_ids:
  "(case map_of (release_payment_id h pid m) k of Some hs \<Rightarrow> hs | None \<Rightarrow> []) =
     (if k = pid then filter (\<lambda>x. x \<noteq> h) (case map_of m pid of Some hs \<Rightarrow> hs | None \<Rightarrow> [])
      else (case map_of m k of Some hs \<Rightarrow> hs | None \<Rightarrow> []))"
  by (auto simp: release_payment_id_def Let_def delete_conv' update_conv' split: option.splits)

lemma delete_set_subset: "set (AList.delete k al) \<subseteq> set al"
  by (auto simp: AList.delete_eq)

text \<open>What removal does to the entries of a consistent pool.\<close>

lemma pool_remove_entries:
  assumes "entries_ok p" "map_of (by_hash p) h = Some s" "map_of (entries p) s = Some e"
  shows "mset (entries p) = add_mset (s, e) (mset (AList.delete s (entries p)))"
    "pooled (p\<lparr>entries := AList.delete s (entries p)\<rparr>) = {x \<in> pooled p. pe_hash x \<noteq> h}"
proof -
  have d: "distinct (map fst (entries p))" using assms(1) by (simp add: entries_ok_def)
  show "mset (entries p) = add_mset (s, e) (mset (AList.delete s (entries p)))"
    by (rule alist_delete_mset [OF d assms(3)])
  have h: "pe_hash e = h" using assms by (auto simp: by_hash_Some)
  have "entries_ok p \<Longrightarrow> (t, x) \<in> set (entries p) \<Longrightarrow> pe_hash x = h \<longleftrightarrow> t = s" for t x
    using pooled_hash [OF assms(1) _ assms(3)] h d assms(3) by (metis map_of_eq_Some_iff option.inject)
  then show "pooled (p\<lparr>entries := AList.delete s (entries p)\<rparr>) = {x \<in> pooled p. pe_hash x \<noteq> h}"
    using assms(1) by (force simp: pooled_def AList.delete_eq)
qed

lemma pool_remove_absent: "entries_ok p \<Longrightarrow> \<not> pool_contains p h \<Longrightarrow> pool_remove h p = (False, p)"
  by (simp add: pool_remove_def pool_contains_def)

definition without :: "u64 \<Rightarrow> pool_entry \<Rightarrow> transaction_pool \<Rightarrow> transaction_pool" where
  "without s e p = p\<lparr>
     by_hash := AList.delete (pe_hash e) (by_hash p),
     entries := AList.delete s (entries p),
     priority := set_remove (key_of (s, e)) (priority p),
     fee_less := fee_less p - (if pe_fee e = 0 then 1 else 0),
     pool_key_images := release_images (pe_hash e) (inputs (prefix (pe_transaction e))) (pool_key_images p),
     by_payment_id :=
       (case pe_payment_id e of Some pid \<Rightarrow> release_payment_id (pe_hash e) pid (by_payment_id p) | None \<Rightarrow> by_payment_id p),
     size_bytes := saturating_sub (size_bytes p) (of_nat (pe_size e))\<rparr>"

lemma pool_remove_present:
  assumes "entries_ok p" "pool_contains p h"
  obtains s e where "map_of (by_hash p) h = Some s" "map_of (entries p) s = Some e" "pe_hash e = h"
    "pool_remove h p = (True, without s e p)"
proof -
  obtain s e where "map_of (by_hash p) h = Some s" "map_of (entries p) s = Some e" "pe_hash e = h"
    using assms by (auto simp: pool_contains_def by_hash_Some)
  then show thesis by (intro that) (auto simp: pool_remove_def without_def key_of_def Let_def split: option.splits)
qed

lemma entries_ok_without:
  assumes "entries_ok p" "map_of (by_hash p) h = Some s" "map_of (entries p) s = Some e"
  shows "entries_ok (without s e p)" "pooled (without s e p) = {x \<in> pooled p. pe_hash x \<noteq> h}"
proof -
  have h: "pe_hash e = h" using assms by (auto simp: by_hash_Some)
  have d: "distinct (map fst (entries p))" "list_all (\<lambda>(s, e). s < next_seq p \<and> pe_blob e \<noteq> []) (entries p)"
    using assms(1) by (simp_all add: entries_ok_def)
  have "(map_of (AList.delete h (by_hash p)) k = Some t) = (\<exists>x. map_of (AList.delete s (entries p)) t = Some x \<and> pe_hash x = k)" for k t
  proof (cases "k = h")
    case True
    then show ?thesis using pooled_hash [OF assms(1) _ assms(3)] h by (simp add: delete_conv') metis
  next
    case False
    then have "map_of (AList.delete h (by_hash p)) k = map_of (by_hash p) k" by (simp add: delete_conv')
    then show ?thesis using by_hash_Some [OF assms(1), of k t] assms(3) h False by (simp add: delete_conv')
  qed
  moreover have "distinct (map fst (AList.delete s (entries p)))" by (rule distinct_delete [OF d(1)])
  moreover have "list_all (\<lambda>(s, e). s < next_seq p \<and> pe_blob e \<noteq> []) (AList.delete s (entries p))"
    using d(2) delete_set_subset unfolding list_all_iff by fast
  ultimately show "entries_ok (without s e p)" by (simp add: entries_ok_def without_def h)
  show "pooled (without s e p) = {x \<in> pooled p. pe_hash x \<noteq> h}"
    using pool_remove_entries(2) [OF assms] by (simp add: pooled_def without_def)
qed

lemma order_ok_without:
  assumes "entries_ok p" "order_ok p" "map_of (entries p) s = Some e"
  shows "order_ok (without s e p)"
proof -
  have m: "mset (entries p) = add_mset (s, e) (mset (AList.delete s (entries p)))"
    using assms by (intro alist_delete_mset) (auto simp: entries_ok_def)
  have p: "in_order (priority p)" "mset (priority p) = image_mset key_of (mset (entries p))"
    using assms(2) by (simp_all add: order_ok_def)
  then have "key_of (s, e) \<in> set (priority p)" using m by (metis insert_iff set_mset_add_mset_insert set_mset_mset image_mset_add_mset)
  from set_remove_in_order [OF p(1) this] show ?thesis
    using p(2) m by (simp add: order_ok_def without_def)
qed

lemma images_ok_without:
  assumes "entries_ok p" "images_ok p" "map_of (by_hash p) h = Some s" "map_of (entries p) s = Some e"
  shows "images_ok (without s e p)"
proof -
  have h: "pe_hash e = h" using assms by (auto simp: by_hash_Some)
  note filed = assms(2) [unfolded images_ok_def, rule_format]
  have one: "pe_hash x = pe_hash y" if "x \<in> pooled p" "y \<in> pooled p" "ki \<in> images_of x" "ki \<in> images_of y" for x y ki
    using filed [of ki "pe_hash x"] filed [of ki "pe_hash y"] that by auto
  have own: "x = e" if "x \<in> pooled p" "pe_hash x = h" for x
    by (rule pooled_unique [OF assms(1) that(1)]) (use that(2) h assms(4) in \<open>auto simp: pooled_iff [OF assms(1)]\<close>)
  show ?thesis
    unfolding images_ok_def entries_ok_without(2) [OF assms(1,3,4)]
    by (auto simp: without_def release_images_map h filed images_of_def [symmetric] dest: one own)
qed

lemma ids_ok_without:
  assumes "entries_ok p" "ids_ok p" "map_of (by_hash p) h = Some s" "map_of (entries p) s = Some e"
  shows "ids_ok (without s e p)"
proof -
  have h: "pe_hash e = h" using assms by (auto simp: by_hash_Some)
  have ids: "k \<in> set (hashes_by_payment_id p pid) \<longleftrightarrow> (\<exists>x \<in> pooled p. pe_hash x = k \<and> pe_payment_id x = Some pid)" for pid k
    using assms(2) by (simp add: ids_ok_def)
  have e: "x = e" if "x \<in> pooled p" "pe_hash x = h" for x
    by (rule pooled_unique [OF assms(1) that(1)]) (use that(2) h assms(4) in \<open>auto simp: pooled_iff [OF assms(1)]\<close>)
  have "hashes_by_payment_id (without s e p) pid =
      (if pe_payment_id e = Some pid then filter (\<lambda>x. x \<noteq> h) (hashes_by_payment_id p pid) else hashes_by_payment_id p pid)" for pid
    by (cases "pe_payment_id e") (simp_all add: hashes_by_payment_id_def without_def release_payment_id_ids h)
  then show ?thesis
    unfolding ids_ok_def entries_ok_without(2) [OF assms(1,3,4)] using ids e by auto
qed

lemma counts_ok_without:
  assumes "entries_ok p" "counts_ok p" "map_of (entries p) s = Some e"
  shows "counts_ok (without s e p)" "unat (size_bytes (without s e p)) + pe_size e = unat (size_bytes p)"
proof -
  have m: "mset (entries p) = add_mset (s, e) (mset (AList.delete s (entries p)))"
    using assms by (intro alist_delete_mset) (auto simp: entries_ok_def)
  have sum: "(\<Sum>x\<leftarrow>entries p. f x) = f (s, e) + (\<Sum>x\<leftarrow>AList.delete s (entries p). f x)" for f :: "u64 \<times> pool_entry \<Rightarrow> nat"
    using m by (simp flip: sum_mset_sum_list)
  have len: "length (filter P (entries p)) = (if P (s, e) then 1 else 0) + length (filter P (AList.delete s (entries p)))" for P
    using arg_cong [OF m, of "\<lambda>M. size (filter_mset P M)"] by (simp del: size_mset add: size_mset [symmetric] mset_filter)
  have size: "unat (size_bytes p) = pe_size e + (\<Sum>x\<leftarrow>AList.delete s (entries p). pe_size (snd x))"
    using assms(2) sum [of "\<lambda>x. pe_size (snd x)"] by (simp add: counts_ok_def)
  then have "pe_size e \<le> unat (size_bytes p)" by simp
  moreover from this have "unat (of_nat (pe_size e) :: u64) = pe_size e"
    by (intro unat_of_nat_less) (rule le_less_trans, assumption, rule unsigned_less)
  ultimately have "unat (size_bytes (without s e p)) = unat (size_bytes p) - pe_size e"
    by (simp add: without_def saturating_sub_def unat_sub word_le_nat_alt)
  then show "counts_ok (without s e p)" "unat (size_bytes (without s e p)) + pe_size e = unat (size_bytes p)"
    using size assms(2) len [of "\<lambda>x. pe_fee (snd x) = 0"] by (auto simp: counts_ok_def without_def)
qed

lemma pool_remove_ok:
  assumes ok: "pool_ok p"
  shows "pool_ok (snd (pool_remove h p))" "pooled (snd (pool_remove h p)) = {x \<in> pooled p. pe_hash x \<noteq> h}"
    "size_bytes (snd (pool_remove h p)) \<le> size_bytes p"
    "fst (pool_remove h p) = pool_contains p h"
proof -
  note parts = ok [unfolded pool_ok_def]
  have "pool_ok (snd (pool_remove h p)) \<and> pooled (snd (pool_remove h p)) = {x \<in> pooled p. pe_hash x \<noteq> h} \<and>
    size_bytes (snd (pool_remove h p)) \<le> size_bytes p \<and> fst (pool_remove h p) = pool_contains p h"
  proof (cases "pool_contains p h")
    case True
    obtain s e where e: "map_of (by_hash p) h = Some s" "map_of (entries p) s = Some e"
        "pool_remove h p = (True, without s e p)"
      using pool_remove_present [OF conjunct1 [OF parts] True] by metis
    then show ?thesis
      using parts True entries_ok_without [OF _ e(1,2)] order_ok_without [OF _ _ e(2)] images_ok_without [OF _ _ e(1,2)]
        ids_ok_without [OF _ _ e(1,2)] counts_ok_without [OF _ _ e(2)]
      by (auto simp: pool_ok_def word_le_nat_alt)
  next
    case False
    then show ?thesis using ok parts by (auto simp: pool_remove_absent pool_contains_iff)
  qed
  then show "pool_ok (snd (pool_remove h p))" "pooled (snd (pool_remove h p)) = {x \<in> pooled p. pe_hash x \<noteq> h}"
    "size_bytes (snd (pool_remove h p)) \<le> size_bytes p" "fst (pool_remove h p) = pool_contains p h" by auto
qed

section \<open>Insertion\<close>

lemma pool_insert_entries:
  assumes "entries_ok p"
  shows "entries (pool_insert e images p) = entries p @ [(next_seq p, e)]" "pooled (pool_insert e images p) = insert e (pooled p)"
    "map_of (entries p) (next_seq p) = None"
proof -
  have "next_seq p \<notin> fst ` set (entries p)" using assms by (auto simp: entries_ok_def list_all_iff)
  then show "entries (pool_insert e images p) = entries p @ [(next_seq p, e)]" "map_of (entries p) (next_seq p) = None"
    by (simp_all add: pool_insert_def Let_def alist_update_new map_of_eq_None_iff)
  then show "pooled (pool_insert e images p) = insert e (pooled p)" by (simp add: pooled_def)
qed

lemma entries_ok_insert:
  assumes "entries_ok p" "\<not> pool_contains p (pe_hash e)" "pe_blob e \<noteq> []" "unat (next_seq p) + 1 < 2 ^ 64"
  shows "entries_ok (pool_insert e images p)"
proof -
  let ?q = "pool_insert e images p"
  note new = pool_insert_entries(1,2) [OF assms(1), where e = e and images = images] pool_insert_entries(3) [OF assms(1)]
  have d: "distinct (map fst (entries p))" "list_all (\<lambda>(s, e). s < next_seq p \<and> pe_blob e \<noteq> []) (entries p)"
    using assms(1) by (simp_all add: entries_ok_def)
  have less: "x < next_seq p + 1" if "x \<le> next_seq p" for x
    using that assms(4) by (simp add: word_less_nat_alt word_le_nat_alt unat_add_small)
  have "map_of (by_hash ?q) h = Some s \<longleftrightarrow> (\<exists>x. map_of (entries ?q) s = Some x \<and> pe_hash x = h)" for h s
  proof (cases "s = next_seq p")
    case True
    then show ?thesis using by_hash_Some [OF assms(1), of h s] new(3)
      by (auto simp: new(1) map_add_Some_iff) (auto simp: pool_insert_def Let_def update_conv' split: if_splits)
  next
    case False
    have "map_of (by_hash p) (pe_hash e) = None" using assms(2) by (simp add: pool_contains_def)
    then show ?thesis using by_hash_Some [OF assms(1), of h s] False
      by (auto simp: new(1) map_add_Some_iff) (auto simp: pool_insert_def Let_def update_conv' split: if_splits)
  qed
  moreover have "distinct (map fst (entries ?q))" using d(1) new(3) by (auto simp: new(1) map_of_eq_None_iff)
  moreover have "list_all (\<lambda>(s, e). s < next_seq p + 1 \<and> pe_blob e \<noteq> []) (entries ?q)"
    using d(2) assms(3) less by (auto simp: new(1) list_all_iff)
  ultimately show ?thesis by (simp add: entries_ok_def) (simp add: pool_insert_def Let_def)
qed

lemma order_ok_insert:
  assumes "entries_ok p" "order_ok p" "pe_blob e \<noteq> []"
  shows "order_ok (pool_insert e images p)"
proof -
  have p: "in_order (priority p)" "mset (priority p) = mset (map key_of (entries p))"
    using assms(2) by (simp_all add: order_ok_def)
  have "key_seq ` set (priority p) = fst ` set (entries p)"
    using arg_cong [OF p(2), of set_mset] by (force simp: key_of_def)
  then have fresh: "key_pos (key_of (next_seq p, e)) \<notin> key_pos ` set (priority p)"
    using pool_insert_entries(3) [OF assms(1)] by (force simp: key_pos_def key_of_def map_of_eq_None_iff)
  have "sized (key_of (next_seq p, e))" using assms(3) by (simp add: sized_def key_of_def priority_of_def Let_def)
  from set_insert_in_order [OF p(1) this fresh] show ?thesis
    using p(2) by (simp add: order_ok_def pool_insert_entries(1) [OF assms(1)])
      (simp add: pool_insert_def Let_def key_of_def)
qed

lemma images_ok_insert:
  assumes "entries_ok p" "images_ok p" "images = images_of e" "finite images"
    "\<forall>ki \<in> images. map_of (pool_key_images p) ki = None"
  shows "images_ok (pool_insert e images p)"
proof -
  note filed = assms(2) [unfolded images_ok_def, rule_format]
  have "map_of (pool_key_images (pool_insert e images p)) ki =
      (if ki \<in> images then Some (pe_hash e) else map_of (pool_key_images p) ki)" for ki
    using assms(4) by (simp add: pool_insert_def Let_def fold_update_map_of)
  then show ?thesis
    using filed assms(3,5) unfolding images_ok_def pool_insert_entries(2) [OF assms(1)] by (auto; metis option.distinct(1))
qed

lemma ids_ok_insert:
  assumes "entries_ok p" "ids_ok p"
  shows "ids_ok (pool_insert e images p)"
proof -
  note filed = assms(2) [unfolded ids_ok_def, rule_format]
  have "hashes_by_payment_id (pool_insert e images p) pid =
      hashes_by_payment_id p pid @ (if pe_payment_id e = Some pid then [pe_hash e] else [])" for pid
    by (auto simp: hashes_by_payment_id_def pool_insert_def Let_def update_conv' split: option.splits)
  then show ?thesis
    using filed unfolding ids_ok_def pool_insert_entries(2) [OF assms(1)] by auto
qed

lemma counts_ok_insert:
  assumes "entries_ok p" "counts_ok p" "unat (size_bytes p) + pe_size e < 2 ^ 64"
  shows "counts_ok (pool_insert e images p)" "unat (size_bytes (pool_insert e images p)) = unat (size_bytes p) + pe_size e"
proof -
  have "unat (of_nat (pe_size e) :: u64) = pe_size e" using assms(3) by (intro unat_of_nat_less) simp
  then show size: "unat (size_bytes (pool_insert e images p)) = unat (size_bytes p) + pe_size e"
    using assms(3) by (simp add: pool_insert_def Let_def unat_add_small)
  have "fee_less (pool_insert e images p) = fee_less p + (if pe_fee e = 0 then 1 else 0)"
    by (simp add: pool_insert_def Let_def)
  then show "counts_ok (pool_insert e images p)"
    using assms(2) size by (simp add: counts_ok_def pool_insert_entries(1) [OF assms(1)])
qed

lemma pool_insert_ok:
  assumes "pool_ok p" "\<not> pool_contains p (pe_hash e)" "pe_blob e \<noteq> []" "images = images_of e"
    "\<forall>ki \<in> images. map_of (pool_key_images p) ki = None" "unat (next_seq p) + 1 < 2 ^ 64"
    "unat (size_bytes p) + pe_size e < 2 ^ 64"
  shows "pool_ok (pool_insert e images p)"
  using assms entries_ok_insert order_ok_insert images_ok_insert ids_ok_insert counts_ok_insert
  by (simp add: pool_ok_def images_of_def)

section \<open>Every operation keeps the pool consistent\<close>

definition same_rest :: "transaction_pool \<Rightarrow> transaction_pool \<Rightarrow> bool" where
  "same_rest p q \<longleftrightarrow> pool_cfg q = pool_cfg p \<and> next_seq q = next_seq p \<and> pool_now q = pool_now p"

lemma same_rest_refl [simp]: "same_rest p p"
  by (simp add: same_rest_def)

lemma same_rest_trans: "same_rest p q \<Longrightarrow> same_rest q r \<Longrightarrow> same_rest p r"
  by (simp add: same_rest_def)

lemma pool_remove_rest: "same_rest p (snd (pool_remove h p))"
  by (simp add: pool_remove_def same_rest_def Let_def split: option.splits)

text \<open>A smaller pool with the same settings.\<close>

definition shrunk :: "transaction_pool \<Rightarrow> transaction_pool \<Rightarrow> bool" where
  "shrunk p q \<longleftrightarrow> pool_ok q \<and> pooled q \<subseteq> pooled p \<and> size_bytes q \<le> size_bytes p \<and> same_rest p q"

lemma shrunk_refl: "pool_ok p \<Longrightarrow> shrunk p p"
  by (simp add: shrunk_def)

lemma shrunk_trans: "shrunk p q \<Longrightarrow> shrunk q r \<Longrightarrow> shrunk p r"
  unfolding shrunk_def by (meson order_trans same_rest_trans)

lemma shrunk_remove: "pool_ok p \<Longrightarrow> shrunk p (snd (pool_remove h p))"
  using pool_remove_ok pool_remove_rest by (auto simp: shrunk_def)

lemma remove_all_ok:
  assumes "pool_ok p"
  shows "shrunk p (remove_all hs p)" "pooled (remove_all hs p) = {e \<in> pooled p. pe_hash e \<notin> set hs}"
proof -
  have "shrunk p (remove_all hs p) \<and> pooled (remove_all hs p) = {e \<in> pooled p. pe_hash e \<notin> set hs}"
    using assms
  proof (induction hs arbitrary: p)
    case (Cons h hs)
    let ?q = "snd (pool_remove h p)"
    have q: "shrunk p ?q" by (rule shrunk_remove [OF Cons.prems])
    then have "shrunk ?q (remove_all hs ?q)" "pooled (remove_all hs ?q) = {e \<in> pooled ?q. pe_hash e \<notin> set hs}"
      using Cons.IH by (simp_all add: shrunk_def [of p])
    moreover have "remove_all (h # hs) p = remove_all hs ?q" by (simp add: remove_all_def)
    ultimately show ?case using shrunk_trans [OF q] pool_remove_ok(2) [OF Cons.prems, of h] by auto
  qed (simp add: remove_all_def shrunk_refl)
  then show "shrunk p (remove_all hs p)" "pooled (remove_all hs p) = {e \<in> pooled p. pe_hash e \<notin> set hs}" by auto
qed

lemma priority_length: "order_ok p \<Longrightarrow> length (priority p) = length (entries p)"
  by (metis length_map order_ok_def size_mset)

lemma pool_remove_length:
  assumes "pool_ok p" "pool_contains p h"
  shows "Suc (length (priority (snd (pool_remove h p)))) = length (priority p)"
proof -
  have ok: "entries_ok p" "order_ok p" using assms(1) by (simp_all add: pool_ok_def)
  obtain s e where e: "map_of (by_hash p) h = Some s" "map_of (entries p) s = Some e" "pool_remove h p = (True, without s e p)"
    using pool_remove_present [OF ok(1) assms(2)] by metis
  have "order_ok (without s e p)" by (rule order_ok_without [OF ok e(2)])
  moreover have "length (entries p) = Suc (length (entries (without s e p)))"
    using arg_cong [OF pool_remove_entries(1) [OF ok(1) e(1,2)], of size] by (simp add: without_def)
  ultimately show ?thesis using e(3) ok(2) by (simp add: priority_length)
qed

lemma last_key:
  assumes "pool_ok p" "priority p \<noteq> []"
  shows "\<exists>e \<in> pooled p. map_of (entries p) (key_seq (last (priority p))) = Some e \<and> key_priority (last (priority p)) = priority_of e"
proof -
  have ok: "entries_ok p" "order_ok p" using assms(1) by (simp_all add: pool_ok_def)
  have "last (priority p) \<in> set (priority p)" using assms(2) by simp
  then obtain s e where "(s, e) \<in> set (entries p)" "last (priority p) = key_of (s, e)"
    using ok(2) by (metis (no_types, lifting) imageE list.set_map order_ok_def set_mset_mset surj_pair)
  moreover from this(1) have "map_of (entries p) s = Some e" using ok(1) by (simp add: entries_ok_def map_of_eq_Some_iff)
  ultimately show ?thesis using pooled_iff [OF ok(1)] by (auto simp: key_of_def)
qed

lemma size_empty: "pool_ok p \<Longrightarrow> priority p = [] \<Longrightarrow> size_bytes p = 0"
  using priority_length [of p] by (auto simp: pool_ok_def counts_ok_def unat_eq_0)

text \<open>The loop of the eviction ends with the pool at its target.\<close>

lemma evict_loop_ends:
  assumes "pool_ok p" "length (priority p) \<le> n"
  shows "shrunk p (snd (evict_loop n target p))" "size_bytes (snd (evict_loop n target p)) \<le> target"
    "length (priority p) \<le> m \<Longrightarrow> evict_loop m target p = evict_loop n target p"
proof -
  have "shrunk p (snd (evict_loop n target p)) \<and> size_bytes (snd (evict_loop n target p)) \<le> target \<and>
      (\<forall>m. length (priority p) \<le> m \<longrightarrow> evict_loop m target p = evict_loop n target p)"
    using assms
  proof (induction n arbitrary: p)
    case 0
    have "size_bytes p = 0" using 0 size_empty by simp
    moreover have "evict_loop m target p = ([], p)" for m using 0 by (cases m) simp_all
    ultimately show ?case using 0 by (simp add: shrunk_refl)
  next
    case (Suc n)
    show ?case
    proof (cases "size_bytes p > target \<and> priority p \<noteq> []")
      case True
      obtain e where e: "map_of (entries p) (key_seq (last (priority p))) = Some e" "e \<in> pooled p"
        using last_key [OF Suc.prems(1)] True by blast
      let ?q = "snd (pool_remove (pe_hash e) p)"
      have "pool_contains p (pe_hash e)" using e(2) Suc.prems(1) by (auto simp: pool_contains_iff pool_ok_def)
      from pool_remove_length [OF Suc.prems(1) this] have len: "Suc (length (priority ?q)) = length (priority p)" .
      have q: "shrunk p ?q" by (rule shrunk_remove [OF Suc.prems(1)])
      then have "pool_ok ?q" by (simp add: shrunk_def)
      moreover have "length (priority ?q) \<le> n" using len Suc.prems(2) by simp
      ultimately have IH: "shrunk ?q (snd (evict_loop n target ?q))" "size_bytes (snd (evict_loop n target ?q)) \<le> target"
          "\<And>m. length (priority ?q) \<le> m \<Longrightarrow> evict_loop m target ?q = evict_loop n target ?q"
        using Suc.IH by blast+
      have step: "evict_loop (Suc m) target p = (case evict_loop m target ?q of (hs, p) \<Rightarrow> (pe_hash e # hs, p))" for m
        using True e(1) by simp
      have "evict_loop m target p = evict_loop (Suc n) target p" if "length (priority p) \<le> m" for m
      proof (cases m)
        case (Suc k)
        then have "length (priority ?q) \<le> k" using that len by simp
        then show ?thesis unfolding Suc step by (rule arg_cong [OF IH(3)])
      qed (use that len in simp)
      then show ?thesis
        unfolding step using IH(1,2) shrunk_trans [OF q] by (simp add: case_prod_unfold)
    next
      case False
      then have stop: "evict_loop m target p = ([], p)" for m by (cases m) auto
      have "size_bytes p \<le> target" if "priority p = []"
        using that Suc.prems(1) size_empty by simp
      then show ?thesis using False Suc.prems(1) by (auto simp: stop shrunk_refl)
    qed
  qed
  then show "shrunk p (snd (evict_loop n target p))" "size_bytes (snd (evict_loop n target p)) \<le> target"
    "length (priority p) \<le> m \<Longrightarrow> evict_loop m target p = evict_loop n target p" by auto
qed

definition healthy :: "transaction_pool \<Rightarrow> bool" where
  "healthy p \<longleftrightarrow> pool_ok p \<and> size_bytes p \<le> max_size_bytes (pool_cfg p) \<and> evict_to_percent (pool_cfg p) \<le> 100"

text \<open>Room for so many offers: sequence numbers are left, and no size wraps.\<close>

definition room :: "bytes list \<Rightarrow> transaction_pool \<Rightarrow> bool" where
  "room blobs p \<longleftrightarrow>
     unat (next_seq p) + length blobs < 2 ^ 64 \<and>
     list_all (\<lambda>b. unat (max_size_bytes (pool_cfg p)) + length b < 2 ^ 64) blobs"

text \<open>What is left of a pool after at most \<open>n\<close> insertions.\<close>

definition kept :: "nat \<Rightarrow> transaction_pool \<Rightarrow> transaction_pool \<Rightarrow> bool" where
  "kept n p q \<longleftrightarrow> healthy q \<and> pool_cfg q = pool_cfg p \<and> unat (next_seq q) \<le> unat (next_seq p) + n"

lemma kept_refl: "healthy p \<Longrightarrow> kept n p p"
  by (simp add: kept_def)

lemma kept_trans: "kept m p q \<Longrightarrow> kept n q r \<Longrightarrow> kept (m + n) p r"
  by (auto simp: kept_def)

lemma kept_shrunk: "healthy p \<Longrightarrow> shrunk p q \<Longrightarrow> kept n p q"
  by (auto simp: kept_def shrunk_def healthy_def same_rest_def)

lemma room_kept: "room (b # bs) p \<Longrightarrow> kept 1 p q \<Longrightarrow> room bs q"
  by (auto simp: room_def kept_def)

lemma evict_to_fit_ok:
  assumes "pool_ok p" "evict_to_percent (pool_cfg p) \<le> 100"
  shows "shrunk p (snd (evict_to_fit p))" "size_bytes (snd (evict_to_fit p)) \<le> max_size_bytes (pool_cfg p)"
proof -
  let ?max = "max_size_bytes (pool_cfg p)" and ?pct = "evict_to_percent (pool_cfg p)"
  have le: "unat ?max div 100 * unat ?pct \<le> unat ?max"
  proof -
    have "unat ?pct \<le> 100" using assms(2) by (simp add: word_le_nat_alt)
    from mult_le_mono2 [OF this, of "unat ?max div 100"] show ?thesis
      using div_times_less_eq_dividend [of "unat ?max" 100] by (rule order_trans)
  qed
  then have "unat (?max div 100 * ?pct) = unat ?max div 100 * unat ?pct"
  proof -
    have d: "unat (?max div 100) = unat ?max div 100" by (simp add: unat_div)
    have "unat (?max div 100) * unat ?pct < 2 ^ LENGTH(64)"
      unfolding d using le by (rule le_less_trans) (rule unsigned_less)
    from iffD1 [OF unat_mult_lem this] show ?thesis by (simp only: d)
  qed
  then have target: "?max div 100 * ?pct \<le> ?max" using le by (simp add: word_le_nat_alt)
  show "shrunk p (snd (evict_to_fit p))" "size_bytes (snd (evict_to_fit p)) \<le> ?max"
    using evict_loop_ends(1,2) [OF assms(1) order_refl] target shrunk_refl [OF assms(1)]
    by (auto simp: evict_to_fit_def intro: order_trans)
qed

lemma early_exit_images:
  "validate_transaction_early_exit c chain ctx tx blob st = (Inr v, st') \<Longrightarrow> st' = st \<union> set (key_images_of (inputs (prefix tx)))"
  by (auto simp: validate_transaction_early_exit_def validate_inputs_def Let_def dest!: validate_inputs_loop_accepts
      split: if_splits sum.splits prod.splits)

lemma image_conflict_None:
  "image_conflict m ins = None \<longleftrightarrow> (\<forall>ki \<in> set (key_images_of ins). map_of m ki = None)"
  by (induction m ins rule: image_conflict.induct) (auto split: option.splits)

lemma pool_ok_cong:
  assumes "entries q = entries p" "priority q = priority p" "by_hash q = by_hash p" "by_payment_id q = by_payment_id p"
    "pool_key_images q = pool_key_images p" "size_bytes q = size_bytes p" "fee_less q = fee_less p" "next_seq q = next_seq p"
  shows "pool_ok q = pool_ok p" "pooled q = pooled p"
  using assms by (simp_all add: pool_ok_def entries_ok_def order_ok_def images_ok_def ids_ok_def counts_ok_def pooled_def
      hashes_by_payment_id_def)

lemma remember_rejection_rest: "remember_rejection h n rl ctx now p = p\<lparr>rejected := rejected (remember_rejection h n rl ctx now p)\<rparr>"
  by (simp add: remember_rejection_def Let_def split: rejection_category.splits)

lemma healthy_rejected [simp]: "healthy (p\<lparr>rejected := r\<rparr>) = healthy p" "kept n p' (p\<lparr>rejected := r\<rparr>) = kept n p' p"
  "room bs (p\<lparr>rejected := r\<rparr>) = room bs p" "kept n (p\<lparr>rejected := r\<rparr>) p' = kept n p p'"
  using pool_ok_cong(1) [of "p\<lparr>rejected := r\<rparr>" p] by (simp_all add: healthy_def kept_def room_def)

lemma healthy_evicted [simp]: "healthy (p\<lparr>evicted := r\<rparr>) = healthy p" "kept n p' (p\<lparr>evicted := r\<rparr>) = kept n p' p"
  using pool_ok_cong(1) [of "p\<lparr>evicted := r\<rparr>" p] by (simp_all add: healthy_def kept_def)

lemma healthy_deleted [simp]: "healthy (p\<lparr>recently_deleted := r\<rparr>) = healthy p" "kept n p' (p\<lparr>recently_deleted := r\<rparr>) = kept n p' p"
  "room bs (p\<lparr>recently_deleted := r\<rparr>) = room bs p" "kept n (p\<lparr>recently_deleted := r\<rparr>) p' = kept n p p'"
  using pool_ok_cong(1) [of "p\<lparr>recently_deleted := r\<rparr>" p] by (simp_all add: healthy_def kept_def room_def)

lemma admit_kept:
  assumes "healthy p" "\<not> pool_contains p (pe_hash e)" "pe_blob e \<noteq> []" "room [pe_blob e] p"
    "image_conflict (pool_key_images p) (inputs (prefix (pe_transaction e))) = None"
  shows "kept 1 p (snd (admit c chain e p))"
proof -
  obtain r spent where v: "validate_transaction_early_exit c (pc_access chain) (pool_context chain) (pe_transaction e) (pe_blob e) {} = (r, spent)"
    by fastforce
  show ?thesis
  proof (cases r)
    case (Inl x)
    then show ?thesis using v assms(1) by (cases x) (simp_all add: admit_def kept_refl, subst remember_rejection_rest, simp add: kept_refl)
  next
    case (Inr val)
    let ?e = "e\<lparr>pe_is_fusion := tv_is_fusion val\<rparr>" and ?q = "pool_insert (e\<lparr>pe_is_fusion := tv_is_fusion val\<rparr>) spent p"
    have p: "pool_ok p" "unat (size_bytes p) \<le> unat (max_size_bytes (pool_cfg p))"
      using assms(1) by (simp_all add: healthy_def word_le_nat_alt)
    have spent: "spent = images_of ?e" using early_exit_images [OF v [unfolded Inr]] by (simp add: images_of_def)
    have q: "pool_ok ?q"
      using assms(2-5) p(2) spent by (intro pool_insert_ok [OF p(1)]) (auto simp: image_conflict_None images_of_def room_def)
    have cf: "pool_cfg ?q = pool_cfg p" "next_seq ?q = next_seq p + 1" by (simp_all add: pool_insert_def Let_def)
    have pct: "evict_to_percent (pool_cfg ?q) \<le> 100" using assms(1) by (simp add: cf healthy_def)
    have "unat (next_seq p + 1) \<le> Suc (unat (next_seq p))" by (simp add: unat_word_ariths)
    then have "kept 1 p (snd (evict_to_fit ?q))"
      using evict_to_fit_ok [OF q pct] cf pct by (auto simp: kept_def shrunk_def same_rest_def healthy_def)
    then show ?thesis using v Inr by (simp add: admit_def Let_def case_prod_unfold)
  qed
qed

lemma add_parsed_kept:
  assumes "healthy p" "blob \<noteq> []" "room [blob] p"
  shows "kept 1 p (snd (add_parsed c chain tx blob h src p))"
proof -
  obtain cached cache where l: "cache_lookup h (length blob) (pool_now p) (rejection_cache_ttl (pool_cfg p)) (context_of chain) (rejected p) = (cached, cache)"
    by fastforce
  let ?p = "p\<lparr>rejected := cache\<rparr>" and ?e = "candidate_entry tx blob h (pool_now p) src"
  have "kept 1 ?p (snd (admit c chain ?e ?p))"
    if "\<not> pool_contains p h" "image_conflict (pool_key_images p) (inputs (prefix tx)) = None"
    using that assms by (intro admit_kept) (simp_all add: candidate_entry_def pool_contains_def)
  then show ?thesis
    using assms(1) l by (auto simp: add_parsed_def Let_def kept_refl split: option.splits prod.splits)
qed

end
