(* ===== verification/Pool_Steps.thy ===== *)
theory Pool_Steps
  imports Pool_Ok
begin

text \<open>
  The pool as a state machine: every public operation is a step, on any chain and in any order, and every pool that can
  be reached is consistent and within its size.
\<close>

section \<open>Reachable pools\<close>

lemma parsed_not_empty: "tx_from_bytes blob = Inr tx \<Longrightarrow> blob \<noteq> []"
  by (auto simp: tx_from_bytes_def tx.from_bytes_iff enc_tx_def enc_prefix_def)

lemma pool_add_kept:
  assumes "healthy p" "room [blob] p"
  shows "kept 1 p (snd (pool_add c chain blob src p))"
  using assms add_parsed_kept parsed_not_empty by (auto simp: pool_add_def kept_refl split: sum.splits)

lemma healthy_now [simp]: "healthy (p\<lparr>pool_now := t\<rparr>) = healthy p"
  using pool_ok_cong(1) [of "p\<lparr>pool_now := t\<rparr>" p] by (simp add: healthy_def)

lemma shrunk_healthy: "healthy p \<Longrightarrow> shrunk p q \<Longrightarrow> healthy q \<and> pool_cfg q = pool_cfg p"
  using kept_shrunk [of p q 0] by (simp add: kept_def)

lemma removal_healthy:
  assumes "healthy p"
  shows "healthy (remove_all hs p) \<and> pool_cfg (remove_all hs p) = pool_cfg p"
    "healthy (snd (pool_remove h p)) \<and> pool_cfg (snd (pool_remove h p)) = pool_cfg p"
proof -
  have "pool_ok p" using assms by (simp add: healthy_def)
  from shrunk_healthy [OF assms remove_all_ok(1) [OF this]] shrunk_healthy [OF assms shrunk_remove [OF this]]
  show "healthy (remove_all hs p) \<and> pool_cfg (remove_all hs p) = pool_cfg p"
    "healthy (snd (pool_remove h p)) \<and> pool_cfg (snd (pool_remove h p)) = pool_cfg p" .
qed

lemma clean_loop_shrunk:
  assumes "pool_ok p"
  shows "shrunk p (snd (clean_loop height now hs p))"
  using assms
proof (induction hs arbitrary: p)
  case (Cons h hs)
  let ?p = "p\<lparr>recently_deleted := AList.update h now (recently_deleted p)\<rparr>"
  have p: "shrunk p ?p" using pool_ok_cong [of ?p p] Cons.prems by (simp add: shrunk_def same_rest_def)
  then have q: "shrunk p (snd (pool_remove h ?p))" using shrunk_trans [OF p shrunk_remove] by (simp add: shrunk_def)
  have "pool_ok (snd (pool_remove h ?p))" using q by (simp add: shrunk_def)
  from shrunk_trans [OF q Cons.IH [OF this]] Cons.IH [OF Cons.prems] show ?case
    by (simp add: case_prod_unfold split: option.splits)
qed (simp add: shrunk_refl)

lemma pool_clean_healthy:
  assumes "healthy p"
  shows "healthy (snd (pool_clean height p)) \<and> pool_cfg (snd (pool_clean height p)) = pool_cfg p"
proof -
  let ?q = "snd (clean_loop height (pool_now p) (pool_hashes p) p)"
  have "pool_ok p" using assms by (simp add: healthy_def)
  from shrunk_healthy [OF assms clean_loop_shrunk [OF this]] have "healthy ?q" "pool_cfg ?q = pool_cfg p" by auto
  then show ?thesis by (simp add: pool_clean_def Let_def case_prod_unfold clean_recently_deleted_def)
qed

lemma copy_loop_kept:
  "healthy p \<Longrightarrow> room blobs p \<Longrightarrow> kept (length blobs) p (snd (copy_loop c chain blobs p))"
proof (induction blobs arbitrary: p)
  case (Cons blob blobs)
  have next_room: "room [blob] p" "room blobs p" using Cons.prems(2) by (auto simp: room_def)
  show ?case
  proof (cases "tx_from_bytes blob")
    case (Inr tx)
    show ?thesis
    proof (cases "tx_hash (cn_fast_hash c) tx")
      case hash: (Inr h)
      let ?q = "snd (add_parsed c chain tx blob h AlternativeBlock (snd (forget_deleted h p)))"
      have q: "kept 1 p ?q"
        using add_parsed_kept [of "snd (forget_deleted h p)" blob c chain tx h AlternativeBlock] Cons.prems next_room parsed_not_empty [OF Inr]
        by (simp add: forget_deleted_def)
      then have "kept (length blobs) ?q (snd (copy_loop c chain blobs ?q))"
        using Cons.prems room_kept by (intro Cons.IH) (auto simp: kept_def)
      from kept_trans [OF q this] show ?thesis using Inr hash by (simp add: case_prod_unfold)
    qed (use Inr Cons.IH [OF Cons.prems(1) next_room(2)] in \<open>simp add: kept_def\<close>)
  qed (use Cons.IH [OF Cons.prems(1) next_room(2)] in \<open>simp add: kept_def\<close>)
qed (simp add: kept_refl)

text \<open>Every operation of the pool on any chain; an offer or a refill needs room. Time passes as it likes.\<close>

inductive pool_step :: "crypto \<Rightarrow> transaction_pool \<Rightarrow> transaction_pool \<Rightarrow> bool" for c where
  offer: "room [blob] p \<Longrightarrow> pool_step c p (snd (pool_add c chain blob src p))"
| removal: "pool_step c p (snd (pool_remove h p))"
| flushing: "pool_step c p (pool_flush p)"
| cleaning: "pool_step c p (snd (pool_clean height p))"
| block_added: "pool_step c p (snd (on_block_added chain mined spent p))"
| switch_sweep: "pool_step c p (snd (remove_spent_in_chain chain p))"
| refill: "room blobs p \<Longrightarrow> pool_step c p (snd (copy_transactions_to_pool c chain blobs p))"
| announced: "pool_step c p (snd (take_evicted p))"
| deletion_forgotten: "pool_step c p (snd (forget_deleted h p))"
| rejection_forgotten: "pool_step c p (snd (forget_rejection h p))"
| time: "pool_step c p (p\<lparr>pool_now := t\<rparr>)"

inductive pool_reachable :: "crypto \<Rightarrow> pool_config \<Rightarrow> transaction_pool \<Rightarrow> bool" for c cf where
  start: "pool_reachable c cf (pool_new cf now)"
| next_step: "pool_reachable c cf p \<Longrightarrow> pool_step c p q \<Longrightarrow> pool_reachable c cf q"

lemma pool_step_healthy: "pool_step c p q \<Longrightarrow> healthy p \<Longrightarrow> healthy q \<and> pool_cfg q = pool_cfg p"
proof (induction rule: pool_step.induct)
  case (offer blob p chain src)
  then show ?case using pool_add_kept [of p blob c chain src] by (simp add: kept_def)
next
  case (refill blobs p chain)
  let ?p = "p\<lparr>rejected := forget_ring_dependent (rejected p)\<rparr>"
  show ?case using copy_loop_kept [of ?p blobs c chain] refill by (simp add: copy_transactions_to_pool_def kept_def)
next
  case (switch_sweep p chain)
  then show ?case
    using removal_healthy(1) [of "p\<lparr>rejected := forget_ring_dependent (rejected p)\<rparr>"]
    by (simp add: remove_spent_in_chain_def Let_def)
qed (simp_all add: removal_healthy pool_clean_healthy pool_flush_def on_block_added_def take_evicted_def forget_deleted_def
  forget_rejection_def Let_def)

lemma pool_reachable_healthy:
  "pool_reachable c cf p \<Longrightarrow> evict_to_percent cf \<le> 100 \<Longrightarrow> healthy p \<and> pool_cfg p = cf"
proof (induction rule: pool_reachable.induct)
  case (start now)
  then show ?case using pool_new_ok by (simp add: healthy_def) (simp add: pool_new_def)
qed (auto dest: pool_step_healthy)

section \<open>A sample pool\<close>

definition sample_pool_chain :: pool_chain where
  "sample_pool_chain =
     \<lparr>pc_access = sample_chain, pc_top_index = 0, pc_block_info_at = \<lambda>_. Inr None, pc_block_median_size = 10000,
      pc_checkpoint_table = checkpoints_none, pc_fixed_difficulty = None, pc_transaction_in_chain = \<lambda>_. Inr False\<rparr>"

definition sample_blob :: bytes where
  "sample_blob = enc_tx sample_spend"

lemma sample_blob_length: "length sample_blob = 141"
  by code_simp

lemma sample_blob_parses: "tx_from_bytes sample_blob = Inr sample_spend"
  by code_simp

lemma sample_blob_hash: "tx_hash (cn_fast_hash sample_crypto) sample_spend = Inr (replicate 32 0)"
  by code_simp

lemma sample_pool_context: "pool_context sample_pool_chain = sample_ctx\<lparr>is_pool_transaction := True\<rparr>"
  by (simp add: pool_context_def context_of_def sample_pool_chain_def sample_ctx_def sample_chain_def)

lemma sample_pool_fee: "validate_fee sample_spend sample_blob 1000 900 0 = Inr (100, False)"
  by (simp add: validate_fee_def sample_spend_def const_defs is_fusion_transaction_def is_valid_normal_fee_def required_minimum_fee_def Let_def)

lemma sample_pool_steps: "validate_fee_to_mixin sample_spend sample_blob (pool_context sample_pool_chain) 1000 900 = Inr (100, False)"
  using sample_mixin sample_pool_fee
  by (simp add: validate_fee_to_mixin_def validate_extra_def validate_unlock_time_def validate_input_output_ratio_def const_defs
      sample_pool_context sample_ctx_def sample_spend_def)

lemma sample_pool_work: "check_work sample_crypto sample_chain (pool_context sample_pool_chain) sample_spend 100 False = Inr ()"
  by (simp add: check_work_def pow_applies_def in_zone_def is_in_checkpoint_zone_def top_index_def checkpoints_iter_def
    checkpoints_none_def sample_defs sample_pool_context const_defs relative_offsets_to_absolute_def is_spend_time_unlocked_def Let_def)

lemma sample_pool_valid:
  "validate_transaction_early_exit sample_crypto sample_chain (pool_context sample_pool_chain) sample_spend sample_blob {} =
     (Inr \<lparr>tv_fee = 100, tv_is_fusion = False\<rparr>, {replicate 32 1})"
  using sample_inputs sample_outputs sample_pool_steps sample_pool_work
  by (simp add: validate_transaction_early_exit_def inline_from_outputs_def max_tx_size_def Let_def const_defs sample_blob_length
      sample_pool_context sample_ctx_def)

definition sample_pool :: transaction_pool where
  "sample_pool = pool_new pool_config_default 0"

lemma sample_pool_healthy: "healthy sample_pool"
  using pool_new_ok by (simp add: healthy_def sample_pool_def) (simp add: pool_new_def pool_config_default_def)

lemma sample_pool_room: "length b < 2 ^ 60 \<Longrightarrow> room [b] sample_pool"
  by (simp add: room_def sample_pool_def pool_new_def pool_config_default_def)

lemma sample_admitted: "fst (pool_add sample_crypto sample_pool_chain sample_blob Network sample_pool) = Added"
proof -
  let ?e = "candidate_entry sample_spend sample_blob (replicate 32 0) 0 Network"
  have "evict_to_fit (pool_insert e images sample_pool) = ([], pool_insert e images sample_pool)" if "pe_size e = 141" for e images
    using that by (simp add: evict_to_fit_def pool_insert_def sample_pool_def pool_new_def pool_config_default_def Let_def)
  then have "fst (admit sample_crypto sample_pool_chain ?e sample_pool) = Added"
    using sample_pool_valid sample_blob_length
    by (simp add: admit_def sample_pool_chain_def candidate_entry_def pool_contains_def) (simp add: pool_insert_def sample_pool_def Let_def update_conv')
  moreover have "image_conflict [] ins = None" for ins by (simp add: image_conflict_None)
  moreover have "sample_pool\<lparr>rejected := rejected sample_pool\<rparr> = sample_pool" by simp
  ultimately have "fst (add_parsed sample_crypto sample_pool_chain sample_spend sample_blob (replicate 32 0) Network sample_pool) = Added"
    by (simp add: add_parsed_def sample_pool_chain_def unwrap_or_false_def Let_def)
      (simp add: sample_pool_def pool_new_def pool_contains_def cache_lookup_def is_least_profitable_def pool_config_default_def
        unwrap_or_false_def)
  then show ?thesis using sample_blob_parses sample_blob_hash by (simp add: pool_add_def)
qed

definition sample_filled :: transaction_pool where
  "sample_filled = snd (pool_add sample_crypto sample_pool_chain sample_blob Network sample_pool)"

lemma sample_filled_healthy: "healthy sample_filled" "pool_cfg sample_filled = pool_config_default"
  using pool_add_kept [OF sample_pool_healthy sample_pool_room, of sample_blob] sample_blob_length
  by (simp_all add: sample_filled_def kept_def) (simp add: sample_pool_def pool_new_def)

section \<open>The invariant of reachable pools\<close>

text \<open>C5: Whatever the pool is asked to do, in whatever order and on whatever chain, it stays consistent: the hash index, the
  payment-id index, the key-image index, the priority order, the byte count and the count of fee-less transactions all
  describe the entries; the entries fit the configured size; and no two pooled transactions have the same hash or spend the
  same key image.\<close>

theorem pool_reachable_ok:
  assumes "pool_reachable c cf p" "evict_to_percent cf \<le> 100"
  shows "pool_ok p \<and> size_bytes p \<le> max_size_bytes cf \<and>
    (\<forall>e \<in> pooled p. \<forall>f \<in> pooled p. e = f \<or> pe_hash e \<noteq> pe_hash f \<and> images_of e \<inter> images_of f = {})"
proof (intro conjI ballI)
  have h: "healthy p" "pool_cfg p = cf" using pool_reachable_healthy [OF assms] by simp_all
  then show ok: "pool_ok p" "size_bytes p \<le> max_size_bytes cf" by (auto simp: healthy_def)
  fix e f assume ef: "e \<in> pooled p" "f \<in> pooled p"
  have "pe_hash e = pe_hash f" if "ki \<in> images_of e" "ki \<in> images_of f" for ki
  proof -
    have "map_of (pool_key_images p) ki = Some (pe_hash e)" "map_of (pool_key_images p) ki = Some (pe_hash f)"
      using ok(1) ef that by (auto simp: pool_ok_def images_ok_def)
    then show ?thesis by simp
  qed
  then show "e = f \<or> pe_hash e \<noteq> pe_hash f \<and> images_of e \<inter> images_of f = {}"
    using pooled_unique [OF _ ef] ok(1) by (auto simp: pool_ok_def)
qed

theorem pool_reachable_ok_witness:
  "pool_ok (snd (remove_spent_in_chain sample_pool_chain sample_filled)) \<and>
   size_bytes (snd (remove_spent_in_chain sample_pool_chain sample_filled)) \<le> max_size_bytes pool_config_default"
proof -
  have "pool_reachable sample_crypto pool_config_default sample_pool" unfolding sample_pool_def by (rule pool_reachable.start)
  moreover have "room [sample_blob] sample_pool" by (rule sample_pool_room) (simp add: sample_blob_length)
  ultimately have "pool_reachable sample_crypto pool_config_default sample_filled"
    unfolding sample_filled_def by (blast intro: pool_reachable.next_step pool_step.offer)
  then have "pool_reachable sample_crypto pool_config_default (snd (remove_spent_in_chain sample_pool_chain sample_filled))"
    by (blast intro: pool_reachable.next_step pool_step.switch_sweep)
  from pool_reachable_ok [OF this] show ?thesis by (simp add: pool_config_default_def)
qed

end
