(* ===== verification/Pool_Order.thy ===== *)
theory Pool_Order
  imports Pool_Steps
begin

text \<open>
  The priority order of the pool (\<open>TxPriority\<close>, \<open>PriorityKey\<close> and the ordered set of \<open>wrkz-mempool/src/pool.rs\<close>): an
  interface for an ordered index, its instance on the pool's keys, and what listing, the admission threshold and eviction
  make of it.
\<close>

text \<open>An ordered set of keys as the pool uses it: what insertion and removal promise of the elements in order.\<close>

locale ordered_index =
  fixes pos :: "'k \<Rightarrow> 'o::linorder" and invar :: "'k list \<Rightarrow> bool"
    and ins :: "'k \<Rightarrow> 'k list \<Rightarrow> 'k list" and del :: "'k \<Rightarrow> 'k list \<Rightarrow> 'k list" and valid :: "'k \<Rightarrow> bool"
  assumes ascending: "invar ks \<Longrightarrow> sorted_wrt (\<lambda>a b. pos a < pos b) ks"
    and ins_law: "invar ks \<Longrightarrow> valid k \<Longrightarrow> pos k \<notin> pos ` set ks \<Longrightarrow> invar (ins k ks) \<and> mset (ins k ks) = add_mset k (mset ks)"
    and del_law: "invar ks \<Longrightarrow> k \<in> set ks \<Longrightarrow> invar (del k ks) \<and> mset (del k ks) = mset ks - {#k#}"
begin

lemma last_greatest: "invar ks \<Longrightarrow> k \<in> set ks \<Longrightarrow> pos k \<le> pos (last ks)"
proof (induction ks rule: rev_induct)
  case (snoc x xs)
  then show ?case using ascending [OF snoc.prems(1)] by (auto simp: sorted_wrt_append)
qed simp

lemma same_elements: "invar ks \<Longrightarrow> invar ls \<Longrightarrow> mset ks = mset ls \<Longrightarrow> ks = ls"
proof -
  assume a: "invar ks" "invar ls" "mset ks = mset ls"
  have "sorted_wrt (<) (map pos ks)" "sorted_wrt (<) (map pos ls)"
    using ascending [OF a(1)] ascending [OF a(2)] by (simp_all add: sorted_wrt_map)
  then have s: "sorted (map pos ks)" "distinct (map pos ks)" "sorted (map pos ls)" "distinct (map pos ls)"
    by (simp_all add: strict_sorted_iff)
  have same: "set ks = set ls" using a(3) by (metis set_mset_mset)
  then have "inj_on pos (set ks \<union> set ls)" using s(2) by (simp add: distinct_map)
  then show "ks = ls" by (rule map_sorted_distinct_set_unique [OF _ s same])
qed

lemma del_ins: "invar ks \<Longrightarrow> valid k \<Longrightarrow> pos k \<notin> pos ` set ks \<Longrightarrow> del k (ins k ks) = ks"
proof -
  assume k: "invar ks" "valid k" "pos k \<notin> pos ` set ks"
  note i = ins_law [OF k]
  have "k \<in> set (ins k ks)" using i by (metis set_mset_mset union_single_eq_member add_mset_add_single)
  then show "del k (ins k ks) = ks" using del_law [of "ins k ks" k] i k(1) by (intro same_elements) auto
qed

end

interpretation keys: ordered_index key_pos in_order set_insert set_remove sized
  by unfold_locales (simp_all add: set_insert_in_order set_remove_in_order in_order_def [THEN iffD1, THEN conjunct1])

text \<open>The entries behind the keys, in order.\<close>

lemma by_priority_keys:
  assumes "pool_ok p"
  obtains xs where "priority p = map key_of xs" "by_priority p = map snd xs" "mset xs = mset (entries p)"
proof -
  have ok: "entries_ok p" "order_ok p" using assms by (simp_all add: pool_ok_def)
  have m: "mset (priority p) = image_mset key_of (mset (entries p))" using ok(2) by (simp add: order_ok_def)
  let ?g = "\<lambda>k. (key_seq k, the (map_of (entries p) (key_seq k)))"
  have g: "?g (key_of x) = x" "map_of (entries p) (key_seq (key_of x)) = Some (snd x)" if "x \<in> set (entries p)" for x
  proof -
    have "map_of (entries p) (fst x) = Some (snd x)" using that ok(1) by (simp add: entries_ok_def map_of_eq_Some_iff)
    then show "?g (key_of x) = x" "map_of (entries p) (key_seq (key_of x)) = Some (snd x)" by (simp_all add: key_of_def)
  qed
  have "set (priority p) = key_of ` set (entries p)" using arg_cong [OF m, of set_mset] by simp
  then have ex: "\<exists>x \<in> set (entries p). k = key_of x" if "k \<in> set (priority p)" for k using that by auto
  have k: "key_of (?g k) = k" "map_of (entries p) (key_seq k) = Some (snd (?g k))" if "k \<in> set (priority p)" for k
  proof -
    from ex [OF that] obtain x where x: "x \<in> set (entries p)" "k = key_of x" by blast
    show "key_of (?g k) = k" "map_of (entries p) (key_seq k) = Some (snd (?g k))"
      using g [OF x(1)] unfolding x(2) by simp_all
  qed
  have "mset (map ?g (priority p)) = mset (entries p)"
  proof -
    have "image_mset (\<lambda>x. ?g (key_of x)) (mset (entries p)) = image_mset (\<lambda>x. x) (mset (entries p))"
      by (rule image_mset_cong) (use g(1) in simp)
    then show ?thesis by (simp add: m image_mset.compositionality comp_def)
  qed
  moreover have "map key_of (map ?g (priority p)) = priority p" using k by (simp add: map_idI)
  moreover have "by_priority p = map snd (map ?g (priority p))"
  proof -
    have "List.map_filter (\<lambda>k. map_of (entries p) (key_seq k)) ks = map (snd \<circ> ?g) ks" if "set ks \<subseteq> set (priority p)" for ks
      using that by (induction ks) (auto simp: List.map_filter_simps dest: k(2) split: option.splits)
    then show ?thesis by (simp add: by_priority_def)
  qed
  ultimately show thesis by (intro that [of "map ?g (priority p)"]) simp_all
qed

lemma entry_sized: "pool_ok p \<Longrightarrow> (s, e) \<in> set (entries p) \<Longrightarrow> 0 < pri_size (priority_of e)"
  by (auto simp: pool_ok_def entries_ok_def list_all_iff priority_of_def Let_def)

text \<open>C16: The pool hands its transactions out in the order of a stable sort: \<open>by_priority\<close> lists every entry once; an entry
  is never listed behind one it is preferred over, and where neither is preferred the one that came first is listed
  first.\<close>

theorem by_priority_stable_sort:
  assumes "pool_ok p"
  shows "\<exists>xs. by_priority p = map snd xs \<and> mset xs = mset (entries p) \<and>
    sorted_wrt (\<lambda>(s, e) (t, f). prefers (priority_of e) (priority_of f) \<or> \<not> prefers (priority_of f) (priority_of e) \<and> s < t) xs"
proof -
  obtain xs where xs: "priority p = map key_of xs" "by_priority p = map snd xs" "mset xs = mset (entries p)"
    by (rule by_priority_keys [OF assms])
  have sized: "0 < pri_size (priority_of (snd x))" if "x \<in> set xs" for x
    using entry_sized [OF assms, of "fst x" "snd x"] that xs(3) by (metis prod.collapse set_mset_mset)
  have "sorted_wrt (\<lambda>x y. key_pos (key_of x) < key_pos (key_of y)) xs"
    using keys.ascending [of "priority p"] assms by (simp add: xs(1) pool_ok_def order_ok_def sorted_wrt_map)
  then have "sorted_wrt (\<lambda>(s, e) (t, f). prefers (priority_of e) (priority_of f) \<or> \<not> prefers (priority_of f) (priority_of e) \<and> s < t) xs"
  proof (rule sorted_wrt_mono_rel [rotated])
    fix x y assume "x \<in> set xs" "y \<in> set xs" "key_pos (key_of x) < key_pos (key_of y)"
    then show "(case x of (s, e) \<Rightarrow> \<lambda>(t, f). prefers (priority_of e) (priority_of f) \<or> \<not> prefers (priority_of f) (priority_of e) \<and> s < t) y"
      using sized [of x] sized [of y] by (cases x; cases y) (auto simp: key_pos_def key_of_def prefers_rank)
  qed
  then show ?thesis using xs(2,3) by blast
qed

theorem by_priority_stable_sort_witness:
  "\<exists>xs. by_priority sample_filled = map snd xs \<and> mset xs = mset (entries sample_filled)"
  using by_priority_stable_sort [of sample_filled] sample_filled_healthy(1) by (auto simp: healthy_def)

text \<open>Asking only the least preferred entry is asking all of them: in a consistent pool \<open>is_least_profitable\<close> says that the
  pool is not empty and that the candidate is preferred over no entry of it.\<close>

theorem least_profitable_of_all:
  assumes "pool_ok p" "pe_blob e \<noteq> []"
  shows "is_least_profitable p e \<longleftrightarrow> pooled p \<noteq> {} \<and> (\<forall>q \<in> pooled p. \<not> prefers (priority_of e) (priority_of q))"
proof -
  obtain xs where xs: "priority p = map key_of xs" "mset xs = mset (entries p)"
    using by_priority_keys [OF assms(1)] by metis
  have pooled: "pooled p = snd ` set xs" using arg_cong [OF xs(2), of set_mset] by (simp add: pooled_def)
  show ?thesis
  proof (cases "xs = []")
    case False
    have sized: "0 < pri_size (priority_of (snd x))" if "x \<in> set xs" for x
      using entry_sized [OF assms(1), of "fst x" "snd x"] that xs(2) by (metis prod.collapse set_mset_mset)
    have e: "0 < pri_size (priority_of e)" using assms(2) by (simp add: priority_of_def Let_def)
    have last: "last xs \<in> set xs" using False by simp
    have greatest: "key_pos (key_of x) \<le> key_pos (key_of (last xs))" if "x \<in> set xs" for x
      using keys.last_greatest [of "priority p" "key_of x"] assms(1) that False
      by (simp add: xs(1) pool_ok_def order_ok_def last_map)
    have "rank (priority_of (snd x)) \<le> rank (priority_of (snd (last xs)))" if "x \<in> set xs" for x
      using greatest [OF that] by (auto simp: key_pos_def key_of_def)
    then have "(\<forall>q \<in> pooled p. \<not> prefers (priority_of e) (priority_of q)) \<longleftrightarrow> \<not> prefers (priority_of e) (priority_of (snd (last xs)))"
      using last sized e unfolding pooled by (auto simp: prefers_rank not_less intro: order_trans)
    then show ?thesis using False by (simp add: is_least_profitable_def xs(1) pooled last_map key_of_def)
  qed (simp add: is_least_profitable_def xs(1) pooled)
qed

theorem least_profitable_of_all_witness:
  "let e = candidate_entry sample_spend sample_blob (replicate 32 1) 0 Rpc in
   is_least_profitable sample_filled e \<longleftrightarrow>
     pooled sample_filled \<noteq> {} \<and> (\<forall>q \<in> pooled sample_filled. \<not> prefers (priority_of e) (priority_of q))"
proof -
  have "pe_blob (candidate_entry sample_spend sample_blob (replicate 32 1) 0 Rpc) \<noteq> []"
    using sample_blob_length by (auto simp: candidate_entry_def)
  then show ?thesis using least_profitable_of_all [of sample_filled] sample_filled_healthy(1) by (simp add: healthy_def)
qed

section \<open>What eviction takes\<close>

lemma set_remove_last:
  assumes "in_order (ks @ [k])" shows "set_remove k (ks @ [k]) = ks"
proof (rule keys.same_elements)
  show "in_order (set_remove k (ks @ [k]))" "mset (set_remove k (ks @ [k])) = mset ks"
    using keys.del_law [OF assms, of k] by simp_all
  show "in_order ks" using assms by (simp add: in_order_def sorted_wrt_append)
qed

text \<open>Removing the last entry of the order leaves the others in their order.\<close>

lemma remove_last:
  assumes "pool_ok p" "priority p \<noteq> []"
  obtains e where "map_of (entries p) (key_seq (last (priority p))) = Some e" "by_priority p \<noteq> []" "last (by_priority p) = e"
    "by_priority (snd (pool_remove (pe_hash e) p)) = butlast (by_priority p)"
proof -
  obtain xs where xs: "priority p = map key_of xs" "by_priority p = map snd xs" "mset xs = mset (entries p)"
    by (rule by_priority_keys [OF assms(1)])
  have ne: "xs \<noteq> []" using assms(2) xs(1) by simp
  obtain s e where l: "last xs = (s, e)" by fastforce
  have ok: "entries_ok p" "order_ok p" using assms(1) by (simp_all add: pool_ok_def)
  have "(s, e) \<in> set (entries p)" using ne l xs(3) by (metis last_in_set set_mset_mset)
  then have e: "map_of (entries p) s = Some e" using ok(1) by (simp add: entries_ok_def map_of_eq_Some_iff)
  then have "map_of (by_hash p) (pe_hash e) = Some s" using by_hash_Some [OF ok(1)] by blast
  then have q: "snd (pool_remove (pe_hash e) p) = without s e p" using e by (simp add: pool_remove_def without_def key_of_def Let_def split: option.split)
  let ?q = "without s e p"
  have "pool_ok ?q" using pool_remove_ok(1) [OF assms(1), of "pe_hash e"] q by simp
  from by_priority_keys [OF this] obtain ys where ys: "priority ?q = map key_of ys" "by_priority ?q = map snd ys" "mset ys = mset (entries ?q)"
    by metis
  have split: "xs = butlast xs @ [(s, e)]" using append_butlast_last_id [OF ne] l by simp
  have "priority p = map key_of (butlast xs) @ [key_of (s, e)]" unfolding xs(1) by (subst split) simp
  then have "priority ?q = map key_of (butlast xs)" using set_remove_last ok(2) by (simp add: without_def order_ok_def)
  then have same: "map key_of ys = map key_of (butlast xs)" using ys(1) by simp
  have "set ys \<subseteq> set (entries p)" using arg_cong [OF ys(3), of set_mset] by (auto simp: without_def AList.delete_eq)
  moreover have "set (butlast xs) \<subseteq> set (entries p)" using arg_cong [OF xs(3), of set_mset] by (auto dest: in_set_butlastD)
  moreover have "inj_on key_of (set (entries p))" using ok(1) by (auto simp: entries_ok_def inj_on_def key_of_def distinct_map)
  ultimately have "inj_on key_of (set ys \<union> set (butlast xs))" by (blast intro: inj_on_subset)
  from inj_on_map_eq_map [OF this] same have "ys = butlast xs" by simp
  then have "by_priority ?q = butlast (by_priority p)" using xs(2) ys(2) by (simp add: map_butlast)
  moreover have "key_seq (last (priority p)) = s" using ne l by (simp add: xs(1) last_map key_of_def)
  moreover have "last (by_priority p) = e" "by_priority p \<noteq> []" using ne l by (simp_all add: xs(2) last_map)
  ultimately show thesis using that [of e] e q by simp
qed

lemma size_by_priority:
  assumes "pool_ok p" shows "unat (size_bytes p) = (\<Sum>e\<leftarrow>by_priority p. pe_size e)"
proof -
  obtain xs where xs: "by_priority p = map snd xs" "mset xs = mset (entries p)" using by_priority_keys [OF assms] by metis
  have "(\<Sum>x\<leftarrow>xs. pe_size (snd x)) = (\<Sum>x\<leftarrow>entries p. pe_size (snd x))"
    by (simp add: xs(2) flip: sum_mset_sum_list)
  moreover have "counts_ok p" using assms by (simp add: pool_ok_def)
  ultimately show ?thesis by (simp add: counts_ok_def xs(1) comp_def)
qed

lemma evict_loop_best:
  assumes "pool_ok p" "length (priority p) \<le> n"
  shows "\<exists>ks ss. by_priority p = ks @ ss \<and> by_priority (snd (evict_loop n t p)) = ks \<and>
    fst (evict_loop n t p) = map pe_hash (rev ss) \<and> (ss = [] \<or> unat t < (\<Sum>e\<leftarrow>ks @ [hd ss]. pe_size e))"
  using assms
proof (induction n arbitrary: p)
  case (Suc n)
  show ?case
  proof (cases "size_bytes p > t \<and> priority p \<noteq> []")
    case True
    obtain e where e: "map_of (entries p) (key_seq (last (priority p))) = Some e" "by_priority p \<noteq> []" "last (by_priority p) = e"
      and q: "by_priority (snd (pool_remove (pe_hash e) p)) = butlast (by_priority p)"
      using remove_last [OF Suc.prems(1)] True by metis
    let ?q = "snd (pool_remove (pe_hash e) p)"
    have "e \<in> pooled p" using last_key [OF Suc.prems(1)] True e(1) by auto
    then have "pool_contains p (pe_hash e)" using Suc.prems(1) by (auto simp: pool_contains_iff pool_ok_def)
    from pool_remove_length [OF Suc.prems(1) this] have "length (priority ?q) \<le> n" using Suc.prems(2) by simp
    moreover have "pool_ok ?q" by (rule pool_remove_ok(1) [OF Suc.prems(1)])
    ultimately obtain ks ss where IH: "butlast (by_priority p) = ks @ ss" "by_priority (snd (evict_loop n t ?q)) = ks"
      "fst (evict_loop n t ?q) = map pe_hash (rev ss)" "ss = [] \<or> unat t < (\<Sum>e\<leftarrow>ks @ [hd ss]. pe_size e)"
      using Suc.IH [of ?q] q by metis
    have p: "by_priority p = ks @ ss @ [e]" using append_butlast_last_id [OF e(2)] e(3) IH(1) by simp
    have "unat t < (\<Sum>e\<leftarrow>by_priority p. pe_size e)"
      using True size_by_priority [OF Suc.prems(1)] by (simp add: word_less_nat_alt)
    then have "unat t < (\<Sum>e\<leftarrow>ks @ [hd (ss @ [e])]. pe_size e)" using IH(4) p by (cases ss) simp_all
    moreover have "evict_loop (Suc n) t p = (pe_hash e # fst (evict_loop n t ?q), snd (evict_loop n t ?q))"
      using True e(1) by (simp add: case_prod_unfold)
    ultimately show ?thesis using p IH(2,3) by (intro exI [of _ ks] exI [of _ "ss @ [e]"]) simp
  qed auto
qed auto

text \<open>C15: Eviction sheds the least preferred entries, down to the configured percentage of the limit and no further: what is
  kept is a front part of the priority order and the rest is reported worst first. Nothing is shed from a pool within
  the limit; from one over it entries are shed until the rest fits the target, and the best of the shed entries would
  put the pool over the target again. The pool is consistent and the percentage at most 100.\<close>

theorem evict_keeps_best:
  assumes "pool_ok p" "evict_to_percent (pool_cfg p) \<le> 100"
  shows "\<exists>ks ss. by_priority p = ks @ ss \<and> by_priority (snd (evict_to_fit p)) = ks \<and> fst (evict_to_fit p) = map pe_hash (rev ss) \<and>
    (\<Sum>e\<leftarrow>ks. pe_size e) \<le> unat (max_size_bytes (pool_cfg p)) \<and>
    (if size_bytes p \<le> max_size_bytes (pool_cfg p) then ss = []
     else ss \<noteq> [] \<and>
       (\<Sum>e\<leftarrow>ks. pe_size e) \<le> unat (max_size_bytes (pool_cfg p) div 100 * evict_to_percent (pool_cfg p)) \<and>
       unat (max_size_bytes (pool_cfg p) div 100 * evict_to_percent (pool_cfg p)) < (\<Sum>e\<leftarrow>ks @ [hd ss]. pe_size e))"
proof (cases "size_bytes p \<le> max_size_bytes (pool_cfg p)")
  case True
  then show ?thesis using size_by_priority [OF assms(1)] by (simp add: evict_to_fit_def word_le_nat_alt)
next
  case False
  let ?t = "max_size_bytes (pool_cfg p) div 100 * evict_to_percent (pool_cfg p)"
  have e: "evict_to_fit p = evict_loop (length (priority p)) ?t p" using False by (simp add: evict_to_fit_def)
  obtain ks ss where b: "by_priority p = ks @ ss" "by_priority (snd (evict_to_fit p)) = ks"
    "fst (evict_to_fit p) = map pe_hash (rev ss)" "ss = [] \<or> unat ?t < (\<Sum>e\<leftarrow>ks @ [hd ss]. pe_size e)"
    using evict_loop_best [OF assms(1) order_refl, of ?t] e by metis
  have after: "pool_ok (snd (evict_to_fit p))" "unat (size_bytes (snd (evict_to_fit p))) \<le> unat (max_size_bytes (pool_cfg p))"
    using evict_to_fit_ok [OF assms] by (simp_all add: shrunk_def word_le_nat_alt)
  have kept: "(\<Sum>e\<leftarrow>ks. pe_size e) = unat (size_bytes (snd (evict_to_fit p)))"
    using size_by_priority [OF after(1)] by (simp add: b(2))
  have "unat (size_bytes (snd (evict_to_fit p))) \<le> unat ?t"
    using evict_loop_ends(2) [OF assms(1) order_refl, of ?t] by (simp only: e word_le_nat_alt)
  moreover have "ss \<noteq> []"
    using size_by_priority [OF assms(1)] kept after(2) b(1) False by (auto simp: word_le_nat_alt)
  ultimately show ?thesis using b after(2) kept False by (intro exI [of _ ks] exI [of _ ss]) auto
qed

text \<open>Three entries of sixty bytes over a limit of 150: the target is 90, so one of them may stay.\<close>

definition sample_entry :: "u8 \<Rightarrow> u64 \<Rightarrow> pool_entry" where
  "sample_entry h f =
     \<lparr>pe_hash = replicate 32 h,
      pe_transaction = \<lparr>prefix = \<lparr>version = 1, unlock_time = 0, inputs = [], outputs = [], extra = []\<rparr>, signatures = []\<rparr>,
      pe_blob = replicate 60 0, pe_fee = f, pe_amount = 0, pe_is_fusion = False, pe_receive_time = 0, pe_source = Network,
      pe_payment_id = None\<rparr>"

definition crowded_pool :: transaction_pool where
  "crowded_pool = pool_insert (sample_entry 3 20) {} (pool_insert (sample_entry 2 10) {} (pool_insert (sample_entry 1 30) {}
     (pool_new (pool_config_default\<lparr>max_size_bytes := 150\<rparr>) 0)))"

lemma crowded_facts:
  "max_size_bytes (pool_cfg crowded_pool) = 150" "evict_to_percent (pool_cfg crowded_pool) = 90" "size_bytes crowded_pool = 180"
  "entries crowded_pool = [(0, sample_entry 1 30), (1, sample_entry 2 10), (2, sample_entry 3 20)]"
  by (simp_all add: crowded_pool_def pool_insert_def pool_new_def pool_config_default_def sample_entry_def Let_def update_conv')

lemma crowded_ok: "pool_ok crowded_pool"
  unfolding crowded_pool_def
  by (intro pool_insert_ok pool_new_ok)
    (simp_all add: pool_insert_def pool_new_def sample_entry_def pool_contains_def images_of_def Let_def)

lemma crowded_priority: "map key_seq (priority crowded_pool) = [0, 2, 1]"
  by (simp add: crowded_pool_def pool_insert_def pool_new_def sample_entry_def Let_def priority_of_def key_cmp_def prefers_def)

lemma crowded_order: "by_priority crowded_pool = [sample_entry 1 30, sample_entry 3 20, sample_entry 2 10]"
proof -
  obtain a b c where "priority crowded_pool = [a, b, c]" "key_seq a = 0" "key_seq b = 2" "key_seq c = 1"
    using crowded_priority by (auto simp: map_eq_Cons_conv)
  then show ?thesis by (simp add: by_priority_def crowded_facts(4) List.map_filter_def)
qed

theorem evict_keeps_best_witness:
  "fst (evict_to_fit crowded_pool) = [replicate 32 2, replicate 32 3] \<and>
   by_priority (snd (evict_to_fit crowded_pool)) = [sample_entry 1 30]"
proof -
  obtain ks ss where b: "[sample_entry 1 30, sample_entry 3 20, sample_entry 2 10] = ks @ ss" "ss \<noteq> []"
    "by_priority (snd (evict_to_fit crowded_pool)) = ks" "fst (evict_to_fit crowded_pool) = map pe_hash (rev ss)"
    "(\<Sum>e\<leftarrow>ks. pe_size e) \<le> 90" "90 < (\<Sum>e\<leftarrow>ks @ [hd ss]. pe_size e)"
    using evict_keeps_best [OF crowded_ok] by (auto simp: crowded_facts crowded_order)
  have e: "pe_size (sample_entry h f) = 60" "pe_hash (sample_entry h f) = replicate 32 h" for h f
    by (simp_all add: sample_entry_def)
  have "ks = [] \<or> ks = [sample_entry 1 30] \<or> ks = [sample_entry 1 30, sample_entry 3 20]"
    using b(1,2) by (auto simp: Cons_eq_append_conv)
  then have "ks = [sample_entry 1 30]" using b(1,5,6) e(1) by auto
  then show ?thesis using b(1,3,4) e(2) by auto
qed

end
