(* ===== verification/Pool_Admit.thy ===== *)
theory Pool_Admit
  imports Pool_Order
begin

text \<open>
  Admission to the pool (\<open>TransactionPool::add\<close> and \<open>add_parsed\<close> of \<open>wrkz-mempool/src/pool.rs\<close>): what an admitted
  transaction is, which rejections stand for good, and what the checkpoint zone skips.
\<close>

section \<open>What admission promises\<close>

lemma fee_inputs_sum:
  "(\<forall>h. Base h \<notin> set ins) \<Longrightarrow> fee_inputs acc ins = Some (acc + of_nat (sum_list (map in_value ins)))"
  by (induction acc ins rule: fee_inputs.induct) (auto simp: in_value_def add.assoc)

lemma no_base_accepted: "validate_inputs_loop c k i seen acc st d ins = (Inr s, st', d') \<Longrightarrow> Base h \<notin> set ins"
proof (induction ins arbitrary: i seen acc st d)
  case (Cons inp ins)
  then show ?case by (cases inp) (auto simp: Let_def split: if_splits option.splits)
qed simp

lemma foldl_amounts: "foldl (\<lambda>a v. a + out_amount v) acc outs = acc + of_nat (sum_list (map (\<lambda>v. unat (out_amount v)) outs))"
  by (induction outs arbitrary: acc) (simp_all add: add.assoc)

text \<open>The fee the pool files a transaction under is the one the validator grants.\<close>

lemma filed_fee:
  assumes "validate_transaction_early_exit c chain ctx tx blob st = (Inr v, st')" "answers_every_index chain"
  shows "transaction_fee_of tx = tv_fee v"
proof -
  note a = early_exit_accepts [OF assms]
  have "\<forall>h. Base h \<notin> set (inputs (prefix tx))"
    using assms(1) by (auto simp: validate_transaction_early_exit_def validate_inputs_def Let_def dest: no_base_accepted
        split: if_splits prod.splits sum.splits)
  then have "transaction_fee_of tx = of_nat (value_in tx) - of_nat (value_out tx)"
    by (simp add: transaction_fee_of_def fee_inputs_sum foldl_amounts value_in_def value_out_def)
  also have "\<dots> = tv_fee v" using a by simp
  finally show ?thesis .
qed

lemma update_subset: "set (AList.update k v al) \<subseteq> insert (k, v) (set al)"
  by (induction al) auto

lemma pooled_insert: "pooled (pool_insert e images p) \<subseteq> insert e (pooled p)"
  using update_subset [of "next_seq p" e "entries p"] by (fastforce simp: pool_insert_def Let_def pooled_def)

lemma admit_added:
  assumes "fst (admit c chain e p) = Added"
  obtains v spent where "validate_transaction_early_exit c (pc_access chain) (pool_context chain) (pe_transaction e) (pe_blob e) {} = (Inr v, spent)"
    "snd (admit c chain e p) = (let (shed, q) = evict_to_fit (pool_insert (e\<lparr>pe_is_fusion := tv_is_fusion v\<rparr>) spent p) in q\<lparr>evicted := evicted q @ shed\<rparr>)"
    "pool_contains (snd (admit c chain e p)) (pe_hash e)"
  using assms that by (auto simp: admit_def Let_def split: prod.splits sum.splits tx_error.splits if_splits)

lemma add_parsed_added:
  assumes "fst (add_parsed c chain tx blob h src p) = Added"
  shows "\<not> pool_contains p h" "unwrap_or_false (pc_transaction_in_chain chain h) = False"
    "image_conflict (pool_key_images p) (inputs (prefix tx)) = None"
    "\<exists>r. fst (admit c chain (candidate_entry tx blob h (pool_now p) src) (p\<lparr>rejected := r\<rparr>)) = Added \<and>
      snd (add_parsed c chain tx blob h src p) = snd (admit c chain (candidate_entry tx blob h (pool_now p) src) (p\<lparr>rejected := r\<rparr>))"
  using assms by (auto simp: add_parsed_def Let_def split: prod.splits option.splits if_splits)

lemma pool_add_added:
  assumes "fst (pool_add c chain blob src p) = Added"
  obtains tx h where "tx_from_bytes blob = Inr tx" "tx_hash (cn_fast_hash c) tx = Inr h"
    "pool_add c chain blob src p = add_parsed c chain tx blob h src p"
  using assms that by (auto simp: pool_add_def split: sum.splits)

lemma conflict_free:
  assumes "images_ok p" "image_conflict (pool_key_images p) ins = None" "q \<in> pooled p"
  shows "images_of q \<inter> set (key_images_of ins) = {}"
proof -
  have "map_of (pool_key_images p) ki = Some (pe_hash q)" if "ki \<in> images_of q" for ki
    using assms(1,3) that by (auto simp: images_ok_def)
  then show ?thesis using assms(2) by (fastforce simp: image_conflict_None)
qed

lemma admit_pooled:
  assumes "healthy p" "\<not> pool_contains p (pe_hash e)" "pe_blob e \<noteq> []" "room [pe_blob e] p"
    "image_conflict (pool_key_images p) (inputs (prefix (pe_transaction e))) = None" "fst (admit c chain e p) = Added"
  obtains v spent where "validate_transaction_early_exit c (pc_access chain) (pool_context chain) (pe_transaction e) (pe_blob e) {} = (Inr v, spent)"
    "pool_get (snd (admit c chain e p)) (pe_hash e) = Some (e\<lparr>pe_is_fusion := tv_is_fusion v\<rparr>)"
    "pooled (snd (admit c chain e p)) \<subseteq> insert (e\<lparr>pe_is_fusion := tv_is_fusion v\<rparr>) (pooled p)"
proof (rule admit_added [OF assms(6)])
  fix v :: tx_validation and spent
  let ?e = "e\<lparr>pe_is_fusion := tv_is_fusion v\<rparr>" and ?q = "snd (admit c chain e p)"
  let ?i = "pool_insert ?e spent p"
  assume v: "validate_transaction_early_exit c (pc_access chain) (pool_context chain) (pe_transaction e) (pe_blob e) {} = (Inr v, spent)"
    and q: "?q = (let (shed, q) = evict_to_fit ?i in q\<lparr>evicted := evicted q @ shed\<rparr>)"
    and c: "pool_contains ?q (pe_hash e)"
  have p: "pool_ok p" "unat (size_bytes p) \<le> unat (max_size_bytes (pool_cfg p))" "evict_to_percent (pool_cfg ?i) \<le> 100"
    using assms(1) by (simp_all add: healthy_def word_le_nat_alt pool_insert_def Let_def)
  have "pool_ok ?i"
    using assms(2-5) p(2) early_exit_images [OF v] by (intro pool_insert_ok [OF p(1)]) (auto simp: image_conflict_None images_of_def room_def)
  from evict_to_fit_ok(1) [OF this p(3)] have "pooled (snd (evict_to_fit ?i)) \<subseteq> insert ?e (pooled p)"
    using pooled_insert [of ?e spent p] by (auto simp: shrunk_def)
  then have sub: "pooled ?q \<subseteq> insert ?e (pooled p)" by (simp add: q Let_def case_prod_unfold pooled_def)
  have ok: "entries_ok ?q" "entries_ok p"
    using admit_kept [OF assms(1-5), of c chain] p(1) by (simp_all add: kept_def healthy_def pool_ok_def)
  obtain x where x: "x \<in> pooled ?q" "pe_hash x = pe_hash e" using c pool_contains_iff [OF ok(1)] by auto
  moreover have "x \<notin> pooled p" using assms(2) x(2) pool_contains_iff [OF ok(2)] by auto
  ultimately have "pool_get ?q (pe_hash e) = Some ?e" using sub pool_get_Some [OF ok(1)] by auto
  then show thesis using that v sub by blast
qed

text \<open>C4: What a consistent pool with room in its counters admits is a new and valid spend. The blob parses and its transaction, which was neither pooled nor in
  the chain, is now filed under its hash with the blob as it came; every other entry was there before, and none of them
  spends a key image of the new one. Its images are distinct and in the prime-order subgroup, its outputs pay non-zero
  amounts to valid keys, its fee is exactly what its inputs leave over its outputs, and outside the checkpoint zone every
  input is unspent and the signatures the transaction carries for it hold over a ring of unlocked outputs of the chain,
  where the chain answers every output index it is asked for.\<close>

theorem pool_admits_sound:
  assumes "fst (pool_add c chain blob src p) = Added" "healthy p" "room [blob] p" "answers_every_index (pc_access chain)"
  shows "\<exists>tx h e. tx_from_bytes blob = Inr tx \<and> tx_hash (cn_fast_hash c) tx = Inr h \<and>
    pool_get (snd (pool_add c chain blob src p)) h = Some e \<and> pe_transaction e = tx \<and> pe_blob e = blob \<and>
    \<not> pool_contains p h \<and> pc_transaction_in_chain chain h \<noteq> Inr True \<and>
    pooled (snd (pool_add c chain blob src p)) \<subseteq> insert e (pooled p) \<and>
    (\<forall>q \<in> pooled p. images_of q \<inter> images_of e = {}) \<and> distinct (key_images_of (inputs (prefix tx))) \<and>
    (\<forall>ki \<in> images_of e. key_image_in_prime_subgroup c ki) \<and>
    (\<forall>t \<in> set (outputs (prefix tx)). out_amount t \<noteq> 0 \<and> check_key c (out_key t)) \<and>
    value_in tx = value_out tx + unat (pe_fee e) \<and>
    (\<not> in_zone (pool_context chain) \<longrightarrow> inputs_authorised c (pc_access chain) (pool_context chain) tx)"
proof -
  obtain tx h where tx: "tx_from_bytes blob = Inr tx" "tx_hash (cn_fast_hash c) tx = Inr h"
    and add: "pool_add c chain blob src p = add_parsed c chain tx blob h src p" by (rule pool_add_added [OF assms(1)])
  note a = add_parsed_added [OF assms(1) [unfolded add]]
  obtain r where r: "fst (admit c chain (candidate_entry tx blob h (pool_now p) src) (p\<lparr>rejected := r\<rparr>)) = Added"
    "snd (add_parsed c chain tx blob h src p) = snd (admit c chain (candidate_entry tx blob h (pool_now p) src) (p\<lparr>rejected := r\<rparr>))"
    using a(4) by blast
  let ?p = "p\<lparr>rejected := r\<rparr>" and ?e = "candidate_entry tx blob h (pool_now p) src"
  have fields: "pe_hash ?e = h" "pe_transaction ?e = tx" "pe_blob ?e = blob" "pe_fee ?e = transaction_fee_of tx"
    by (simp_all add: candidate_entry_def)
  have same: "pooled ?p = pooled p" "pool_contains ?p h = pool_contains p h" "pool_key_images ?p = pool_key_images p"
    by (simp_all add: pooled_def pool_contains_def)
  obtain v spent where v: "validate_transaction_early_exit c (pc_access chain) (pool_context chain) tx blob {} = (Inr v, spent)"
    and g: "pool_get (snd (admit c chain ?e ?p)) h = Some (?e\<lparr>pe_is_fusion := tv_is_fusion v\<rparr>)"
    and sub: "pooled (snd (admit c chain ?e ?p)) \<subseteq> insert (?e\<lparr>pe_is_fusion := tv_is_fusion v\<rparr>) (pooled p)"
    by (rule admit_pooled [of ?p ?e c chain, unfolded fields same, OF _ a(1) _ _ a(3) r(1)])
      (use assms(2,3) parsed_not_empty [OF tx(1)] in auto)
  have images: "images_of (?e\<lparr>pe_is_fusion := tv_is_fusion v\<rparr>) = set (key_images_of (inputs (prefix tx)))"
    by (simp add: images_of_def fields)
  have "\<forall>q \<in> pooled p. images_of q \<inter> set (key_images_of (inputs (prefix tx))) = {}"
    using conflict_free [OF _ a(3)] assms(2) by (simp add: healthy_def pool_ok_def)
  moreover have "pc_transaction_in_chain chain h \<noteq> Inr True" using a(2) by (auto simp: unwrap_or_false_def)
  ultimately show ?thesis
    using tx a(1) g sub early_exit_accepts [OF v assms(4)] filed_fee [OF v assms(4)]
    by (intro exI [of _ tx] exI [of _ h] exI [of _ "?e\<lparr>pe_is_fusion := tv_is_fusion v\<rparr>"]) (simp add: add r(2) images fields)
qed

theorem pool_admits_sound_witness:
  "\<exists>e. pool_get (snd (pool_add sample_crypto sample_pool_chain sample_blob Network sample_pool)) (replicate 32 0) = Some e \<and>
     pe_transaction e = sample_spend \<and> value_in sample_spend = value_out sample_spend + unat (pe_fee e) \<and>
     inputs_authorised sample_crypto sample_chain (pool_context sample_pool_chain) sample_spend"
proof -
  have "answers_every_index (pc_access sample_pool_chain)" "pc_access sample_pool_chain = sample_chain" "\<not> in_zone (pool_context sample_pool_chain)"
    using sample_zone by (simp_all add: answers_every_index_def sample_pool_chain_def sample_chain_def in_zone_def pool_context_def
      context_of_def sample_ctx_def)
  then show ?thesis
    using pool_admits_sound [OF sample_admitted sample_pool_healthy sample_pool_room] sample_blob_length sample_blob_parses sample_blob_hash
    by simp blast
qed

section \<open>Rejections that stand\<close>

lemma validate_outputs_loop_height:
  "validate_outputs_loop c h k i acc None outs = (Inr s, d) \<Longrightarrow>
     validate_outputs_loop c h' k i acc None outs = (Inr s, d) \<or>
     (\<exists>a. fst (validate_outputs_loop c h' k i acc None outs) = Inl (OutputAmountTooLarge a))"
  by (induction outs arbitrary: i acc) (auto simp: Let_def split: if_splits option.splits)

text \<open>A validated transaction passes, in another pool context, every step but those whose rules name the height or the chain.\<close>

lemma fee_to_mixin_context:
  assumes "validate_fee_to_mixin tx blob ctx si so = Inr r" "is_pool_transaction ctx" "is_pool_transaction ctx'"
    "validate_fee_to_mixin tx blob ctx' si so = Inl rl"
  shows "of_rule rl = InvalidAtHeight"
  using assms by (auto simp: validate_fee_to_mixin_def validate_fee_def validate_extra_def validate_input_output_ratio_def
      validate_unlock_time_def Let_def split: sum.splits if_splits prod.splits)

lemma gather_ring_context:
  assumes "gather_ring chain ctx tx i inp = Inr r" "is_pool_transaction ctx" "is_pool_transaction ctx'"
    "answers_every_index chain" "answers_every_index chain'" "gather_ring chain' ctx' tx i inp = Inl (TxRule rl)"
  shows "of_rule rl = ChainState"
proof (cases inp)
  case (Key amount offsets ki)
  have len: "length ring = length absolute"
    if "resolve_ring ch cx amount (zip absolute found) = Inr ring" "length found = length absolute" for ch cx absolute found ring
    using resolve_ring_accepts [OF that] that(2) by auto
  obtain absolute found ring where a: "relative_offsets_to_absolute offsets = Some absolute"
    "ca_key_outputs chain amount absolute = Inr found" "resolve_ring chain ctx amount (zip absolute found) = Inr ring"
    "length ring = length (if i < length (signatures tx) then signatures tx ! i else [])"
    using assms(1,2) Key by (auto simp: Let_def split: sum.splits option.splits if_splits bool.splits)
  then have n: "length (if i < length (signatures tx) then signatures tx ! i else []) = length absolute"
    using len assms(4) by (auto simp: answers_every_index_def)
  have "of_rule e = ChainState" if "resolve_ring ch cx amount xs = Inl e" for ch cx xs e
    using that by (induction xs) (auto split: option.splits if_splits sum.splits)
  then show ?thesis
    using assms(3,5,6) Key a(1) n len by (auto simp: Let_def answers_every_index_def split: sum.splits option.splits if_splits bool.splits)
qed (use assms(1) in simp)

lemma check_inputs_context:
  assumes "is_pool_transaction ctx" "is_pool_transaction ctx'" "answers_every_index chain" "answers_every_index chain'"
  shows "check_inputs_loop c chain ctx tx h i ins = Inr () \<Longrightarrow> check_inputs_loop c chain' ctx' tx h i ins = Inl (TxRule rl) \<Longrightarrow>
    of_rule rl \<in> {ChainState, InvalidSignature}"
proof (induction ins arbitrary: i)
  case (Cons inp ins)
  obtain r where g: "gather_ring chain ctx tx i inp = Inr r" "check_inputs_loop c chain ctx tx h (Suc i) ins = Inr ()"
    using Cons.prems(1) by (auto split: sum.splits if_splits)
  show ?case
  proof (cases "gather_ring chain' ctx' tx i inp")
    case (Inl e)
    then show ?thesis using Cons.prems(2) gather_ring_context [OF g(1) assms] by auto
  next
    case (Inr r')
    then show ?thesis using Cons.prems(2) Cons.IH [OF g(2)] by (cases r') (auto split: if_splits)
  qed
qed simp

lemma early_exit_context:
  assumes "validate_transaction_early_exit c chain ctx tx blob st = (Inr v, s)" "is_pool_transaction ctx" "is_pool_transaction ctx'"
    "answers_every_index chain" "answers_every_index chain'" "\<not> in_zone ctx"
    "fst (validate_transaction_early_exit c chain' ctx' tx blob st) = Inl (TxRule rl)"
  shows "of_rule rl \<noteq> Invalid"
proof -
  obtain si so f fus d d' where i: "validate_inputs c tx 0 st None = (Inr si, s, d)"
    and o': "validate_outputs_loop c (block_height ctx) 0 0 0 None (outputs (prefix tx)) = (Inr so, d')"
    and m: "validate_fee_to_mixin tx blob ctx si so = Inr (f, fus)" and w: "check_work c chain ctx tx f fus = Inr ()"
    using assms(1)
    by (auto simp: validate_transaction_early_exit_def inline_from_outputs_def validate_outputs_def Let_def
        split: if_splits sum.splits prod.splits)
  let ?p = "cn_fast_hash c (prefix_to_bytes (prefix tx))"
  have ins: "check_inputs_loop c chain ctx tx ?p 0 (inputs (prefix tx)) = Inr ()"
    using w assms(6) by (auto simp: check_work_def Let_def split: sum.splits)
  have work: "of_rule r \<noteq> Invalid" if "check_work c chain' ctx' tx f' fus' = Inl (TxRule r)" for f' fus' r
    using that check_inputs_context [OF assms(2-5) ins]
    by (auto simp: check_work_def validate_transaction_pow_def Let_def split: sum.splits if_splits)
  show ?thesis
    using assms(7) i validate_outputs_loop_height [OF o', of "block_height ctx'"] fee_to_mixin_context [OF m assms(2,3)] work
    by (auto simp: validate_transaction_early_exit_def inline_from_outputs_def validate_outputs_def Let_def
        split: if_splits sum.splits prod.splits)
qed

lemma admit_rejected:
  assumes "fst (admit c chain e p) = Rejected rl" "of_rule rl = Invalid"
  shows "fst (validate_transaction_early_exit c (pc_access chain) (pool_context chain) (pe_transaction e) (pe_blob e) {}) = Inl (TxRule rl)"
  using assms by (auto simp: admit_def Let_def split: prod.splits sum.splits tx_error.splits if_splits)

lemma add_parsed_rejected:
  assumes "fst (add_parsed c chain tx blob h src p) = Rejected rl"
  obtains r where "fst (admit c chain (candidate_entry tx blob h (pool_now p) src) (p\<lparr>rejected := r\<rparr>)) = Rejected rl"
  using assms that by (auto simp: add_parsed_def Let_def split: prod.splits option.splits if_splits)

lemma candidate_fields [simp]:
  "pe_transaction (candidate_entry tx blob h now src) = tx" "pe_blob (candidate_entry tx blob h now src) = blob"
  "pe_hash (candidate_entry tx blob h now src) = h"
  by (simp_all add: candidate_entry_def)

lemma pool_context_is_pool [simp]: "is_pool_transaction (pool_context chain)"
  by (simp add: pool_context_def Let_def)

text \<open>C17: A rejection that is remembered for good stands for good: a blob once rejected with a rule of the category
  \<open>Invalid\<close> is admitted by no pool, at no height, by no source and on no chain whose next block is outside the checkpoint
  zone.\<close>

theorem rejection_stands:
  assumes "fst (pool_add c chain blob src p) = Rejected rl" "of_rule rl = Invalid"
    "answers_every_index (pc_access chain)" "answers_every_index (pc_access chain')" "\<not> in_zone (pool_context chain')"
  shows "fst (pool_add c chain' blob src' p') \<noteq> Added"
proof
  assume added: "fst (pool_add c chain' blob src' p') = Added"
  obtain tx h where tx: "tx_from_bytes blob = Inr tx" "tx_hash (cn_fast_hash c) tx = Inr h"
    and add': "pool_add c chain' blob src' p' = add_parsed c chain' tx blob h src' p'" by (rule pool_add_added [OF added])
  obtain v s where v: "validate_transaction_early_exit c (pc_access chain') (pool_context chain') tx blob {} = (Inr v, s)"
    using add_parsed_added(4) [OF added [unfolded add']] by (auto elim: admit_added)
  have "pool_add c chain blob src p = add_parsed c chain tx blob h src p" using tx by (simp add: pool_add_def)
  then obtain r where "fst (admit c chain (candidate_entry tx blob h (pool_now p) src) (p\<lparr>rejected := r\<rparr>)) = Rejected rl"
    using assms(1) add_parsed_rejected by metis
  from admit_rejected [OF this assms(2)]
  have "fst (validate_transaction_early_exit c (pc_access chain) (pool_context chain) tx blob {}) = Inl (TxRule rl)" by simp
  from early_exit_context [OF v _ _ assms(4,3,5) this] assms(2) show False by simp
qed

definition empty_tx_blob :: bytes where
  "empty_tx_blob = [1, 0, 0, 0, 0]"

lemma empty_rejected: "fst (pool_add sample_crypto sample_pool_chain empty_tx_blob Rpc sample_pool) = Rejected EmptyInputs"
proof -
  let ?tx = "\<lparr>prefix = \<lparr>version = 1, unlock_time = 0, inputs = [], outputs = [], extra = []\<rparr>, signatures = []\<rparr>"
  have "tx_from_bytes empty_tx_blob = Inr ?tx" "tx_hash (cn_fast_hash sample_crypto) ?tx = Inr (replicate 32 0)" by code_simp+
  moreover have v: "validate_transaction_early_exit sample_crypto sample_chain (pool_context sample_pool_chain) ?tx empty_tx_blob {} = (Inl (TxRule EmptyInputs), {})"
    by (simp add: validate_transaction_early_exit_def sample_pool_context sample_ctx_def max_tx_size_def validate_inputs_def empty_tx_blob_def)
  moreover have "fst (admit sample_crypto sample_pool_chain (candidate_entry ?tx empty_tx_blob (replicate 32 0) 0 Rpc) sample_pool) = Rejected EmptyInputs"
    using v by (simp add: admit_def sample_pool_chain_def)
  moreover have "sample_pool\<lparr>rejected := rejected sample_pool\<rparr> = sample_pool" by simp
  ultimately show ?thesis
    by (simp add: pool_add_def add_parsed_def Let_def sample_pool_chain_def)
      (simp add: sample_pool_def pool_new_def pool_contains_def cache_lookup_def is_least_profitable_def pool_config_default_def
        unwrap_or_false_def)
qed

lemma sample_pool_chain_ok: "answers_every_index (pc_access sample_pool_chain)" "\<not> in_zone (pool_context sample_pool_chain)"
  using sample_zone by (simp_all add: answers_every_index_def sample_pool_chain_def sample_chain_def in_zone_def pool_context_def
      context_of_def sample_ctx_def)

theorem rejection_stands_witness:
  "fst (pool_add sample_crypto (sample_pool_chain\<lparr>pc_top_index := 5\<rparr>) empty_tx_blob AlternativeBlock sample_filled) \<noteq> Added"
proof (rule rejection_stands [OF empty_rejected])
  show "\<not> in_zone (pool_context (sample_pool_chain\<lparr>pc_top_index := 5\<rparr>))"
    by (simp add: in_zone_def pool_context_def context_of_def Let_def sample_pool_chain_def is_in_checkpoint_zone_def top_index_def
        checkpoints_iter_def checkpoints_none_def)
qed (use sample_pool_chain_ok in simp_all)

section \<open>The checkpoint zone\<close>

text \<open>C40: Inside the checkpoint zone the pool asks neither the chain nor the signatures: the verdict on a transaction is the
  same with any signatures and on any chain, and the key-image reads, the ring resolution and the signature check are
  skipped for the pool as they are for a block.\<close>

theorem zone_skips_signatures:
  assumes "in_zone (pool_context chain)"
  shows "validate_transaction_early_exit c (pc_access chain) (pool_context chain) (tx\<lparr>signatures := sigs\<rparr>) blob st =
    validate_transaction_early_exit c access (pool_context chain) tx blob st"
proof -
  have p: "prefix (tx\<lparr>signatures := sigs\<rparr>) = prefix tx" by simp
  have "check_work c (pc_access chain) (pool_context chain) (tx\<lparr>signatures := sigs\<rparr>) f fus = check_work c access (pool_context chain) tx f fus" for f fus
    using assms by (simp add: check_work_def Let_def validate_transaction_pow_def tx_pow_difficulty_def)
  moreover have "validate_fee_to_mixin (tx\<lparr>signatures := sigs\<rparr>) blob ctx si so = validate_fee_to_mixin tx blob ctx si so" for ctx si so
    unfolding validate_fee_to_mixin_def validate_fee_def validate_extra_def validate_input_output_ratio_def validate_unlock_time_def p ..
  ultimately show ?thesis
    unfolding validate_transaction_early_exit_def inline_from_outputs_def validate_inputs_def validate_outputs_def p by (simp only:)
qed

definition zone_chain :: pool_chain where
  "zone_chain = sample_pool_chain\<lparr>pc_checkpoint_table := \<lparr>points = [(10, replicate 32 0)], disabled_from = 1000\<rparr>\<rparr>"

theorem zone_skips_signatures_witness:
  "validate_transaction_early_exit sample_crypto (pc_access zone_chain) (pool_context zone_chain) (sample_spend\<lparr>signatures := []\<rparr>) sample_blob {} =
     validate_transaction_early_exit sample_crypto sample_chain (pool_context zone_chain) sample_spend sample_blob {}"
proof (rule zone_skips_signatures)
  show "in_zone (pool_context zone_chain)"
    by (simp add: in_zone_def pool_context_def context_of_def Let_def zone_chain_def sample_pool_chain_def is_in_checkpoint_zone_def
        top_index_def checkpoints_iter_def clamp_disabled_def word_le_nat_alt)
qed

end
