(* ===== verification/Chain_Branches.thy ===== *)
theory Chain_Branches
  imports Chain_Accept
begin

text \<open>
  Alternative chains: the walk down a leaf segment ends, pruning keeps whole branches and its bounds, and forgetting a
  failed block forgets exactly what was built on it.
\<close>

section \<open>Leaf segments\<close>

lemma children_0: "children alts h = 0 \<longleftrightarrow> (\<forall>(k, b) \<in> set alts. alt_prev_hash b \<noteq> h)"
  by (auto simp: children_def filter_empty_conv)

lemma alternative_leaves_iff: "h \<in> set (alternative_leaves alts) \<longleftrightarrow> h \<in> fst ` set alts \<and> children alts h = 0"
  unfolding alternative_leaves_def children_0 by force

lemma only_child:
  assumes "map_of alts k = Some b" "map_of alts k' = Some b'"
    and "alt_prev_hash b = h" "alt_prev_hash b' = h" "\<not> children alts h > 1"
  shows "k = k'"
proof (rule ccontr)
  assume "k \<noteq> k'"
  let ?f = "filter (\<lambda>(k, b). alt_prev_hash b = h) alts"
  have "{(k, b), (k', b')} \<subseteq> set ?f" using assms(1-4) by (auto dest: map_of_SomeD)
  then have "card {(k, b), (k', b')} \<le> card (set ?f)" by (intro card_mono) simp_all
  also have "\<dots> \<le> length ?f" by (rule card_length)
  finally have "card {(k, b), (k', b')} \<le> length ?f" .
  then show False using \<open>k \<noteq> k'\<close> assms(5) by (simp add: children_def)
qed

text \<open>A path of blocks, latest first: every block but the leaf at its end is the parent of one further down, and of no other.\<close>

definition only_children :: "(hash \<times> alt_block) list \<Rightarrow> hash list \<Rightarrow> bool" where
  "only_children alts seen \<longleftrightarrow>
     distinct seen \<and>
     (\<forall>k \<in> set seen. children alts k = 0 \<or>
       (\<exists>k' b'. k' \<in> set (tl seen) \<and> map_of alts k' = Some b' \<and> alt_prev_hash b' = k \<and> \<not> children alts k > 1))"

lemma only_children_fresh:
  assumes "only_children alts seen" "seen \<noteq> []" "map_of alts (hd seen) = Some b"
  shows "alt_prev_hash b \<notin> set seen"
proof
  let ?k = "alt_prev_hash b"
  assume "?k \<in> set seen"
  moreover have "children alts ?k \<noteq> 0" using assms(3) by (auto simp: children_0 dest: map_of_SomeD)
  ultimately obtain k' b' where "k' \<in> set (tl seen)" "map_of alts k' = Some b'" "alt_prev_hash b' = ?k" "\<not> children alts ?k > 1"
    using assms(1) unfolding only_children_def by auto
  then have "hd seen \<in> set (tl seen)" using only_child [OF assms(3)] by blast
  then show False using assms(1,2) by (cases seen) (auto simp: only_children_def)
qed

lemma only_children_step:
  assumes "only_children alts seen" "seen \<noteq> []" "map_of alts (hd seen) = Some b" "\<not> children alts (alt_prev_hash b) > 1"
  shows "only_children alts (alt_prev_hash b # seen)"
proof -
  have "set (tl seen) \<subseteq> set seen" by (cases seen) auto
  then show ?thesis
    using assms only_children_fresh [OF assms(1-3)] hd_in_set [OF assms(2)] unfolding only_children_def by fastforce
qed

lemma leaf_walk_distinct:
  assumes "only_children alts seen" "seen \<noteq> []" "map_of alts (hd seen) = Some b"
  shows "distinct (leaf_walk n alts (alt_prev_hash b)) \<and> set (leaf_walk n alts (alt_prev_hash b)) \<inter> set seen = {} \<and>
    set (leaf_walk n alts (alt_prev_hash b)) \<subseteq> fst ` set alts"
  using assms
proof (induction n arbitrary: seen b)
  case (Suc n)
  note fresh = only_children_fresh [OF Suc.prems]
  show ?case
  proof (cases "map_of alts (alt_prev_hash b)")
    case (Some b')
    show ?thesis
    proof (cases "children alts (alt_prev_hash b) > 1")
      case False
      then show ?thesis
        using Suc.IH [OF only_children_step [OF Suc.prems False], of b'] Some fresh
        by (auto dest: map_of_SomeD intro: rev_image_eqI)
    qed (simp add: Some)
  qed simp
qed simp

lemma leaf_walk_short:
  assumes "distinct (map fst alts)" "leaf \<in> set (alternative_leaves alts)" "map_of alts leaf = Some b"
  shows "length (leaf_walk n alts (alt_prev_hash b)) < length alts"
proof -
  let ?w = "leaf_walk n alts (alt_prev_hash b)"
  have "only_children alts [leaf]" using assms(2) by (simp add: only_children_def alternative_leaves_iff)
  from leaf_walk_distinct [OF this, of b n] assms(3)
  have w: "distinct ?w" "leaf \<notin> set ?w" "set ?w \<subseteq> fst ` set alts" by auto
  have "leaf \<in> fst ` set alts" using assms(2) by (simp add: alternative_leaves_iff)
  then have "card (set (leaf # ?w)) \<le> card (fst ` set alts)" using w(3) by (intro card_mono) auto
  also have "\<dots> \<le> length alts" by (metis card_length length_map set_map)
  finally show ?thesis using w(1,2) distinct_card [of "leaf # ?w"] by simp
qed

lemma leaf_walk_enough: "length (leaf_walk n alts c) < n \<Longrightarrow> n \<le> m \<Longrightarrow> leaf_walk m alts c = leaf_walk n alts c"
proof (induction n arbitrary: c m)
  case (Suc n)
  then obtain m' where m: "m = Suc m'" "n \<le> m'" by (cases m) auto
  show ?case
  proof (cases "map_of alts c")
    case (Some b)
    then show ?thesis
      using Suc.prems(1) Suc.IH [of "alt_prev_hash b" m'] m by (cases "children alts c > 1") simp_all
  qed (simp add: m)
qed simp

lemma leaf_segment_path:
  assumes "distinct (map fst alts)" "leaf \<in> set (alternative_leaves alts)"
  obtains b where "map_of alts leaf = Some b" "leaf_segment alts leaf = leaf # leaf_walk (length alts) alts (alt_prev_hash b)"
    "length (leaf_walk (length alts) alts (alt_prev_hash b)) < length alts"
    "distinct (leaf_segment alts leaf)" "set (leaf_segment alts leaf) \<subseteq> fst ` set alts"
proof -
  have leaf: "leaf \<in> fst ` set alts" using assms(2) by (simp add: alternative_leaves_iff)
  then obtain b where b: "map_of alts leaf = Some b" by (meson map_of_eq_None_iff not_Some_eq)
  have "only_children alts [leaf]" using assms(2) by (simp add: only_children_def alternative_leaves_iff)
  then show ?thesis
    using b leaf leaf_walk_distinct [of alts "[leaf]" b "length alts"] leaf_walk_short [OF assms b, of "length alts"]
    by (intro that [of b]) (auto simp: leaf_segment_def)
qed

text \<open>C13: The walk down the segment of a leaf ends within one step per alternative block, whatever the links of the map: a
  larger bound on the steps gives the same segment. No block comes twice in it and every one is an alternative block.\<close>

theorem leaf_segment_ends:
  assumes "distinct (map fst alts)" "leaf \<in> set (alternative_leaves alts)" "length alts \<le> n"
  shows "\<exists>b. map_of alts leaf = Some b \<and> leaf # leaf_walk n alts (alt_prev_hash b) = leaf_segment alts leaf \<and>
    distinct (leaf_segment alts leaf) \<and> set (leaf_segment alts leaf) \<subseteq> fst ` set alts"
  using leaf_segment_path [OF assms(1,2)] leaf_walk_enough [OF _ assms(3)] by metis

text \<open>How a segment hangs together: every block is the only child of the next, and the last stands on the main chain or on a
  block with other children.\<close>

fun linked :: "(hash \<times> alt_block) list \<Rightarrow> hash \<Rightarrow> hash list \<Rightarrow> bool" where
  "linked alts k [] \<longleftrightarrow>
     (\<exists>b. map_of alts k = Some b \<and> (map_of alts (alt_prev_hash b) = None \<or> children alts (alt_prev_hash b) > 1))"
| "linked alts k (c # cs) \<longleftrightarrow>
     (\<exists>b. map_of alts k = Some b \<and> alt_prev_hash b = c) \<and> \<not> children alts c > 1 \<and> linked alts c cs"

lemma leaf_walk_linked:
  "map_of alts k = Some b \<Longrightarrow> length (leaf_walk n alts (alt_prev_hash b)) < n \<Longrightarrow> linked alts k (leaf_walk n alts (alt_prev_hash b))"
proof (induction n arbitrary: k b)
  case (Suc n)
  show ?case
  proof (cases "map_of alts (alt_prev_hash b)")
    case (Some b')
    then show ?thesis using Suc.prems Suc.IH [OF Some] by (cases "children alts (alt_prev_hash b) > 1") auto
  qed (use Suc.prems in auto)
qed simp

lemma linked_child:
  "linked alts k cs \<Longrightarrow> map_of alts k' = Some b' \<Longrightarrow> alt_prev_hash b' \<in> set cs \<Longrightarrow> k' \<in> set (k # cs)"
proof (induction cs arbitrary: k)
  case (Cons c cs)
  then show ?case using only_child [of alts k _ k' b' c] by (cases "alt_prev_hash b' = c") auto
qed simp

lemma linked_end:
  "linked alts k cs \<Longrightarrow> x \<in> set (k # cs) \<Longrightarrow> map_of alts x = Some b \<Longrightarrow> alt_prev_hash b \<notin> set cs \<Longrightarrow>
     x = last (k # cs) \<and> (map_of alts (alt_prev_hash b) = None \<or> children alts (alt_prev_hash b) > 1)"
proof (induction cs arbitrary: k)
  case (Cons c cs)
  then show ?case by (cases "x = k") auto
qed auto

lemma linked_has_child: "linked alts k cs \<Longrightarrow> c \<in> set cs \<Longrightarrow> children alts c \<noteq> 0"
proof (induction cs arbitrary: k)
  case (Cons d cs)
  then show ?case by (cases "c = d") (auto simp: children_0 dest: map_of_SomeD)
qed simp

lemma leaf_segment_linked:
  assumes "distinct (map fst alts)" "leaf \<in> set (alternative_leaves alts)"
  obtains cs where "leaf_segment alts leaf = leaf # cs" "linked alts leaf cs"
proof (rule leaf_segment_path [OF assms])
  fix b
  assume b: "map_of alts leaf = Some b" "leaf_segment alts leaf = leaf # leaf_walk (length alts) alts (alt_prev_hash b)"
    "length (leaf_walk (length alts) alts (alt_prev_hash b)) < length alts"
  show thesis by (rule that [OF b(2) leaf_walk_linked [OF b(1,3)]])
qed

section \<open>Pruning keeps whole branches\<close>

definition keeps_branches :: "(hash \<times> alt_block) list \<Rightarrow> (hash \<times> alt_block) list \<Rightarrow> bool" where
  "keeps_branches alts alts' \<longleftrightarrow>
     set alts' \<subseteq> set alts \<and>
     (\<forall>(h, b) \<in> set alts'. alt_prev_hash b \<in> fst ` set alts \<longrightarrow> alt_prev_hash b \<in> fst ` set alts')"

lemma keeps_branches_refl: "keeps_branches alts alts"
  by (auto simp: keeps_branches_def)

lemma keeps_branches_trans: "keeps_branches a b \<Longrightarrow> keeps_branches b c \<Longrightarrow> keeps_branches a c"
  unfolding keeps_branches_def by blast

lemma segment_closed:
  assumes "distinct (map fst alts)" "leaf \<in> set (alternative_leaves alts)" "(h, b) \<in> set alts"
    and "alt_prev_hash b \<in> set (leaf_segment alts leaf)"
  shows "h \<in> set (leaf_segment alts leaf)"
proof -
  obtain cs where cs: "leaf_segment alts leaf = leaf # cs" "linked alts leaf cs"
    by (rule leaf_segment_linked [OF assms(1,2)])
  have b: "map_of alts h = Some b" using assms(1,3) by simp
  have "alt_prev_hash b \<noteq> leaf" using assms(2,3) by (auto simp: alternative_leaves_iff children_0)
  then show ?thesis using linked_child [OF cs(2) b] assms(4) cs(1) by simp
qed

lemma remove_closed:
  assumes "\<And>h b. (h, b) \<in> set alts \<Longrightarrow> alt_prev_hash b \<in> set hs \<Longrightarrow> h \<in> set hs"
  shows "keeps_branches alts (remove_alts hs alts)"
  using assms unfolding keeps_branches_def remove_alts_def by fastforce

lemma remove_alts_keys: "fst ` set (remove_alts hs alts) = fst ` set alts - set hs"
  by (force simp: remove_alts_def)

lemma distinct_remove_alts: "distinct (map fst alts) \<Longrightarrow> distinct (map fst (remove_alts hs alts))"
  unfolding remove_alts_def by (rule distinct_map_filter)

lemma leaf_in_segment:
  assumes "distinct (map fst alts)" "leaf \<in> set (alternative_leaves alts)" "l \<in> set (alternative_leaves alts)"
    and "l \<in> set (leaf_segment alts leaf)"
  shows "l = leaf"
proof -
  obtain cs where cs: "leaf_segment alts leaf = leaf # cs" "linked alts leaf cs"
    by (rule leaf_segment_linked [OF assms(1,2)])
  have "l \<notin> set cs" using linked_has_child [OF cs(2), of l] assms(3) by (auto simp: alternative_leaves_iff)
  then show ?thesis using assms(4) cs(1) by simp
qed

lemma leaf_stays: "l \<in> set (alternative_leaves alts) \<Longrightarrow> l \<notin> set hs \<Longrightarrow> l \<in> set (alternative_leaves (remove_alts hs alts))"
  by (auto simp: alternative_leaves_iff remove_alts_keys children_0) (auto simp: remove_alts_def)

text \<open>Taking a whole segment away uncovers no leaf: what it stood on has other children.\<close>

lemma segment_uncovers_nothing:
  assumes d: "distinct (map fst alts)" and w: "w \<in> set (alternative_leaves alts)"
    and l: "l \<in> set (alternative_leaves (remove_alts (leaf_segment alts w) alts))"
  shows "l \<in> set (alternative_leaves alts)"
proof (rule ccontr)
  let ?seg = "leaf_segment alts w"
  obtain cs where cs: "?seg = w # cs" "linked alts w cs" by (rule leaf_segment_linked [OF d w])
  assume not: "l \<notin> set (alternative_leaves alts)"
  have l': "l \<in> fst ` set alts" "l \<notin> set ?seg" using l by (auto simp: alternative_leaves_iff remove_alts_keys)
  have gone: "h \<in> set ?seg" if "(h, b) \<in> set alts" "alt_prev_hash b = l" for h b
    using l that by (auto simp: alternative_leaves_iff children_0 remove_alts_def)
  have one: "h = last (w # cs) \<and> children alts l > 1" if "(h, b) \<in> set alts" "alt_prev_hash b = l" for h b
  proof -
    have b: "map_of alts h = Some b" using d that(1) by simp
    have "alt_prev_hash b \<notin> set cs" using that(2) l'(2) cs(1) by simp
    moreover have "map_of alts l \<noteq> None" using l'(1) by (simp add: map_of_eq_None_iff)
    ultimately show ?thesis using linked_end [OF cs(2) _ b] gone [OF that] cs(1) that(2) by auto
  qed
  obtain h b where hb: "(h, b) \<in> set alts" "alt_prev_hash b = l"
    using not l'(1) by (auto simp: alternative_leaves_iff children_0)
  let ?f = "filter (\<lambda>(k, b). alt_prev_hash b = l) alts"
  have "fst ` set ?f \<subseteq> {last (w # cs)}" using one by auto
  then have "card (fst ` set ?f) \<le> 1" using card_mono [of "{last (w # cs)}"] by fastforce
  moreover have "distinct (map fst ?f)" using d by (rule distinct_map_filter)
  then have "card (fst ` set ?f) = length ?f" using distinct_card [of "map fst ?f"] by simp
  ultimately show False using one [OF hb] by (simp add: children_def)
qed

lemma leaves_fewer:
  assumes "distinct (map fst alts)" "set (alternative_leaves alts') \<subseteq> set (alternative_leaves alts)" "distinct (map fst alts')"
  shows "length (alternative_leaves alts') \<le> length (alternative_leaves alts)"
proof -
  have "distinct (alternative_leaves a)" if "distinct (map fst a)" for a using that by (simp add: alternative_leaves_def)
  then have "card (set (alternative_leaves alts)) = length (alternative_leaves alts)"
    "card (set (alternative_leaves alts')) = length (alternative_leaves alts')" using assms by (simp_all add: distinct_card)
  then show ?thesis using card_mono [OF _ assms(2)] by simp
qed

lemma least_leaf_None: "least_leaf as = None \<longleftrightarrow> as = []"
  by (induction "as") (auto split: option.splits)

lemma weakest_leaf_None:
  assumes "weakest_leaf exclude alts = None" "l \<in> set (alternative_leaves alts)"
  shows "exclude = Some l"
proof (rule ccontr)
  assume "exclude \<noteq> Some l"
  obtain b where b: "(l, b) \<in> set alts" using assms(2) by (auto simp: alternative_leaves_iff)
  have "filter (\<lambda>(h, b). h \<in> set (alternative_leaves alts) \<and> Some h \<noteq> exclude) alts = []"
    using assms(1) by (simp add: weakest_leaf_def least_leaf_None)
  then have "\<not> (l \<in> set (alternative_leaves alts) \<and> Some l \<noteq> exclude)" using b unfolding filter_empty_conv by blast
  then show False using assms(2) \<open>exclude \<noteq> Some l\<close> by simp
qed

text \<open>What every pass keeps.\<close>

definition pruned_from :: "hash option \<Rightarrow> (hash \<times> alt_block) list \<Rightarrow> (hash \<times> alt_block) list \<Rightarrow> bool" where
  "pruned_from exclude alts alts' \<longleftrightarrow>
     distinct (map fst alts') \<and> keeps_branches alts alts' \<and>
     (\<forall>l. exclude = Some l \<and> l \<in> set (alternative_leaves alts) \<longrightarrow> l \<in> set (alternative_leaves alts'))"

lemma pruned_from_trans: "pruned_from e a b \<Longrightarrow> pruned_from e b c \<Longrightarrow> pruned_from e a c"
  unfolding pruned_from_def using keeps_branches_trans by blast

lemma pruned_from_segment:
  assumes "distinct (map fst alts)" "w \<in> set (alternative_leaves alts)" "Some w \<noteq> exclude"
  shows "pruned_from exclude alts (remove_alts (leaf_segment alts w) alts)"
  unfolding pruned_from_def
  using distinct_remove_alts [OF assms(1)] remove_closed segment_closed [OF assms(1,2)] leaf_stays
    leaf_in_segment [OF assms(1,2)] assms(3) by blast

lemma drop_weakest_spec:
  assumes "distinct (map fst alts)"
  shows "pruned_from exclude alts (drop_weakest P exclude alts) \<and>
    set (alternative_leaves (drop_weakest P exclude alts)) \<subseteq> set (alternative_leaves alts) \<and>
    (\<not> P (drop_weakest P exclude alts) \<or> (\<forall>l \<in> set (alternative_leaves (drop_weakest P exclude alts)). exclude = Some l))"
  using assms
proof (induction P exclude alts rule: drop_weakest.induct)
  case (1 P exclude alts)
  show ?case
  proof (cases "P alts \<and> weakest_leaf exclude alts \<noteq> None")
    case True
    then obtain w where w: "weakest_leaf exclude alts = Some w" by blast
    let ?alts = "remove_alts (leaf_segment alts w) alts"
    note mem = weakest_leaf_mem [OF w]
    have step: "drop_weakest P exclude alts = drop_weakest P exclude ?alts"
      using True w by (subst drop_weakest.simps) simp
    note first = pruned_from_segment [OF 1(2) mem(2) mem(3)]
    have "distinct (map fst ?alts)" by (rule distinct_remove_alts [OF 1(2)])
    then show ?thesis
      using 1(1) [OF conjunct1 [OF True] w] pruned_from_trans [OF first] segment_uncovers_nothing [OF 1(2) mem(2)]
      unfolding step by blast
  next
    case False
    then have "drop_weakest P exclude alts = alts" by (subst drop_weakest.simps) (auto split: option.splits)
    then show ?thesis
      using False 1(2) weakest_leaf_None by (auto simp: pruned_from_def keeps_branches_refl)
  qed
qed

lemma stale_segments_pruned:
  assumes "distinct (map fst alts)"
  shows "pruned_from exclude alts (remove_alts (stale_segments t exclude alts) alts)"
proof -
  obtain leaves where s: "stale_segments t exclude alts = concat (map (leaf_segment alts) leaves)"
    "set leaves \<subseteq> set (alternative_leaves alts)" "\<forall>l \<in> set leaves. Some l \<noteq> exclude"
    unfolding stale_segments_def by fastforce
  have "h \<in> set (stale_segments t exclude alts)"
    if "(h, b) \<in> set alts" "alt_prev_hash b \<in> set (stale_segments t exclude alts)" for h b
    using that segment_closed [OF assms _ that(1)] s(2) unfolding s(1) by fastforce
  moreover have "l \<notin> set (stale_segments t exclude alts)" if "exclude = Some l" "l \<in> set (alternative_leaves alts)" for l
    using leaf_in_segment [OF assms _ that(2)] s(2,3) that(1) unfolding s(1) by fastforce
  ultimately show ?thesis
    unfolding pruned_from_def using distinct_remove_alts [OF assms] remove_closed leaf_stays by blast
qed

text \<open>C12: Pruning takes whole leaf segments: no remaining block loses the block it is built on, the branch being extended
  stays, and at most fifty branches and a hundred blocks remain, or the branch being extended alone.\<close>

theorem prune_keeps_branches:
  assumes "distinct (map fst (alt_blocks st))" "tip st = Some t"
  shows "let alts' = alt_blocks (prune_alternative_chains exclude st) in
    keeps_branches (alt_blocks st) alts' \<and>
    (\<forall>l. exclude = Some l \<and> l \<in> set (alternative_leaves (alt_blocks st)) \<longrightarrow> l \<in> set (alternative_leaves alts')) \<and>
    length (alternative_leaves alts') \<le> 50 \<and>
    (length alts' \<le> 100 \<or> set (alternative_leaves alts') \<subseteq> set_option exclude)"
proof -
  define many where "many = (\<lambda>alts. length (alternative_leaves alts) > CRYPTONOTE_MAX_ALT_CHAIN_COUNT)"
  define big where "big = (\<lambda>alts :: (hash \<times> alt_block) list. length alts > CRYPTONOTE_MAX_ALT_BLOCK_COUNT)"
  define a1 where "a1 = remove_alts (stale_segments t exclude (alt_blocks st)) (alt_blocks st)"
  define a2 where "a2 = drop_weakest many exclude a1"
  define a3 where "a3 = drop_weakest big exclude a2"
  have p1: "pruned_from exclude (alt_blocks st) a1" unfolding a1_def by (rule stale_segments_pruned [OF assms(1)])
  then have d1: "distinct (map fst a1)" by (simp add: pruned_from_def)
  note s2 = drop_weakest_spec [OF d1, of exclude many, folded a2_def]
  then have d2: "distinct (map fst a2)" by (simp add: pruned_from_def)
  note s3 = drop_weakest_spec [OF d2, of exclude big, folded a3_def]
  have p: "pruned_from exclude (alt_blocks st) a3" using p1 s2 s3 pruned_from_trans by blast
  then have d3: "distinct (map fst a3)" by (simp add: pruned_from_def)
  have "length (alternative_leaves a2) \<le> 50"
  proof (rule ccontr)
    assume l: "\<not> length (alternative_leaves a2) \<le> 50"
    then have "set (alternative_leaves a2) \<subseteq> set_option exclude"
      using s2 by (auto simp: many_def CRYPTONOTE_MAX_ALT_CHAIN_COUNT_def not_le)
    then have "card (set (alternative_leaves a2)) \<le> card (set_option exclude)" by (intro card_mono) simp_all
    moreover have "distinct (alternative_leaves a2)" using d2 by (simp add: alternative_leaves_def)
    ultimately show False using l by (cases exclude) (simp_all add: distinct_card)
  qed
  moreover have "length (alternative_leaves a3) \<le> length (alternative_leaves a2)"
    using s3 by (intro leaves_fewer [OF d2 _ d3]) blast
  moreover have "length a3 \<le> 100 \<or> set (alternative_leaves a3) \<subseteq> set_option exclude"
    using s3 by (auto simp: big_def CRYPTONOTE_MAX_ALT_BLOCK_COUNT_def not_less)
  moreover have "alt_blocks (prune_alternative_chains exclude st) = a3"
    using assms(2) by (simp add: prune_alternative_chains_def prune_alts_def Let_def a1_def a2_def a3_def many_def big_def)
  ultimately show ?thesis using p by (simp add: pruned_from_def Let_def)
qed

definition two_alts :: "(hash \<times> alt_block) list" where
  "two_alts =
     [([1], \<lparr>alt_index = 1, alt_prev_hash = [0], alt_info = one_block_info, alt_block_blob = [], alt_tx_blobs = []\<rparr>),
      ([2], \<lparr>alt_index = 2, alt_prev_hash = [1], alt_info = one_block_info, alt_block_blob = [], alt_tx_blobs = []\<rparr>)]"

lemma two_alts_facts: "distinct (map fst two_alts)" "alternative_leaves two_alts = [[2]]" "length two_alts = 2"
  by (simp_all add: two_alts_def alternative_leaves_def)

theorem prune_keeps_branches_witness:
  "let alts' = alt_blocks (prune_alternative_chains (Some [2]) (one_block_chain\<lparr>alt_blocks := two_alts, tip := Some 500\<rparr>)) in
    keeps_branches two_alts alts' \<and> [2] \<in> set (alternative_leaves alts') \<and> length (alternative_leaves alts') \<le> 50"
proof -
  let ?st = "one_block_chain\<lparr>alt_blocks := two_alts, tip := Some 500\<rparr>"
  have st: "alt_blocks ?st = two_alts" "tip ?st = Some 500" by simp_all
  have "distinct (map fst (alt_blocks ?st))" using two_alts_facts(1) st(1) by simp
  note kept = prune_keeps_branches [OF this st(2), of "Some [2]", unfolded Let_def st(1) two_alts_facts(2)]
  then show ?thesis unfolding Let_def by (metis list.set_intros(1))
qed

theorem leaf_segment_ends_witness:
  "\<exists>b. map_of two_alts [2] = Some b \<and> [2] # leaf_walk 7 two_alts (alt_prev_hash b) = leaf_segment two_alts [2] \<and>
    distinct (leaf_segment two_alts [2]) \<and> set (leaf_segment two_alts [2]) \<subseteq> fst ` set two_alts"
  using two_alts_facts by (intro leaf_segment_ends) simp_all

section \<open>Forgetting a branch\<close>

inductive built_on :: "(hash \<times> alt_block) list \<Rightarrow> hash \<Rightarrow> hash \<Rightarrow> bool" for alts root where
  root: "built_on alts root root"
| child: "(h, b) \<in> set alts \<Longrightarrow> built_on alts root (alt_prev_hash b) \<Longrightarrow> built_on alts root h"

lemma doom_pass_sound:
  assumes "\<forall>h \<in> d. built_on alts root h"
  shows "\<forall>h \<in> doom_pass alts d. built_on alts root h"
proof -
  have sound: "\<forall>h \<in> fold (\<lambda>(h, b) d. if alt_prev_hash b \<in> d then insert h d else d) as d. built_on alts root h"
    if "set as \<subseteq> set alts" "\<forall>h \<in> d. built_on alts root h" for "as" d
    using that
  proof (induction "as" arbitrary: d)
    case (Cons a as)
    obtain h b where a: "a = (h, b)" by (cases a)
    have "\<forall>k \<in> (if alt_prev_hash b \<in> d then insert h d else d). built_on alts root k"
      using Cons.prems a built_on.child [of h b alts root] by auto
    then show ?case using Cons.IH Cons.prems(1) by (simp add: a)
  qed simp
  show ?thesis unfolding doom_pass_def by (rule sound [OF order.refl assms])
qed

lemma doom_pass_closed:
  assumes "doom_pass alts d = d" "(h, b) \<in> set alts" "alt_prev_hash b \<in> d"
  shows "h \<in> d"
proof -
  have mono: "d \<subseteq> fold (\<lambda>(h, b) d. if alt_prev_hash b \<in> d then insert h d else d) as d" for "as" :: "(hash \<times> alt_block) list" and d
    using doom_pass_bounds(1) [where d = d and alts = "as"] by (simp add: doom_pass_def)
  obtain xs ys where alts: "alts = xs @ (h, b) # ys" using assms(2) by (meson split_list)
  let ?d = "fold (\<lambda>(h, b) d. if alt_prev_hash b \<in> d then insert h d else d) xs d"
  have "alt_prev_hash b \<in> ?d" using mono assms(3) by blast
  then have "h \<in> doom_pass alts d" using mono [of "insert h ?d" ys] by (auto simp: doom_pass_def alts)
  then show ?thesis using assms(1) by simp
qed

lemma doom_loop_built_on:
  assumes "root \<in> d" "\<forall>h \<in> d. built_on alts root h"
  shows "doom_loop alts d = {h. built_on alts root h}"
  using assms
proof (induction alts d rule: doom_loop.induct)
  case (1 alts d)
  show ?case
  proof (cases "doom_pass alts d = d")
    case True
    have "h \<in> d" if "built_on alts root h" for h
      using that by induction (use 1(2) doom_pass_closed [OF True] in auto)
    then show ?thesis using True 1(3) by (subst doom_loop.simps) (auto simp: Let_def)
  next
    case False
    have "root \<in> doom_pass alts d" using doom_pass_bounds(1) [where d = d and alts = alts] 1(2) by blast
    then show ?thesis
      using False 1(1) [OF refl False] doom_pass_sound [OF 1(3)] by (subst doom_loop.simps) (simp add: Let_def)
  qed
qed

text \<open>C14: Forgetting a block that failed removes exactly it and the alternative blocks built on it, however the map is ordered.\<close>

theorem drop_subtree_exact:
  "drop_alternative_subtree root st =
     st\<lparr>alt_blocks := filter (\<lambda>(h, b). \<not> built_on (alt_blocks st) root h) (alt_blocks st)\<rparr>"
  using doom_loop_built_on [of root "{root}" "alt_blocks st"] built_on.root
  by (simp add: drop_alternative_subtree_def)

end
