(* ===== verification/Chain_Rules.thy ===== *)
theory Chain_Rules
  imports Chain_Branches
begin

text \<open>
  What the acceptance of a block guarantees. The checks are read back from an accepted block: the rules of the block
  and of its transactions through the locale of the reads a validator relies on, the reward, the checkpoint or the
  work. Then what the operations leave alone, that a proof-of-work hash computed ahead changes nothing, and where an
  added block ends up.
\<close>

section \<open>Reading results\<close>

lemma and_then_Inr [simp]: "and_then x f = Inr y \<longleftrightarrow> (\<exists>a. x = Inr a \<and> f a = Inr y)"
  by (auto simp: and_then_def split: sum.splits)

lemma lift_Inr [simp]: "lift x = Inr y \<longleftrightarrow> x = Inr y"
  by (cases x) (auto simp: lift_def)

lemma refuse_Inr [simp]: "refuse rl \<noteq> Inr y"
  by (simp add: refuse_def)

lemma traverse_length: "traverse f xs = Inr ys \<Longrightarrow> length ys = length xs"
  by (induction xs arbitrary: ys) auto

section \<open>The chain a transaction is checked against\<close>

text \<open>What the validator of transactions relies on, and what it gives in return.\<close>

locale chain_reads =
  fixes chain :: chain_access
  assumes answers: "answers_every_index chain"
begin

lemma accepted_transactions:
  assumes "validate_block_transactions c chain ctx hashes 0 0 {} batch_new txs = Inr (cumulative_fee, spent)"
  shows "distinct (concat (map (\<lambda>t. key_images_of (inputs (prefix (fst t)))) txs))"
    and "spent = set (concat (map (\<lambda>t. key_images_of (inputs (prefix (fst t)))) txs))"
    and "(tx, blob) \<in> set txs \<Longrightarrow> value_out tx \<le> value_in tx"
    and "(tx, blob) \<in> set txs \<Longrightarrow> \<not> in_zone ctx \<Longrightarrow> inputs_authorised c chain ctx tx"
    and "unat cumulative_fee = min (\<Sum>(tx, blob)\<leftarrow>txs. value_in tx - value_out tx) (2 ^ 64 - 1)"
proof -
  have "validate_block_sequential c chain ctx hashes 0 0 {} txs = Inr (cumulative_fee, spent)"
    using assms by (simp add: validate_block_transactions_batch)
  note accepts = validate_block_sequential_accepts [OF answers this, unfolded Let_def]
  show "distinct (concat (map (\<lambda>t. key_images_of (inputs (prefix (fst t)))) txs))"
    "spent = set (concat (map (\<lambda>t. key_images_of (inputs (prefix (fst t)))) txs))"
    "unat cumulative_fee = min (\<Sum>(tx, blob)\<leftarrow>txs. value_in tx - value_out tx) (2 ^ 64 - 1)"
    using accepts by simp_all
  show "value_out tx \<le> value_in tx" "\<not> in_zone ctx \<Longrightarrow> inputs_authorised c chain ctx tx" if "(tx, blob) \<in> set txs"
    using accepts that by blast+
qed

end

interpretation stored: chain_reads "chain_access_of st" for st
  by unfold_locales (simp add: answers_every_index_def chain_access_of_def key_outputs_def traverse_length)

section \<open>A block on the main chain\<close>

lemma validate_main_parts:
  assumes "validate_main P hint st block tx_blobs h prev = Inr (txs, spent, info, difficulty)"
  obtains full_size miner fees par r where
    "block_checks P st (main_chain prev) prev block tx_blobs = Inr (txs, full_size, miner, difficulty)"
    "checkpoint_or_proof_of_work P hint st block (claimed_index_of block) h difficulty = Inr ()"
    "validate_block_transactions (pr_crypto P) (chain_access_of st) (block_context st prev block)
       (bt_transaction_hashes block) 0 0 {} batch_new (zip txs tx_blobs) = Inr (fees, spent)"
    "reward_check st (main_chain prev) prev block full_size fees miner = Inr (par, r)"
    "new_block_info block h full_size difficulty par r (length txs) = Inr info"
  using assms by (cases "txs = []") (auto simp: validate_main_def Let_def split: if_splits)

lemma coinbase_outputs_total:
  "coinbase_outputs c acc vs = Inr paid \<Longrightarrow> unat paid = unat acc + (\<Sum>v\<leftarrow>vs. unat (out_amount v))"
proof (induction vs arbitrary: acc)
  case (Cons v vs)
  then show ?case by (auto simp: checked_add_Some split: if_splits option.splits)
qed simp

lemma validate_block_accepts:
  assumes "validate_block c st block view prev = Inr miner"
  shows "coinbase_height block = Some (ucast prev + 1)" "claimed_index_of block = ucast prev + 1"
    "bt_major_version block = block_major_version_for_index (ucast prev + 1)"
    "bt_timestamp block \<le> saturating_add (clock st) (block_future_time_limit (ucast prev + 1))"
    "unlock_time (prefix (bt_base_transaction block)) = ucast prev + 1 + CRYPTONOTE_MINED_MONEY_UNLOCK_WINDOW"
    "unat miner = (\<Sum>v\<leftarrow>outputs (prefix (bt_base_transaction block)). unat (out_amount v))"
proof -
  obtain i where ins: "inputs (prefix (bt_base_transaction block)) = [Base i]" "i = ucast prev + 1"
      "unlock_time (prefix (bt_base_transaction block)) = ucast prev + 1 + CRYPTONOTE_MINED_MONEY_UNLOCK_WINDOW"
      "coinbase_outputs c 0 (outputs (prefix (bt_base_transaction block))) = Inr miner"
    using assms
    by (auto simp: validate_block_def check_coinbase_def Let_def split: if_splits list.splits input.splits)
  then show height: "coinbase_height block = Some (ucast prev + 1)" "claimed_index_of block = ucast prev + 1"
    by (simp_all add: coinbase_height_def claimed_index_of_def)
  show "bt_major_version block = block_major_version_for_index (ucast prev + 1)"
    using assms by (simp add: validate_block_def height Let_def split: if_splits)
  show "bt_timestamp block \<le> saturating_add (clock st) (block_future_time_limit (ucast prev + 1))"
    using assms by (auto simp: validate_block_def check_time_def Let_def split: if_splits)
  show "unlock_time (prefix (bt_base_transaction block)) = ucast prev + 1 + CRYPTONOTE_MINED_MONEY_UNLOCK_WINDOW" by (rule ins(3))
  show "unat miner = (\<Sum>v\<leftarrow>outputs (prefix (bt_base_transaction block)). unat (out_amount v))"
    using coinbase_outputs_total [OF ins(4)] by simp
qed

lemma checkpoint_or_work_accepts:
  assumes "checkpoint_or_proof_of_work P hint st block i h d = Inr ()"
  shows "if is_in_checkpoint_zone i (cs_checkpoints st) then check_block (ucast i) h (cs_checkpoints st)
    else proof_of_work_passes P hint st block h d = Inr True"
  using assms by (auto simp: checkpoint_or_proof_of_work_def split: if_splits option.splits)

lemma push_block_tip:
  assumes "push_block H i block blob blobs txs info spent st = (Inr (), st')" "0 < recent_window (cfg st)"
  shows "tip st' = Some i" "tip_info st' = Some info" "cfg st' = cfg st" "alt_blocks st' = alt_blocks st"
    "unwound st' = unwound st" "cs_checkpoints st' = cs_checkpoints st" "clock st' = clock st"
proof -
  obtain ops m where st': "st' = (pushed i info ops st)\<lparr>median_size := m\<rparr>"
    using assms(1) by (auto simp: push_block_def update_block_median_size_def pushed_def Let_def split: sum.splits option.splits)
  have "Suc 0 - recent_window (cfg st) = 0" using assms(2) by simp
  then have "tip_info st' = Some info" by (simp add: st' tip_info_def pushed_def Let_def)
  then show "tip st' = Some i" "tip_info st' = Some info" "cfg st' = cfg st" "alt_blocks st' = alt_blocks st"
    "unwound st' = unwound st" "cs_checkpoints st' = cs_checkpoints st" "clock st' = clock st"
    by (simp_all add: st' pushed_def)
qed

lemma block_checks_accepts:
  assumes "block_checks P st view prev block blobs = Inr (txs, full_size, miner, d)"
  shows "parse_transactions block blobs = Inr txs" "length txs = length blobs"
    "validate_block (pr_crypto P) st block view prev = Inr miner"
    "check_transaction_list (pr_hash P) block txs (claimed_index_of block) (strict_list st) = Inr ()"
    "difficulty_for_next_block st view prev = Inr (Inr (Some d))"
proof -
  obtain coinbase where coinbase: "tx_to_bytes (bt_base_transaction block) = Inr coinbase"
    using assms by (cases "tx_to_bytes (bt_base_transaction block)") (auto simp: block_checks_def)
  note checks = assms [unfolded block_checks_def coinbase sum.case Let_def]
  obtain dd where dd: "difficulty_for_next_block st view prev = Inr dd" using checks by (auto split: if_splits)
  have "dd = Inr (Some d)" using checks dd by (cases dd rule: sum.exhaust; cases "projr dd") (auto split: if_splits)
  then show "parse_transactions block blobs = Inr txs" "validate_block (pr_crypto P) st block view prev = Inr miner"
    "check_transaction_list (pr_hash P) block txs (claimed_index_of block) (strict_list st) = Inr ()"
    "difficulty_for_next_block st view prev = Inr (Inr (Some d))"
    using checks dd by (auto split: if_splits)
  then show "length txs = length blobs" by (auto simp: parse_transactions_def dest: traverse_length split: if_splits)
qed

lemma block_checks_size:
  assumes "block_checks P st view prev block blobs = Inr (txs, full_size, miner, d)"
  obtains coinbase where "tx_to_bytes (bt_base_transaction block) = Inr coinbase"
    "full_size = of_nat (length coinbase + sum_list (map length blobs))" "full_size \<le> max_block_cumulative_size (ucast (prev + 1))"
proof -
  obtain coinbase where coinbase: "tx_to_bytes (bt_base_transaction block) = Inr coinbase"
    using assms by (cases "tx_to_bytes (bt_base_transaction block)") (auto simp: block_checks_def)
  note checks = assms [unfolded block_checks_def coinbase sum.case Let_def]
  obtain dd where dd: "difficulty_for_next_block st view prev = Inr dd" using checks by (auto split: if_splits)
  have "dd = Inr (Some d)" using checks dd by (cases dd rule: sum.exhaust; cases "projr dd") (auto split: if_splits)
  then show thesis using checks dd by (intro that [OF coinbase]) (auto split: if_splits)
qed

lemma reward_check_accepts:
  assumes "reward_check st view prev block full_size fees miner = Inr (par, r)"
  obtains m where "info_or_missing st view prev = Inr par" "reward_size_median st view prev = Inr m"
    "get_block_reward (bt_major_version block) m full_size (bi_already_generated_coins par) fees (claimed_index_of block) =
       Inr (Some r)" "miner = reward r"
proof -
  obtain p m where p: "info_or_missing st view prev = Inr p" "reward_size_median st view prev = Inr m"
    using assms by (auto simp: reward_check_def)
  then show thesis
    using assms by (intro that [of m]) (auto simp: reward_check_def split: sum.splits option.splits if_splits)
qed

lemma add_to_main_accepts:
  assumes "add_to_main P hint block blob blobs h prev st = (Inr out, st')"
  obtains txs spent info where "validate_main P hint st block blobs h prev = Inr (txs, spent, info, ao_difficulty out)"
    "push_block (pr_hash P) (prev + 1) block blob blobs txs info spent st = (Inr (), st')"
    "out = \<lparr>ao_index = prev + 1, ao_hash = h, ao_cumulative_difficulty = bi_cumulative_difficulty info,
      ao_already_generated_coins = bi_already_generated_coins info, ao_difficulty = ao_difficulty out, ao_status = Main\<rparr>"
  using assms by (auto simp: add_to_main_def split: sum.splits prod.splits)

text \<open>C1: A block accepted on the main chain stands at the height its coinbase claims and has the version scheduled there; no
  key image occurs twice in it and none of its transactions creates value; outside the checkpoint zone every input is
  unspent and its own signatures hold over unlocked outputs of the stored chain; the block's size, the bytes of the
  coinbase and of the transactions, is within the limit of the height; the coinbase pays exactly the reward of that size
  against the median size of the last blocks, the coins so far and the fees; it is the block of its checkpoint or
  carries the work of the difficulty computed from the blocks before it; and it is the new tip, with its timestamp,
  size, coins and cumulative difficulty on record. The window of blocks kept in memory is not empty.\<close>

theorem main_block_sound:
  assumes "add_to_main P hint block blob blobs h prev st = (Inr out, st')" "0 < recent_window (cfg st)"
  shows "\<exists>txs fees par m coinbase full_size r info. parse_transactions block blobs = Inr txs \<and>
    coinbase_height block = Some (ucast prev + 1) \<and> bt_major_version block = block_major_version_for_index (ucast prev + 1) \<and>
    bt_timestamp block \<le> saturating_add (clock st) (block_future_time_limit (ucast prev + 1)) \<and>
    distinct (concat (map (\<lambda>tx. key_images_of (inputs (prefix tx))) txs)) \<and>
    (\<forall>tx \<in> set txs. value_out tx \<le> value_in tx \<and>
       (\<not> in_zone (block_context st prev block) \<longrightarrow>
          inputs_authorised (pr_crypto P) (chain_access_of st) (block_context st prev block) tx)) \<and>
    unat fees = min (\<Sum>tx\<leftarrow>txs. value_in tx - value_out tx) (2 ^ 64 - 1) \<and>
    tx_to_bytes (bt_base_transaction block) = Inr coinbase \<and>
    full_size = of_nat (length coinbase + sum_list (map length blobs)) \<and> full_size \<le> max_block_cumulative_size (ucast (prev + 1)) \<and>
    info_or_missing st (main_chain prev) prev = Inr par \<and> reward_size_median st (main_chain prev) prev = Inr m \<and>
    get_block_reward (bt_major_version block) m full_size (bi_already_generated_coins par) fees (ucast prev + 1) = Inr (Some r) \<and>
    (\<Sum>v\<leftarrow>outputs (prefix (bt_base_transaction block)). unat (out_amount v)) = unat (reward r) \<and>
    difficulty_for_next_block st (main_chain prev) prev = Inr (Inr (Some (ao_difficulty out))) \<and>
    (if is_in_checkpoint_zone (ucast prev + 1) (cs_checkpoints st) then check_block (ucast (ucast prev + 1 :: u64)) h (cs_checkpoints st)
     else proof_of_work_passes P hint st block h (ao_difficulty out) = Inr True) \<and>
    tip st' = Some (prev + 1) \<and> tip_info st' = Some info \<and> bi_block_hash info = h \<and>
    bi_timestamp info = bt_timestamp block \<and> unat (bi_block_size info) = unat full_size \<and>
    bi_already_generated_coins info = bi_already_generated_coins par + of_int (emission_change r) \<and>
    bi_cumulative_difficulty info = bi_cumulative_difficulty par + ao_difficulty out"
proof -
  obtain txs spent info where main: "validate_main P hint st block blobs h prev = Inr (txs, spent, info, ao_difficulty out)"
    "push_block (pr_hash P) (prev + 1) block blob blobs txs info spent st = (Inr (), st')"
    by (rule add_to_main_accepts [OF assms(1)])
  obtain full_size miner fees par r where parts:
    "block_checks P st (main_chain prev) prev block blobs = Inr (txs, full_size, miner, ao_difficulty out)"
    "checkpoint_or_proof_of_work P hint st block (claimed_index_of block) h (ao_difficulty out) = Inr ()"
    "validate_block_transactions (pr_crypto P) (chain_access_of st) (block_context st prev block)
       (bt_transaction_hashes block) 0 0 {} batch_new (zip txs blobs) = Inr (fees, spent)"
    "reward_check st (main_chain prev) prev block full_size fees miner = Inr (par, r)"
    "new_block_info block h full_size (ao_difficulty out) par r (length txs) = Inr info"
    by (rule validate_main_parts [OF main(1)])
  note checks = block_checks_accepts [OF parts(1)]
  note blk = validate_block_accepts [OF checks(3)]
  note accepted = stored.accepted_transactions [OF parts(3)]
  obtain coinbase where sizes: "tx_to_bytes (bt_base_transaction block) = Inr coinbase"
    "full_size = of_nat (length coinbase + sum_list (map length blobs))" "full_size \<le> max_block_cumulative_size (ucast (prev + 1))"
    by (rule block_checks_size [OF parts(1)])
  obtain m where m: "info_or_missing st (main_chain prev) prev = Inr par" "reward_size_median st (main_chain prev) prev = Inr m"
    "get_block_reward (bt_major_version block) m full_size (bi_already_generated_coins par) fees (claimed_index_of block) =
       Inr (Some r)" "miner = reward r"
    by (rule reward_check_accepts [OF parts(4)])
  have fst: "map (\<lambda>t. f (fst t)) (zip txs blobs) = map f txs" for f :: "transaction \<Rightarrow> 'x"
    using map_map [of f fst "zip txs blobs"] checks(2) by (simp add: comp_def)
  have both: "\<exists>b. (tx, b) \<in> set (zip txs blobs)" if "tx \<in> set txs" for tx
    using that in_set_impl_in_set_zip1 [OF checks(2)] by blast
  have "\<forall>tx \<in> set txs. value_out tx \<le> value_in tx \<and>
      (\<not> in_zone (block_context st prev block) \<longrightarrow>
         inputs_authorised (pr_crypto P) (chain_access_of st) (block_context st prev block) tx)"
    using accepted(3,4) both by blast
  moreover have "unat fees = min (\<Sum>tx\<leftarrow>txs. value_in tx - value_out tx) (2 ^ 64 - 1)"
    using accepted(5) fst [of "\<lambda>tx. value_in tx - value_out tx"] by (simp add: case_prod_unfold)
  moreover have "distinct (concat (map (\<lambda>tx. key_images_of (inputs (prefix tx))) txs))"
    using accepted(1) fst [of "\<lambda>tx. key_images_of (inputs (prefix tx))"] by simp
  moreover have "bi_block_hash info = h" "bi_timestamp info = bt_timestamp block" "unat (bi_block_size info) = unat full_size"
    "bi_already_generated_coins info = bi_already_generated_coins par + of_int (emission_change r)"
    "bi_cumulative_difficulty info = bi_cumulative_difficulty par + ao_difficulty out"
    using parts(5) by (auto simp: new_block_info_def unat_ucast_down split: if_splits)
  ultimately show ?thesis
    using checks(1,5) blk m sizes checkpoint_or_work_accepts [OF parts(2), unfolded blk(2)] push_block_tip [OF main(2) assms(2)]
    by - (rule exI [of _ txs], rule exI [of _ fees], rule exI [of _ par], rule exI [of _ m],
        rule exI [of _ coinbase], rule exI [of _ full_size], rule exI [of _ r], rule exI [of _ info], simp)
qed

section \<open>What the operations leave alone\<close>

text \<open>Everything but the stored chain and what is read from it: the alternative blocks, the settings, the clock.\<close>

definition same_side :: "chain_state \<Rightarrow> chain_state \<Rightarrow> bool" where
  "same_side st st' \<longleftrightarrow>
     alt_blocks st' = alt_blocks st \<and> cfg st' = cfg st \<and> unwound st' = unwound st \<and> cs_checkpoints st' = cs_checkpoints st \<and>
     clock st' = clock st \<and> strict_list st' = strict_list st"

lemma same_side_refl [simp]: "same_side st st"
  by (simp add: same_side_def)

lemma same_side_trans: "same_side a b \<Longrightarrow> same_side b c \<Longrightarrow> same_side a c"
  by (simp add: same_side_def)

lemma update_median_side: "same_side st (snd (update_block_median_size st))"
  by (simp add: update_block_median_size_def same_side_def Let_def split: option.splits sum.splits)

lemma reload_recent_side: "same_side st (snd (reload_recent st))"
proof -
  have "same_side st (snd (reload_loop st is))" for st "is"
  proof (induction "is" arbitrary: st)
    case (Cons i "is")
    have "same_side st (snd (reload_loop (st\<lparr>recent := r\<rparr>) is))" for r
      using Cons [of "st\<lparr>recent := r\<rparr>"] by (simp add: same_side_def)
    then show ?case by (simp split: sum.splits)
  qed simp
  from this [of "st\<lparr>recent := []\<rparr>"] show ?thesis
    by (simp add: reload_recent_def same_side_def Let_def split: option.splits)
qed

lemma settle_tip_side: "same_side st (snd (settle_tip t ops st))"
proof -
  let ?st = "st\<lparr>kv := write_batch ops (kv st), tip := t\<rparr>"
  obtain r st1 where r: "reload_recent ?st = (r, st1)" by fastforce
  then have "same_side st st1" using reload_recent_side [of ?st] by (simp add: same_side_def)
  then show ?thesis
    using r same_side_trans update_median_side [of st1] by (auto simp: settle_tip_def split: sum.splits)
qed

lemma unwind_block_side: "same_side st (snd (unwind_block H i st))"
  using settle_tip_side by (simp add: unwind_block_def split: sum.splits prod.splits)

lemma unwind_blocks_side: "unwind_blocks H is st = (r, st') \<Longrightarrow> same_side st st'"
proof (induction "is" arbitrary: st)
  case (Cons i "is")
  then show ?case
    using unwind_block_side [of st H i] same_side_trans by (auto split: sum.splits prod.splits)
qed simp

lemma push_block_side: "same_side st (snd (push_block H i block blob blobs txs info spent st))"
proof -
  have "same_side st (pushed i info ops st)" for ops by (simp add: same_side_def pushed_def)
  then show ?thesis
    using same_side_trans update_median_side by (simp add: push_block_def split: sum.splits) blast
qed

lemma add_to_main_side: "add_to_main P hint block blob blobs h prev st = (r, st') \<Longrightarrow> same_side st st'"
proof -
  have "same_side st st1" if "push_block H i block blob blobs txs info spent st = (q, st1)" for H i txs info spent q st1
    using push_block_side [of st H i block blob blobs txs info spent] that by simp
  then show "add_to_main P hint block blob blobs h prev st = (r, st') \<Longrightarrow> same_side st st'"
    by (auto simp: add_to_main_def split: sum.splits prod.splits)
qed

section \<open>A proof-of-work hash computed ahead\<close>

definition hint_right :: "primitives \<Rightarrow> pow_hint \<Rightarrow> bool" where
  "hint_right P hint \<longleftrightarrow>
     (\<forall>block. block_hash (pr_hash P) block = Inr (fst hint) \<longrightarrow>
        pow_hash (pr_hash P) (pr_slow P) (pr_argon2id P) block = Some (Inr (snd hint)))"

definition alts_hashed :: "primitives \<Rightarrow> chain_state \<Rightarrow> bool" where
  "alts_hashed P st \<longleftrightarrow>
     (\<forall>h alt block. alt_get st h = Some alt \<and> block_from_bytes (alt_block_blob alt) = Inr block \<longrightarrow>
        block_hash (pr_hash P) block = Inr h)"

lemma hint_pow:
  assumes "hint_right P hint" "block_hash (pr_hash P) block = Inr h"
  shows "proof_of_work_passes P (Some hint) st block h d = proof_of_work_passes P None st block h d"
proof (cases "fst hint = h")
  case True
  then have "check_proof_of_work (pr_hash P) (pr_slow P) (pr_argon2id P) block d =
      Some (check_proof_of_work_with (pr_hash P) block (snd hint) d)"
    using assms by (auto simp: hint_right_def check_proof_of_work_def)
  then show ?thesis using True by (cases hint) (simp add: proof_of_work_passes_def)
qed (cases hint, simp add: proof_of_work_passes_def)

lemma hint_main:
  assumes "hint_right P hint" "block_hash (pr_hash P) block = Inr h"
  shows "add_to_main P (Some hint) block blob blobs h prev st = add_to_main P None block blob blobs h prev st"
  unfolding add_to_main_def validate_main_def checkpoint_or_proof_of_work_def hint_pow [OF assms] ..

lemma hint_apply_branch:
  assumes "hint_right P hint" "alts_hashed P st"
  shows "apply_branch P (Some hint) hs n st = apply_branch P None hs n st"
  using assms(2)
proof (induction hs arbitrary: n st)
  case (Cons h hs)
  show ?case
  proof (cases "alt_get st h")
    case (Some alt)
    show ?thesis
    proof (cases "block_from_bytes (alt_block_blob alt)")
      case (Inr block)
      have "block_hash (pr_hash P) block = Inr h" using Cons.prems Some Inr by (auto simp: alts_hashed_def)
      note same = hint_main [OF assms(1) this]
      have "alts_hashed P st'" if "add_to_main P None block blob blobs h prev st = (r, st')" for blob blobs prev r st'
        using Cons.prems add_to_main_side [OF that] by (simp add: alts_hashed_def same_side_def alt_get_def)
      then show ?thesis using Some Inr same Cons.IH by (auto split: prod.splits sum.splits halt.splits)
    qed (simp add: Some)
  qed simp
qed simp

lemma hint_restore_tail:
  "hint_right P hint \<Longrightarrow> restore_tail P (Some hint) tail st = restore_tail P None tail st"
proof (induction tail arbitrary: st)
  case (Cons x tail)
  then show ?case by (cases x) (auto simp: hint_main split: sum.splits prod.splits)
qed simp

lemma hint_switch:
  assumes "hint_right P hint" "alts_hashed P st"
  shows "switch_to P (Some hint) h st = switch_to P None h st"
proof -
  have "alts_hashed P st'" if "unwind_blocks (pr_hash P) is st = (r, st')" for "is" r st'
    using assms(2) unwind_blocks_side [OF that] by (simp add: alts_hashed_def same_side_def alt_get_def)
  note branch = hint_apply_branch [OF assms(1) this]
  have rolled: "roll_back P (Some hint) fork n tail e bad st = roll_back P None fork n tail e bad st" for fork n tail e bad st
    unfolding roll_back_def hint_restore_tail [OF assms(1)] ..
  show ?thesis
    unfolding switch_to_def rolled by (auto simp: branch split: sum.splits prod.splits)
qed

lemma hint_alternative:
  assumes "hint_right P hint" "alts_hashed P st" "block_from_bytes blob = Inr block" "block_hash (pr_hash P) block = Inr h"
  shows "add_to_alternative P (Some hint) block blob blobs h prev par st = add_to_alternative P None block blob blobs h prev par st"
proof -
  have v: "validate_alternative P (Some hint) st block blobs h prev par = validate_alternative P None st block blobs h prev par"
    unfolding validate_alternative_def checkpoint_or_proof_of_work_def hint_pow [OF assms(1,4)] ..
  have "alts_hashed P (st\<lparr>alt_blocks := AList.update h \<lparr>alt_index = i, alt_prev_hash = p, alt_info = info,
      alt_block_blob = blob, alt_tx_blobs = blobs\<rparr> (alt_blocks st)\<rparr>)" for i p info
    using assms(2-4) by (auto simp: alts_hashed_def alt_get_def update_conv' split: if_splits)
  note s = hint_switch [OF assms(1) this]
  show ?thesis unfolding add_to_alternative_def v Let_def s ..
qed

text \<open>Blocks of the same hash have the same proof-of-work hash: no collision of the one gives the other away.\<close>

definition hash_binds_work :: "primitives \<Rightarrow> block_template \<Rightarrow> bool" where
  "hash_binds_work P block \<longleftrightarrow>
     (\<forall>other. block_hash (pr_hash P) other = block_hash (pr_hash P) block \<longrightarrow>
        pow_hash (pr_hash P) (pr_slow P) (pr_argon2id P) other = pow_hash (pr_hash P) (pr_slow P) (pr_argon2id P) block)"

lemma computed_hint_right:
  assumes "pow_hint_compute P block = Some (Some hint)" "hash_binds_work P block"
  shows "hint_right P hint"
proof -
  obtain h where h: "block_hash (pr_hash P) block = Inr h"
    using assms(1) by (cases "block_hash (pr_hash P) block") (auto simp: pow_hint_compute_def)
  obtain r where r: "pow_hash (pr_hash P) (pr_slow P) (pr_argon2id P) block = Some r"
    using assms(1) h by (auto simp: pow_hint_compute_def)
  have "block_hash (pr_hash P) block = Inr (fst hint)"
    "pow_hash (pr_hash P) (pr_slow P) (pr_argon2id P) block = Some (Inr (snd hint))"
    using assms(1) h r by (cases r; auto simp: pow_hint_compute_def)+
  then show ?thesis
    using assms(2) unfolding hint_right_def hash_binds_work_def by metis
qed

text \<open>C11: A proof-of-work hash computed ahead changes nothing. Whatever block it was computed for, by
  \<open>PowHint::compute\<close>, \<open>add_block\<close> with it gives the same outcome and the same state as \<open>add_block\<close> that computes the
  work itself, on the main chain, on an alternative chain and through a switch with its roll-back, as long as no other
  block collides with that block's hash and the alternative blocks are filed under their hashes.\<close>

theorem pow_hint_same:
  assumes "pow_hint_compute P block = Some (Some hint)" "hash_binds_work P block" and alts: "alts_hashed P st"
  shows "add_block P (Some hint) block_blob tx_blobs st = add_block P None block_blob tx_blobs st"
proof -
  note right = computed_hint_right [OF assms(1,2)]
  let ?st = "st\<lparr>unwound := []\<rparr>"
  have "alts_hashed P ?st" using alts by (simp add: alts_hashed_def alt_get_def)
  then have "add_block_inner P (Some hint) block_blob tx_blobs ?st = add_block_inner P None block_blob tx_blobs ?st"
    using hint_main [OF right] hint_alternative [OF right]
    by (simp add: add_block_inner_def split: sum.splits bool.splits parent.splits option.splits)
  then show ?thesis by (simp add: add_block_def)
qed

section \<open>Where a block ends up\<close>

definition stands_at :: "chain_state \<Rightarrow> u32 \<Rightarrow> hash \<Rightarrow> bool" where
  "stands_at st i h \<longleftrightarrow> tip st = Some i \<and> (\<exists>info. tip_info st = Some info \<and> bi_block_hash info = h)"

lemma stands_at_recent: "tip st' = tip st \<Longrightarrow> recent st' = recent st \<Longrightarrow> stands_at st' i h = stands_at st i h"
  by (simp add: stands_at_def tip_info_def)

lemma add_to_main_tip:
  assumes "add_to_main P hint block blob blobs h prev st = (Inr out, st')" "0 < recent_window (cfg st)"
  shows "stands_at st' (prev + 1) h" "ao_index out = prev + 1" "ao_hash out = h" "ao_status out = Main"
proof -
  obtain txs spent info where main: "validate_main P hint st block blobs h prev = Inr (txs, spent, info, ao_difficulty out)"
    "push_block (pr_hash P) (prev + 1) block blob blobs txs info spent st = (Inr (), st')"
    and out: "out = \<lparr>ao_index = prev + 1, ao_hash = h, ao_cumulative_difficulty = bi_cumulative_difficulty info,
      ao_already_generated_coins = bi_already_generated_coins info, ao_difficulty = ao_difficulty out, ao_status = Main\<rparr>"
    by (rule add_to_main_accepts [OF assms(1)])
  obtain full_size par r where "new_block_info block h full_size (ao_difficulty out) par r (length txs) = Inr info"
    by (rule validate_main_parts [OF main(1)])
  then have "bi_block_hash info = h" by (auto simp: new_block_info_def split: if_splits)
  then show "stands_at st' (prev + 1) h" using push_block_tip [OF main(2) assms(2)] by (simp add: stands_at_def)
  show "ao_index out = prev + 1" "ao_hash out = h" "ao_status out = Main" by (subst out, simp)+
qed

lemma apply_branch_tip:
  assumes "apply_branch P hint hs n st = (Inr (m, None), st')" "hs \<noteq> []" "0 < recent_window (cfg st)"
  shows "\<exists>a. alt_get st (last hs) = Some a \<and> stands_at st' (alt_index a) (last hs)"
  using assms
proof (induction hs arbitrary: n st)
  case (Cons h hs)
  obtain a where a: "alt_get st h = Some a" using Cons.prems(1) by (auto split: option.splits)
  obtain block where block: "block_from_bytes (alt_block_blob a) = Inr block"
    using Cons.prems(1) a by (auto simp: refuse_def split: sum.splits)
  obtain r st1 where main: "add_to_main P hint block (alt_block_blob a) (alt_tx_blobs a) h (alt_index a - 1) st = (r, st1)"
    by fastforce
  then obtain out where r: "r = Inr out" using Cons.prems(1) a block by (auto split: sum.splits halt.splits)
  have rest: "apply_branch P hint hs (Suc n) st1 = (Inr (m, None), st')" using Cons.prems(1) a block main r by simp
  note side = add_to_main_side [OF main]
  show ?case
  proof (cases hs)
    case Nil
    then show ?thesis using rest add_to_main_tip [OF main [unfolded r] Cons.prems(3)] a by simp
  next
    case (Cons k ks)
    have "0 < recent_window (cfg st1)" using side \<open>0 < recent_window (cfg st)\<close> by (simp add: same_side_def)
    from Cons.IH [OF rest _ this] show ?thesis using Cons side by (simp add: same_side_def alt_get_def)
  qed
qed simp

lemma branch_walk_last:
  assumes "branch_walk st cursor chain = Inr (fork, hs)"
  shows "\<exists>pre. hs = pre @ chain"
  using assms
proof (induction st cursor chain rule: branch_walk.induct)
  case (1 st cursor chain)
  then show ?case
    by (subst (asm) branch_walk.simps) (fastforce split: option.splits if_splits)
qed

lemma branch_hashes_last:
  assumes "branch_hashes st h = Inr (fork, hs)" "alt_get st h = Some a"
  shows "hs \<noteq> []" "last hs = h"
proof -
  have "branch_walk st (alt_prev_hash a) [h] = Inr (fork, hs)"
    using assms by (simp add: branch_hashes_def branch_walk.simps [of st h] split: if_splits)
  from branch_walk_last [OF this] show "hs \<noteq> []" "last hs = h" by auto
qed

lemma keep_tail_chain:
  "keep_tail tail st = (r, st') \<Longrightarrow> tip st' = tip st \<and> recent st' = recent st"
proof (induction tail arbitrary: st)
  case (Cons x tail)
  obtain i info blob txs where x: "x = (i, info, blob, txs)" by (cases x) auto
  show ?case using Cons.prems
    by (auto simp: x dest!: Cons.IH split: sum.splits)
qed simp

lemma prune_chain [simp]:
  "tip (prune_alternative_chains e st) = tip st" "recent (prune_alternative_chains e st) = recent st"
  "kv (prune_alternative_chains e st) = kv st" "unwound (prune_alternative_chains e st) = unwound st"
  by (auto simp: prune_alternative_chains_def split: option.splits)

lemma switch_to_tip:
  assumes "switch_to P hint h st = (Inr (), st')" "alt_get st h = Some a" "0 < recent_window (cfg st)"
  shows "stands_at st' (alt_index a) h"
proof -
  obtain fork hs tail where plan: "branch_hashes st h = Inr (fork, hs)" and
      tail: "(case unwind_blocks (pr_hash P) (map fst tail) st of
             (Inl e, st) \<Rightarrow> (Inl (Error e), st)
           | (Inr _, st) \<Rightarrow>
               (case apply_branch P hint hs 0 st of
                  (Inl e, st) \<Rightarrow> (Inl e, st)
                | (Inr (applied, Some (e, bad)), st) \<Rightarrow> roll_back P hint fork applied tail e bad st
                | (Inr (_, None), st) \<Rightarrow> keep_tail tail (st\<lparr>alt_blocks := remove_alts hs (alt_blocks st)\<rparr>))) = (Inr (), st')"
    using assms(1) unfolding switch_to_def by (auto split: sum.splits prod.splits)
  obtain st1 where unwound: "unwind_blocks (pr_hash P) (map fst tail) st = (Inr (), st1)"
    using tail by (auto split: sum.splits prod.splits)
  have not_back: "roll_back P hint fork n tail e bad s \<noteq> (Inr (), st')" for n e bad s
    by (auto simp: roll_back_def split: sum.splits prod.splits)
  obtain n st2 where applied: "apply_branch P hint hs 0 st1 = (Inr (n, None), st2)"
    and kept: "keep_tail tail (st2\<lparr>alt_blocks := remove_alts hs (alt_blocks st2)\<rparr>) = (Inr (), st')"
    using tail not_back unfolding unwound by (auto split: sum.splits prod.splits option.splits)
  have side: "same_side st st1" by (rule unwind_blocks_side [OF unwound])
  note last = branch_hashes_last [OF plan assms(2)]
  have "0 < recent_window (cfg st1)" "alt_get st1 h = Some a"
    using assms(2,3) side by (simp_all add: same_side_def alt_get_def)
  then have "stands_at st2 (alt_index a) h" using apply_branch_tip [OF applied last(1)] last(2) by auto
  then show ?thesis using keep_tail_chain [OF kept] by (simp add: stands_at_recent [of st' st2])
qed

lemma add_to_alternative_tip:
  assumes "add_to_alternative P hint block blob blobs h prev par st = (Inr out, st')" "0 < recent_window (cfg st)"
  shows "ao_hash out = h" "ao_index out = prev + 1"
    "if ao_cumulative_difficulty out > (case tip_info st of Some i \<Rightarrow> bi_cumulative_difficulty i | None \<Rightarrow> 0)
     then ao_status out = AlternativeAndSwitched \<and> stands_at st' (prev + 1) h
     else ao_status out = Alternative \<and> kv st' = kv st \<and> tip st' = tip st \<and> recent st' = recent st \<and> unwound st' = unwound st"
proof -
  obtain info d where v: "validate_alternative P hint st block blobs h prev par = Inr (info, d)"
    using assms(1) by (auto simp: add_to_alternative_def split: sum.splits)
  define st1 where "st1 = st\<lparr>alt_blocks := AList.update h
    \<lparr>alt_index = prev + 1, alt_prev_hash = bt_previous_block_hash block, alt_info = info,
     alt_block_blob = blob, alt_tx_blobs = blobs\<rparr> (alt_blocks st)\<rparr>"
  let ?heavier = "bi_cumulative_difficulty info > (case tip_info st of Some i \<Rightarrow> bi_cumulative_difficulty i | None \<Rightarrow> 0)"
  have info: "tip_info st1 = tip_info st" by (simp add: st1_def tip_info_def)
  obtain r st2 where s: "(if ?heavier then switch_to P hint h st1 else (Inr (), st1)) = (r, st2)" by fastforce
  note added = assms(1) [unfolded add_to_alternative_def v Let_def sum.case prod.case, folded st1_def, unfolded info s]
  then have st': "st' = prune_alternative_chains (Some h) st2" and r: "r = Inr ()"
    and out: "ao_hash out = h" "ao_index out = prev + 1" "ao_cumulative_difficulty out = bi_cumulative_difficulty info"
      "ao_status out = (if ?heavier then AlternativeAndSwitched else Alternative)"
    by (cases r; auto)+
  note s = s [unfolded r]
  show "ao_hash out = h" "ao_index out = prev + 1" by (fact out)+
  have "stands_at st2 (prev + 1) h" if ?heavier
  proof -
    have switch: "switch_to P hint h st1 = (Inr (), st2)" using s that by simp
    from switch_to_tip [OF switch] show ?thesis using assms(2) by (simp add: st1_def alt_get_def update_conv')
  qed
  then show "if ao_cumulative_difficulty out > (case tip_info st of Some i \<Rightarrow> bi_cumulative_difficulty i | None \<Rightarrow> 0)
     then ao_status out = AlternativeAndSwitched \<and> stands_at st' (prev + 1) h
     else ao_status out = Alternative \<and> kv st' = kv st \<and> tip st' = tip st \<and> recent st' = recent st \<and> unwound st' = unwound st"
    using s unfolding out st' by (auto simp: st1_def stands_at_def tip_info_def split: if_splits)
qed

text \<open>C2: Where a block that is added ends up. When \<open>add_block\<close> returns, the hash it reports is the block's. A block
  that is reported as main or as switched to is the tip: the tip stands at its index, and the block info of the tip
  carries its hash. A block that is reported as alternative has no more cumulative difficulty than the tip, and the
  store, the tip and the window of recent infos are as they were, with nothing reported as unwound. A block reported as
  switched to has strictly more cumulative difficulty than the tip it replaced.\<close>

theorem add_block_tip:
  assumes "add_block P hint block_blob tx_blobs st = (Inr (out, uw), st')" "0 < recent_window (cfg st)"
  shows "\<exists>block. block_from_bytes block_blob = Inr block \<and> block_hash (pr_hash P) block = Inr (ao_hash out) \<and>
    (let work = (case tip_info st of Some i \<Rightarrow> bi_cumulative_difficulty i | None \<Rightarrow> 0) in
     case ao_status out of
       Main \<Rightarrow> tip st = Some (ao_index out - 1) \<and> stands_at st' (ao_index out) (ao_hash out) \<and> uw = []
     | AlternativeAndSwitched \<Rightarrow> work < ao_cumulative_difficulty out \<and> stands_at st' (ao_index out) (ao_hash out)
     | Alternative \<Rightarrow> ao_cumulative_difficulty out \<le> work \<and> kv st' = kv st \<and> tip st' = tip st \<and>
         recent st' = recent st \<and> uw = [])"
proof -
  let ?st = "st\<lparr>unwound := []\<rparr>"
  obtain st1 where inner: "add_block_inner P hint block_blob tx_blobs ?st = (Inr out, st1)"
    and st': "uw = unwound st1" "st' = st1\<lparr>unwound := []\<rparr>"
    using assms(1) by (auto simp: add_block_def split: sum.splits prod.splits)
  obtain block h par where block: "block_from_bytes block_blob = Inr block" "block_hash (pr_hash P) block = Inr h"
      "has_block ?st h = Inr False" "locate_parent ?st (bt_previous_block_hash block) = Inr par"
    using inner by (auto simp: add_block_inner_def split: sum.splits bool.splits)
  note inner = inner [unfolded add_block_inner_def block sum.case bool.case]
  have w: "0 < recent_window (cfg ?st)" using assms(2) by simp
  have info: "tip_info ?st = tip_info st" by (simp add: tip_info_def)
  have here: "stands_at st' i k = stands_at st1 i k" for i k by (rule stands_at_recent) (simp_all add: st')
  have alt: ?thesis if "add_to_alternative P hint block block_blob tx_blobs h prev par ?st = (Inr out, st1)" for prev par
    using add_to_alternative_tip [OF that w, unfolded info] block
    by (auto simp: here st'(1) Let_def not_less split: if_splits simp del: word_neq_0_conv) (simp_all add: st'(2))
  show ?thesis
  proof (cases par)
    case (MainTip i)
    then obtain st2 where main: "add_to_main P hint block block_blob tx_blobs h i ?st = (Inr out, st2)"
        and st1: "st1 = prune_alternative_chains None st2"
      using inner by (auto split: sum.splits prod.splits)
    have "tip st = Some i" using block(4) MainTip by (auto simp: locate_parent_def split: if_splits option.splits)
    moreover have "unwound st2 = []" using add_to_main_side [OF main] by (simp add: same_side_def)
    ultimately show ?thesis using add_to_main_tip [OF main w] block
      by (simp add: here st'(1) st1 stands_at_recent [of "prune_alternative_chains None st2" st2])
  next
    case (MainDepth i)
    then show ?thesis using inner by (intro alt [of i None]) simp
  next
    case (AltParent p)
    then obtain b :: alt_block where "add_to_alternative P hint block block_blob tx_blobs h (alt_index b) (Some p) ?st = (Inr out, st1)"
      using inner by (auto split: option.splits)
    then show ?thesis by (rule alt)
  qed
qed

section \<open>A block added to a chain of one block\<close>

definition sample_primitives :: primitives where
  "sample_primitives = \<lparr>pr_crypto = sample_crypto, pr_slow = \<lambda>_ _. replicate 32 0, pr_argon2id = \<lambda>_ _. replicate 32 0\<rparr>"

definition paid_block :: block_template where
  "paid_block = next_block\<lparr>bt_base_transaction :=
     \<lparr>prefix = \<lparr>version = 1, unlock_time = 41, inputs = [Base 1], outputs = [\<lparr>out_amount = 11920928, out_key = replicate 32 2\<rparr>],
        extra = []\<rparr>, signatures = []\<rparr>\<rparr>"

definition first_chain :: chain_state where
  "first_chain = one_block_chain\<lparr>kv := (kv one_block_chain)(key_bytes (HashToIndex (replicate 32 1)) \<mapsto> to_le 4 (0 :: u32))\<rparr>"

lemma sample_primitives [simp]: "pr_crypto sample_primitives = sample_crypto" "cn_fast_hash sample_crypto = (\<lambda>_. replicate 32 0)"
  "pr_slow sample_primitives = (\<lambda>_ _. replicate 32 0)" "pr_argon2id sample_primitives = (\<lambda>_ _. replicate 32 0)"
  by (simp_all add: sample_primitives_def sample_crypto_def)

lemma first_chain_reads:
  "store_get first_chain k =
     (if k = BlockInfoKey 0 then Some (block_info_encode one_block_info) else if k = Meta ''tip'' then u32_value 0
      else if k = HashToIndex (replicate 32 1) then u32_value 0 else None)"
  by (simp add: first_chain_def one_block_chain_def store_get_def u32_value_def)

lemma first_chain_ok: "outputs_numbered first_chain (\<lambda>a. 0)" "entries_numbered first_chain (\<lambda>p. 0)"
  "infos_ok (\<lambda>i. one_block_info) 0 first_chain"
proof -
  show "outputs_numbered first_chain (\<lambda>a. 0)" "entries_numbered first_chain (\<lambda>p. 0)"
    by (simp_all add: outputs_numbered_def entries_numbered_def numbered_def first_chain_reads)
  show "infos_ok (\<lambda>i. one_block_info) 0 first_chain"
    by (simp add: infos_ok_def first_chain_reads)
      (simp add: first_chain_def one_block_chain_def config_default_def one_block_info_def)
qed

lemma first_chain_info: "block_info_at first_chain 0 = Inr (Some one_block_info)"
  using block_info_at_ok [OF first_chain_ok(3)] by simp

lemma first_chain_cfg [simp]: "cfg first_chain = config_default" "tip first_chain = Some 0" "clock first_chain = 0"
  "cs_checkpoints first_chain = \<lparr>points = [], disabled_from = 0\<rparr>" "recent first_chain = [one_block_info]"
  "alt_blocks first_chain = []"
  by (simp_all add: first_chain_def one_block_chain_def)

lemma paid_coinbase: "map_sum id length (tx_to_bytes (bt_base_transaction paid_block)) = Inr 44"
  by code_simp

lemma paid_reward: "get_block_reward 1 100 44 5 0 1 = Inr (Some \<lparr>reward = 11920928, emission_change = 11920928\<rparr>)"
  by code_simp

lemma paid_pow: "check_proof_of_work (\<lambda>_. replicate 32 0) (\<lambda>_ _. replicate 32 0) (\<lambda>_ _. replicate 32 0) paid_block 1 = Some (Inr True)"
  by code_simp

lemma paid_hash: "block_hash (\<lambda>_. replicate 32 0) paid_block = Inr (replicate 32 0)"
  by code_simp

lemma first_info: "info_or_missing first_chain (main_chain 0) 0 = Inr one_block_info"
  by (simp add: info_or_missing_def info_in_view_def main_chain_def first_chain_info ok_or_def)

lemma first_infos: "0 < n \<Longrightarrow> last_infos first_chain (main_chain 0) n 0 True = Inr [one_block_info]"
  by (simp add: last_infos_def first_info)

lemma first_time: "timestamp_median first_chain (main_chain 0) 0 = Inr None"
proof -
  have "timestamp_check_window 1 = 60" by code_simp
  then show ?thesis by (simp add: timestamp_median_def Let_def first_infos)
qed

lemma first_size: "reward_size_median first_chain (main_chain 0) 0 = Inr 100"
proof -
  have "median_value [100 :: u64] = 100" by code_simp
  then show ?thesis
    by (simp add: reward_size_median_def first_infos CRYPTONOTE_REWARD_BLOCKS_WINDOW_def one_block_info_def)
qed

lemma first_difficulty: "difficulty_for_next_block first_chain (main_chain 0) 0 = Inr (Inr (Some 1))"
proof -
  have "difficulty_window_indexes 0 = []" "difficulty_for_next_block_from 0 [] = Inr (Some 1)" by code_simp+
  then show ?thesis by (simp add: difficulty_for_next_block_def config_default_def)
qed

lemma paid_block_valid: "validate_block sample_crypto first_chain paid_block (main_chain 0) 0 = Inr 11920928"
proof -
  have "check_coinbase sample_crypto paid_block 1 = Inr 11920928"
    by (simp add: check_coinbase_def paid_block_def sample_crypto_def checked_add_def CRYPTONOTE_MINED_MONEY_UNLOCK_WINDOW_def)
  moreover have "check_parent (\<lambda>_. replicate 32 0) paid_block = Inr ()" by code_simp
  moreover have "bt_timestamp paid_block \<le> saturating_add 0 (block_future_time_limit 1)"
  proof -
    have "block_future_time_limit 1 = 7200" by code_simp
    then show ?thesis by (simp add: paid_block_def next_block_def saturating_add_def)
  qed
  moreover have "block_major_version_for_index (claimed_index_of paid_block) = bt_major_version paid_block" by code_simp
  ultimately show ?thesis
    by (simp add: validate_block_def check_time_def first_time Let_def not_less del: replicate.simps)
qed

lemma paid_checks: "block_checks sample_primitives first_chain (main_chain 0) 0 paid_block [] = Inr ([], 44, 11920928, 1)"
proof -
  obtain c where "tx_to_bytes (bt_base_transaction paid_block) = Inr c" "length c = 44"
    using paid_coinbase by (cases "tx_to_bytes (bt_base_transaction paid_block)") auto
  moreover have "parse_transactions paid_block [] = Inr []" by code_simp
  moreover have "check_transaction_list (\<lambda>_. replicate 32 0) paid_block [] (claimed_index_of paid_block) b = Inr ()" for b
    by (simp add: check_transaction_list_def paid_block_def next_block_def)
  moreover have "44 \<le> max_block_cumulative_size 1" by code_simp
  ultimately show ?thesis
    by (simp add: block_checks_def paid_block_valid first_difficulty Let_def not_less del: replicate.simps)
qed

lemma paid_main:
  "\<exists>out st'. add_to_main sample_primitives hint paid_block blob [] (replicate 32 0) 0 first_chain = (Inr out, st') \<and>
     ao_status out = Main \<and> ao_index out = 1 \<and> ao_difficulty out = 1"
  if "hint = None \<or> hint = Some (replicate 32 0, replicate 32 0)" for hint
proof -
  let ?info = "\<lparr>bi_block_hash = replicate 32 0, bi_timestamp = 70, bi_block_size = 44, bi_cumulative_difficulty = 2,
    bi_already_generated_coins = 11920933, bi_already_generated_transactions = 2\<rparr>"
  have "claimed_index_of paid_block = 1" "bt_major_version paid_block = 1" by code_simp+
  then have r: "reward_check first_chain (main_chain 0) 0 paid_block 44 0 11920928 =
      Inr (one_block_info, \<lparr>reward = 11920928, emission_change = 11920928\<rparr>)"
    using paid_reward by (simp add: reward_check_def first_info first_size one_block_info_def)
  have "check_proof_of_work_with (\<lambda>_. replicate 32 0) paid_block (replicate 32 0) 1 = Inr True" by code_simp
  then have "proof_of_work_passes sample_primitives hint first_chain paid_block (replicate 32 0) 1 = Inr True"
    using that paid_pow by (elim disjE) (simp_all add: proof_of_work_passes_def config_default_def)
  then have w: "checkpoint_or_proof_of_work sample_primitives hint first_chain paid_block (claimed_index_of paid_block)
      (replicate 32 0) 1 = Inr ()"
    by (simp add: checkpoint_or_proof_of_work_def is_in_checkpoint_zone_def)
  have i: "new_block_info paid_block (replicate 32 0) 44 1 one_block_info \<lparr>reward = 11920928, emission_change = 11920928\<rparr> 0 = Inr ?info"
    by (simp add: new_block_info_def one_block_info_def paid_block_def next_block_def)
  have "validate_main sample_primitives hint first_chain paid_block [] (replicate 32 0) 0 = Inr ([], {}, ?info, 1)"
    using paid_checks w r i by (simp add: validate_main_def Let_def settle_def batch_new_def first_invalid_def)
  moreover obtain st' where "push_block (\<lambda>_. replicate 32 0) (0 + 1) paid_block blob [] [] ?info {} first_chain = (Inr (), st')"
  proof (rule push_block_ok [OF first_chain_ok, where new = ?info])
    show "tx_hash (\<lambda>_. replicate 32 0) (bt_base_transaction paid_block) = Inr (replicate 32 0)" by code_simp
    show "length (bi_block_hash ?info) = 32" by simp
  qed (simp_all add: config_default_def)
  ultimately show ?thesis by (simp add: add_to_main_def)
qed

theorem main_block_sound_witness:
  "\<exists>out st' info. add_to_main sample_primitives None paid_block [] [] (replicate 32 0) 0 first_chain = (Inr out, st') \<and>
     tip st' = Some 1 \<and> tip_info st' = Some info \<and> bi_cumulative_difficulty info = 2"
proof -
  obtain out st' where main: "add_to_main sample_primitives None paid_block [] [] (replicate 32 0) 0 first_chain = (Inr out, st')"
      "ao_difficulty out = 1"
    using paid_main [of None "[]"] by blast
  have "0 < recent_window (cfg first_chain)" by (simp add: config_default_def)
  from main_block_sound [OF main(1) this] show ?thesis
    using main by (auto simp: first_info one_block_info_def)
qed

lemma paid_block_read: "block_from_bytes (enc_block paid_block 0) = Inr paid_block"
proof -
  have "block_ok paid_block" by (simp add: paid_block_def next_block_def block_ok_def tx_ok_def prefix_ok_def
      input_ok_def output_ok_def ok_vec_def tag_defs is_coinbase_def CURRENT_TRANSACTION_VERSION_def)
  then show ?thesis by (auto simp: block_from_bytes_iff)
qed

lemma paid_add:
  "\<exists>out uw st'. add_block sample_primitives None (enc_block paid_block 0) [] first_chain = (Inr (out, uw), st') \<and>
     ao_status out = Main \<and> ao_index out = 1"
proof -
  have st: "first_chain\<lparr>unwound := []\<rparr> = first_chain" by (simp add: first_chain_def one_block_chain_def)
  have "has_block first_chain (replicate 32 0) = Inr False"
    by (simp add: has_block_def block_index_by_hash_def first_chain_reads u32_record_def)
  moreover have "locate_parent first_chain (bt_previous_block_hash paid_block) = Inr (MainTip 0)"
    by (simp add: locate_parent_def alt_get_def block_index_by_hash_def first_chain_reads u32_record_def u32_value_def
        paid_block_def next_block_def)
  ultimately show ?thesis
    using paid_main [of None "enc_block paid_block 0"] paid_hash
    by (auto simp: add_block_def add_block_inner_def st paid_block_read)
qed

theorem add_block_tip_witness:
  "\<exists>out uw st'. add_block sample_primitives None (enc_block paid_block 0) [] first_chain = (Inr (out, uw), st') \<and>
     stands_at st' 1 (replicate 32 0) \<and> uw = []"
proof -
  obtain out uw st' where add: "add_block sample_primitives None (enc_block paid_block 0) [] first_chain = (Inr (out, uw), st')"
      "ao_status out = Main" "ao_index out = 1"
    using paid_add by blast
  have "0 < recent_window (cfg first_chain)" by (simp add: config_default_def)
  from add_block_tip [OF add(1) this] show ?thesis
    using add paid_hash by (auto simp: paid_block_read Let_def)
qed


definition tells_version :: "bytes \<Rightarrow> hash" where
  "tells_version bs =
     (case read_varint bs of Inl e \<Rightarrow> [] | Inr (n, k) \<Rightarrow> replicate 32 (if hd (drop k bs) = 1 then 0 else 1))"

definition versioned_primitives :: primitives where
  "versioned_primitives = sample_primitives\<lparr>pr_crypto := sample_crypto\<lparr>cn_fast_hash := tells_version\<rparr>\<rparr>"

lemma encode_hd: "hd (encode (ucast (v :: u8))) = 1 \<longleftrightarrow> v = 1"
proof (cases "0x80 \<le> (ucast v :: u64)")
  case True
  have "(x AND 0x7F) OR 0x80 \<noteq> (1 :: u8)" for x :: u8
  proof
    assume "(x AND 0x7F) OR 0x80 = (1 :: u8)"
    then have "bit ((x AND 0x7F) OR 0x80) 7 = bit (1 :: u8) 7" by simp
    then show False by (simp add: bit_simps)
  qed
  then show ?thesis using True by (subst encode_big) (auto simp: word_le_nat_alt)
qed (simp add: encode_small)

lemma header_starts:
  assumes "header_hashing_blob H b = Inr blob"
  obtains rest where "blob = encode (ucast (bt_major_version b)) @ rest"
  using assms by (auto simp: header_hashing_blob_def write_header_def Let_def codec_simps split: sum.splits if_splits)

lemma versioned_hash:
  assumes "block_hash tells_version b = Inr h"
  shows "h = replicate 32 (if bt_major_version b = 1 then 0 else 1)" "\<exists>blob. header_hashing_blob tells_version b = Inr blob"
proof -
  obtain blob where blob: "header_hashing_blob tells_version b = Inr blob"
    using assms by (auto simp: block_hash_def split: sum.splits)
  then show "\<exists>blob. header_hashing_blob tells_version b = Inr blob" ..
  obtain rest where "blob = encode (ucast (bt_major_version b)) @ rest" by (rule header_starts [OF blob])
  then have "tells_version (encode n @ blob @ more) = replicate 32 (if bt_major_version b = 1 then 0 else 1)" for n more
    using encode_hd [of "bt_major_version b"] by (simp add: tells_version_def read_varint_encode)
  from this [of _ "[]"] this show "h = replicate 32 (if bt_major_version b = 1 then 0 else 1)"
    using assms by (auto simp: block_hash_def blob hash_as_object_def split: if_splits sum.splits)
qed

lemma versioned_work:
  assumes "bt_major_version b = 1" "header_hashing_blob tells_version b = Inr blob"
  shows "pow_hash tells_version (\<lambda>_ _. replicate 32 0) argon b = Some (Inr (replicate 32 0))"
  using assms by (simp add: pow_hash_def pow_input_def block_versions pow_hash_for_block_version_def cn_slow_hash_def
      check_params_def CN_V0_def)

lemma paid_versioned: "block_hash tells_version paid_block = Inr (replicate 32 0)"
  by code_simp

theorem pow_hint_same_witness:
  "pow_hint_compute versioned_primitives paid_block = Some (Some (replicate 32 0, replicate 32 0)) \<and>
     add_block versioned_primitives (Some (replicate 32 0, replicate 32 0)) (enc_block paid_block 0) [] first_chain =
     add_block versioned_primitives None (enc_block paid_block 0) [] first_chain"
proof -
  have P [simp]: "pr_hash versioned_primitives = tells_version" "pr_slow versioned_primitives = (\<lambda>_ _. replicate 32 0)"
    by (simp_all add: versioned_primitives_def)
  have work: "pow_hash tells_version (\<lambda>_ _. replicate 32 0) argon b = Some (Inr (replicate 32 0))"
    if "block_hash tells_version b = Inr (replicate 32 0)" for b argon
    using versioned_hash [OF that] versioned_work by (auto split: if_splits)
  have hint: "pow_hint_compute versioned_primitives paid_block = Some (Some (replicate 32 0, replicate 32 0))"
    using work [OF paid_versioned] by (simp add: pow_hint_compute_def paid_versioned)
  moreover have "hash_binds_work versioned_primitives paid_block"
    unfolding hash_binds_work_def P paid_versioned using work paid_versioned by simp
  moreover have "alts_hashed versioned_primitives first_chain" by (simp add: alts_hashed_def alt_get_def)
  ultimately show ?thesis using pow_hint_same by blast
qed

end
