(* ===== verification/Pool_Rules.thy ===== *)
theory Pool_Rules
  imports Pool_Admit Chain_Rules
begin

text \<open>
  Block acceptance and the pool together (\<open>add_block_with_pool\<close> of \<open>wrkz-mempool/src/pool.rs\<close>): what the pool holds after
  the chain has taken a block.
\<close>

section \<open>The sweep\<close>

lemma on_block_added_ok:
  assumes "healthy p"
  shows "healthy (snd (on_block_added chain mined spent p))"
    "pooled (snd (on_block_added chain mined spent p)) = {e \<in> pooled p. \<not> swept chain mined spent e}"
    "set (fst (on_block_added chain mined spent p)) = pe_hash ` {e \<in> pooled p. swept chain mined spent e}"
proof -
  have ok: "pool_ok p" "entries_ok p" using assms by (simp_all add: healthy_def pool_ok_def)
  let ?hs = "fst (on_block_added chain mined spent p)"
  have listed: "h \<in> set (pool_hashes p) \<longleftrightarrow> (\<exists>e \<in> pooled p. pe_hash e = h)" for h
  proof -
    obtain xs where xs: "by_priority p = map snd xs" "mset xs = mset (entries p)" using by_priority_keys [OF ok(1)] by metis
    from mset_eq_setD [OF xs(2)] have "set (by_priority p) = pooled p" by (simp add: xs(1) pooled_def)
    then show ?thesis by (auto simp: pool_hashes_def)
  qed
  have hs: "h \<in> set ?hs \<longleftrightarrow> (\<exists>e \<in> pooled p. pe_hash e = h \<and> swept chain mined spent e)" for h
  proof (cases "pool_get p h")
    case None
    then have "\<not> (\<exists>e \<in> pooled p. pe_hash e = h)" using pool_get_Some [OF ok(2), of h] by (metis option.distinct(1))
    then show ?thesis using None by (auto simp: on_block_added_def Let_def)
  next
    case (Some e)
    then have e: "e \<in> pooled p" "pe_hash e = h" using pool_get_Some [OF ok(2), of h e] by simp_all
    then have "h \<in> set (pool_hashes p)" using listed [of h] by blast
    then have "h \<in> set ?hs \<longleftrightarrow> swept chain mined spent e" using Some by (simp add: on_block_added_def Let_def)
    moreover have "f = e" if "f \<in> pooled p" "pe_hash f = h" for f using pooled_unique [OF ok(2) that(1) e(1)] that e(2) by simp
    ultimately show ?thesis using e by blast
  qed
  then show "set ?hs = pe_hash ` {e \<in> pooled p. swept chain mined spent e}" by auto
  show "healthy (snd (on_block_added chain mined spent p))" using removal_healthy(1) [OF assms] by (simp add: on_block_added_def Let_def)
  have "pooled (snd (on_block_added chain mined spent p)) = {e \<in> pooled p. pe_hash e \<notin> set ?hs}"
    using remove_all_ok(2) [OF ok(1)] by (simp add: on_block_added_def Let_def)
  moreover have "pe_hash e \<in> set ?hs \<longleftrightarrow> swept chain mined spent e" if "e \<in> pooled p" for e
    using hs [of "pe_hash e"] pooled_unique [OF ok(2) _ that] that by blast
  ultimately show "pooled (snd (on_block_added chain mined spent p)) = {e \<in> pooled p. \<not> swept chain mined spent e}" by auto
qed

lemma unit_result: "\<not> isl r \<longleftrightarrow> r = Inr ()"
  by (cases r) auto

lemma spends_swept: "images_of e \<inter> spent \<noteq> {} \<Longrightarrow> swept chain mined spent e"
proof -
  have "list_ex (\<lambda>i. case i of Key _ _ ki \<Rightarrow> ki \<in> spent | Base _ \<Rightarrow> False) ins" if "set (key_images_of ins) \<inter> spent \<noteq> {}" for ins
    using that by (induction ins rule: key_images_of.induct) auto
  then show "images_of e \<inter> spent \<noteq> {} \<Longrightarrow> swept chain mined spent e" by (simp add: swept_def images_of_def)
qed

lemma refill_healthy:
  assumes "healthy p" "room blobs p"
  shows "healthy (snd (copy_transactions_to_pool c chain blobs (snd (remove_spent_in_chain chain p))))"
proof -
  let ?p = "p\<lparr>rejected := forget_ring_dependent (rejected p)\<rparr>"
  obtain hs where q: "snd (remove_spent_in_chain chain p) = remove_all hs ?p" by (simp add: remove_spent_in_chain_def Let_def)
  have "pool_ok ?p" using assms(1) pool_ok_cong(1) [of ?p p] by (simp add: healthy_def)
  from remove_all_ok(1) [OF this] have s: "shrunk ?p (remove_all hs ?p)" .
  then have "healthy (remove_all hs ?p)" using shrunk_healthy [OF _ s] assms(1) by simp
  moreover have "room blobs (remove_all hs ?p)" using s assms(2) by (simp add: shrunk_def same_rest_def room_def)
  ultimately show ?thesis
    using copy_loop_kept [of "(remove_all hs ?p)\<lparr>rejected := forget_ring_dependent (rejected (remove_all hs ?p))\<rparr>" blobs c chain]
    by (simp add: q copy_transactions_to_pool_def kept_def)
qed

text \<open>C3: A block that joins the main chain leaves a consistent pool with nothing it settles: after \<open>add_block_with_pool\<close> no
  pooled transaction is one of the block's, is recorded in the new chain, spends a key image of the block, has ring sizes
  the next height forbids or is larger than the new median allows. Unless the chain switched, what is left is exactly the
  rest of the old pool and the report names exactly the transactions taken out.\<close>

theorem block_sweeps_pool:
  assumes "block_from_bytes block_blob = Inr block" "add_block P None block_blob tx_blobs st = (Inr (outcome, left), st')"
    "ao_status outcome \<noteq> Alternative" "healthy pool"
    "ao_status outcome = AlternativeAndSwitched \<longrightarrow> room (concat (map uw_transactions left)) pool"
  shows "\<exists>u pool'. add_block_with_pool P block_blob tx_blobs pool st = (Inr u, pool', st') \<and> healthy pool' \<and>
    (\<forall>e \<in> pooled pool'. pe_hash e \<notin> set (bt_transaction_hashes block) \<and> has_transaction st' (pe_hash e) \<noteq> Inr True \<and>
       images_of e \<inter> spent_by_blobs tx_blobs = {} \<and> of_nat (pe_size e) \<le> max_tx_size (median_size st') \<and>
       validate_ring_sizes (ring_sizes (prefix (pe_transaction e))) (pc_top_index (pool_chain_of st')) = Inr ()) \<and>
    (ao_status outcome = Main \<longrightarrow>
       pooled pool' = {e \<in> pooled pool. \<not> swept (pool_chain_of st') (bt_transaction_hashes block) (spent_by_blobs tx_blobs) e} \<and>
       set (cu_removed u) = pe_hash ` (pooled pool - pooled pool'))"
proof -
  let ?c = "pool_chain_of st'" and ?sw = "\<lambda>p. on_block_added (pool_chain_of st') (bt_transaction_hashes block) (spent_by_blobs tx_blobs) p"
  let ?mid = "if ao_status outcome = AlternativeAndSwitched then
      snd (copy_transactions_to_pool (pr_crypto P) ?c (concat (map uw_transactions left)) (snd (remove_spent_in_chain ?c pool))) else pool"
  obtain u where u: "add_block_with_pool P block_blob tx_blobs pool st = (Inr u, snd (?sw ?mid), st')"
    "ao_status outcome = Main \<longrightarrow> cu_removed u = fst (?sw pool)"
    using assms(1-3) by (simp add: add_block_with_pool_def Let_def case_prod_unfold)
  have mid: "healthy ?mid" using assms(4,5) refill_healthy by simp
  note sw = on_block_added_ok [OF mid, of ?c "bt_transaction_hashes block" "spent_by_blobs tx_blobs"]
  have clean: "pe_hash e \<notin> set (bt_transaction_hashes block) \<and> has_transaction st' (pe_hash e) \<noteq> Inr True \<and>
      images_of e \<inter> spent_by_blobs tx_blobs = {} \<and> of_nat (pe_size e) \<le> max_tx_size (median_size st') \<and>
      validate_ring_sizes (ring_sizes (prefix (pe_transaction e))) (pc_top_index ?c) = Inr ()"
    if "\<not> swept ?c (bt_transaction_hashes block) (spent_by_blobs tx_blobs) e" for e
  proof -
    have "images_of e \<inter> spent_by_blobs tx_blobs = {}" using that spends_swept by blast
    then show ?thesis using that by (auto simp: swept_def unwrap_or_false_def pool_chain_of_def not_less unit_result split: sum.splits)
  qed
  have "pooled (snd (?sw pool)) = {e \<in> pooled pool. \<not> swept ?c (bt_transaction_hashes block) (spent_by_blobs tx_blobs) e} \<and>
      set (cu_removed u) = pe_hash ` (pooled pool - pooled (snd (?sw pool)))" if "ao_status outcome = Main"
  proof -
    note s = on_block_added_ok [OF assms(4), of ?c "bt_transaction_hashes block" "spent_by_blobs tx_blobs"]
    have "pooled pool - pooled (snd (?sw pool)) = {e \<in> pooled pool. swept ?c (bt_transaction_hashes block) (spent_by_blobs tx_blobs) e}"
      unfolding s(2) by blast
    then show ?thesis using s(2,3) u(2) that by simp
  qed
  then show ?thesis using u(1) sw(1) clean sw(2) by (intro exI [of _ u] exI [of _ "snd (?sw ?mid)"]) auto
qed

theorem block_sweeps_pool_witness:
  "\<exists>u pool' st'. add_block_with_pool sample_primitives (enc_block paid_block 0) [] sample_filled first_chain = (Inr u, pool', st') \<and>
     healthy pool' \<and> set (cu_removed u) = pe_hash ` (pooled sample_filled - pooled pool')"
proof -
  obtain out left st' where add: "add_block sample_primitives None (enc_block paid_block 0) [] first_chain = (Inr (out, left), st')"
      "ao_status out = Main"
    using paid_add by blast
  from block_sweeps_pool [OF paid_block_read add(1) _ sample_filled_healthy(1)] add(2) show ?thesis by force
qed

end
