(* ===== verification/Template_Rules.thy ===== *)
theory Template_Rules
  imports Template Pool_Rules
begin

text \<open>
  What a block template promises: the coinbase pays exactly the reward, the settled template passes the checks its own
  chain makes of a coinbase and its reward, and the selected transactions can be mined together.
\<close>

section \<open>The coinbase pays the reward\<close>

definition amount_sum :: "u64 list \<Rightarrow> nat" where
  "amount_sum xs = sum_list (map unat xs)"

lemma merge_last: "m < length xs + 2 \<Longrightarrow> merge_outs m (xs @ [y, z]) = merge_outs m (xs @ [y + z])"
  by (subst merge_outs.simps) (simp add: butlast_append nth_append list_update_append)

lemma merge_outs_correct:
  assumes "0 < m" "amount_sum xs < 2 ^ 64" "0 \<notin> set xs"
  shows "length (merge_outs m xs) \<le> m \<and> amount_sum (merge_outs m xs) = amount_sum xs \<and> 0 \<notin> set (merge_outs m xs)"
  using assms
proof (induction "length xs" arbitrary: xs)
  case (Suc n)
  show ?case
  proof (cases "m < length xs")
    case True
    then obtain zs z where zs: "xs = zs @ [z]" by (cases xs rule: rev_cases) auto
    then obtain ys y where "zs = ys @ [y]" using True Suc.prems(1) by (cases zs rule: rev_cases) auto
    then have xs: "xs = ys @ [y, z]" using zs by simp
    have "unat y + unat z < 2 ^ 64" using Suc.prems(2) by (simp add: amount_sum_def xs)
    then have yz: "unat (y + z) = unat y + unat z" by (simp add: unat_add_small)
    have "y \<noteq> 0" using Suc.prems(3) by (auto simp: xs)
    then have nz: "y + z \<noteq> 0" using yz by (metis add_eq_0_iff_both_eq_0 unat_eq_zero)
    have "n = length (ys @ [y + z])" "amount_sum (ys @ [y + z]) = amount_sum xs" "0 \<notin> set (ys @ [y + z])"
      using Suc.hyps(2) Suc.prems(3) yz nz by (auto simp: xs amount_sum_def)
    then show ?thesis
      using Suc.hyps(1) [of "ys @ [y + z]"] Suc.prems(1,2) merge_last [of m ys y z] True by (simp add: xs)
  qed (use Suc.prems merge_outs.simps [of m xs] in simp)
qed (simp add: merge_outs.simps)

lemma fold_sum: "fold (\<lambda>a s. s + a) xs s = s + of_nat (amount_sum xs)" for s :: u64
  by (induction xs arbitrary: s) (simp_all add: amount_sum_def add.assoc)

lemma miner_outputs_amounts:
  "miner_outputs D derivation spend i xs = Some outs \<Longrightarrow>
     map out_amount outs = xs \<and> (\<forall>v \<in> set outs. \<exists>j. derive_public_key D derivation j spend = Some (out_key v))"
  by (induction xs arbitrary: i outs) (fastforce split: option.splits)+

lemma out_amounts_sum:
  assumes "0 < max_outs"
  shows "fold (\<lambda>a s. s + a) (merge_outs max_outs (decompose_amount pay t)) 0 = pay"
    "length (merge_outs max_outs (decompose_amount pay t)) \<le> max_outs"
    "amount_sum (merge_outs max_outs (decompose_amount pay t)) = unat pay" "0 \<notin> set (merge_outs max_outs (decompose_amount pay t))"
proof -
  have d: "amount_sum (decompose_amount pay t) = unat pay" "0 \<notin> set (decompose_amount pay t)"
    using decompose_amount_decomposes [of pay t] by (auto simp: decomposes_def amount_sum_def)
  then have "amount_sum (decompose_amount pay t) < 2 ^ 64" using unsigned_less [of pay] by simp
  from merge_outs_correct [OF assms this d(2)] d(1)
  show "fold (\<lambda>a s. s + a) (merge_outs max_outs (decompose_amount pay t)) 0 = pay"
    "length (merge_outs max_outs (decompose_amount pay t)) \<le> max_outs"
    "amount_sum (merge_outs max_outs (decompose_amount pay t)) = unat pay" "0 \<notin> set (merge_outs max_outs (decompose_amount pay t))"
    by (simp_all add: fold_sum)
qed

text \<open>The keys of the outputs.\<close>

definition derived :: "derivations \<Rightarrow> hash \<Rightarrow> bool" where
  "derived D key \<longleftrightarrow> (\<exists>d i spend. derive_public_key D d i spend = Some key)"

definition pays :: "derivations \<Rightarrow> u64 \<Rightarrow> nat \<Rightarrow> transaction \<Rightarrow> bool" where
  "pays D r max_outs tx \<longleftrightarrow>
     value_out tx = unat r \<and> length (outputs (prefix tx)) \<le> max_outs \<and>
     (\<forall>v \<in> set (outputs (prefix tx)). out_amount v \<noteq> 0 \<and> derived D (out_key v))"

lemma construct_miner_tx_pays:
  assumes "construct_miner_tx D ver height median coins current fees view spend nonce max_outs keys = Inr (tx, m)"
  shows "\<exists>br. get_block_reward ver median current coins fees height = Inr (Some br) \<and> mt_reward m = reward br \<and>
    pays D (reward br) max_outs tx \<and> inputs (prefix tx) = [Base height] \<and> signatures tx = [] \<and>
    unlock_time (prefix tx) = height + CRYPTONOTE_MINED_MONEY_UNLOCK_WINDOW \<and> version (prefix tx) = CURRENT_TRANSACTION_VERSION \<and>
    mt_tx_public_key m = snd keys"
proof -
  obtain br derivation outs x where b: "get_block_reward ver median current coins fees height = Inr (Some br)" "max_outs \<noteq> 0"
    "miner_outputs D derivation spend 0 (merge_outs max_outs (decompose_amount (reward br) (default_dust_threshold height))) = Some outs"
    "tx = \<lparr>prefix = \<lparr>version = CURRENT_TRANSACTION_VERSION, unlock_time = height + CRYPTONOTE_MINED_MONEY_UNLOCK_WINDOW,
        inputs = [Base height], outputs = outs, extra = x\<rparr>, signatures = []\<rparr>"
    "m = \<lparr>mt_reward = reward br, mt_tx_public_key = snd keys\<rparr>"
    using assms by (auto simp: construct_miner_tx_def Let_def and_then_def of_panic_def split: prod.splits if_splits sum.splits option.splits)
  note a = miner_outputs_amounts [OF b(3)]
  note t = out_amounts_sum [of max_outs "reward br" "default_dust_threshold height"]
  have "value_out tx = amount_sum (map out_amount outs)" by (simp add: value_out_def amount_sum_def b(4) comp_def)
  moreover have "\<forall>v \<in> set outs. derived D (out_key v)" using a unfolding derived_def by blast
  moreover have "\<forall>v \<in> set outs. out_amount v \<noteq> 0" using a t(4) b(2) by (metis imageI list.set_map neq0_conv)
  moreover have "length outs \<le> max_outs" using a t(2) b(2) by (metis length_map neq0_conv)
  ultimately have "pays D (reward br) max_outs tx" using t(3) a b(2) by (simp add: pays_def b(4))
  then show ?thesis using b by auto
qed

lemma construct_miner_tx_no_mismatch:
  "construct_miner_tx D ver height median coins current fees view spend nonce max_outs keys \<noteq> Inl (Stopped (AmountMismatch s r))"
  using out_amounts_sum(1) [of max_outs]
  by (auto simp: construct_miner_tx_def Let_def and_then_def of_panic_def split: prod.splits if_splits sum.splits option.splits)

section \<open>The template is what the chain asks for\<close>

lemma with_extra_fields [simp]:
  "inputs (prefix (with_extra f tx)) = inputs (prefix tx)" "outputs (prefix (with_extra f tx)) = outputs (prefix tx)"
  "unlock_time (prefix (with_extra f tx)) = unlock_time (prefix tx)" "signatures (with_extra f tx) = signatures tx"
  "version (prefix (with_extra f tx)) = version (prefix tx)"
  "value_out (with_extra f tx) = value_out tx" "pays D r k (with_extra f tx) = pays D r k tx"
  by (simp_all add: with_extra_def value_out_def pays_def)

lemma with_extra_twice: "with_extra g (with_extra f tx) = with_extra (g \<circ> f) tx" "with_extra id tx = tx"
  by (simp_all add: with_extra_def)

text \<open>The rebuild loop settles on a coinbase that was built for the size the block has with it.\<close>

lemma rebuild_settles:
  "rebuild build txs n start = Inr (tx, m, cumulative) \<Longrightarrow>
     \<exists>cb f. build cumulative = Inr (cb, m) \<and> tx = with_extra f cb \<and> cumulative = txs + coinbase_size tx"
proof (induction n arbitrary: start)
  case (Suc n)
  obtain cb m' where b: "build start = Inr (cb, m')" using Suc.prems by (auto simp: and_then_def split: sum.splits)
  let ?d = "start - txs - coinbase_size cb"
  let ?pad = "with_extra (\<lambda>x. x @ replicate (unat ?d) 0) cb"
  consider (again) s where "rebuild build txs n s = Inr (tx, m, cumulative)"
    | (settled) f where "tx = with_extra f cb" "m' = m" "cumulative = start" "start = txs + coinbase_size tx"
    using Suc.prems b with_extra_twice(2) [of cb] with_extra_twice(1) [of butlast "\<lambda>x. x @ replicate (unat ?d) 0" cb]
    by (simp add: and_then_def Let_def split: if_splits) metis+
  then show ?case using Suc.IH b by cases auto
qed simp

lemma coinbase_outputs_sum:
  "\<forall>v \<in> set outs. out_amount v \<noteq> 0 \<and> check_key c (out_key v) \<Longrightarrow> unat acc + sum_list (map (\<lambda>v. unat (out_amount v)) outs) < 2 ^ 64 \<Longrightarrow>
     coinbase_outputs c acc outs = Inr (acc + of_nat (sum_list (map (\<lambda>v. unat (out_amount v)) outs)))"
proof (induction outs arbitrary: acc)
  case (Cons v outs)
  then have "checked_add acc (out_amount v) = Some (acc + out_amount v)" "unat (acc + out_amount v) = unat acc + unat (out_amount v)"
    by (simp_all add: checked_add_def unat_add_small)
  then show ?case using Cons by (simp add: add.assoc)
qed simp

lemma get_block_reward_median:
  "get_block_reward v (max m (of_nat (full_reward_zone v))) = get_block_reward v m"
  by (intro ext) (simp add: get_block_reward_def max.assoc)

lemma traverse_transfer:
  "traverse f xs = Inr ys \<Longrightarrow> (\<And>x y. x \<in> set xs \<Longrightarrow> f x = Inr y \<Longrightarrow> g x = Inr y) \<Longrightarrow> traverse g xs = Inr ys"
  by (induction xs arbitrary: ys) (fastforce simp: and_then_def split: sum.splits)+

lemma window_below: "i \<in> set (difficulty_window_indexes t) \<Longrightarrow> i \<le> t"
  by (auto simp: difficulty_window_indexes_def Let_def word_le_nat_alt unat_of_nat intro: order_trans [OF mod_less_eq_dividend])

lemma context_of_state:
  assumes "context_from_chain (pool_chain_of st) = Inr ctx" "tip st = Some t" "block_info_at st t = Inr (Some info)"
  shows "tc_height ctx = ucast t + 1" "tc_major_version ctx = block_major_version_for_index (ucast t + 1)"
    "tc_median_size ctx = median_size st" "tc_already_generated_coins ctx = bi_already_generated_coins info"
    "tc_previous_block_hash ctx = bi_block_hash info" "tc_max_cumulative_size ctx = max_block_cumulative_size (ucast t + 1)"
    "difficulty_for_next_block st (main_chain t) t = Inr (Inr (Some (tc_difficulty ctx)))"
proof -
  let ?c = "pool_chain_of st"
  have top: "pc_top_index ?c = ucast t" "pc_block_median_size ?c = median_size st" using assms(2) by (simp_all add: pool_chain_of_def)
  have small: "unat (ucast i :: u64) < 2 ^ 32" "ucast (ucast i :: u64) = i" for i :: u32
  proof -
    have u: "unat (ucast i :: u64) = unat i" by (rule unat_ucast_up) simp
    then show "unat (ucast i :: u64) < 2 ^ 32" using unsigned_less [of i] by simp
    show "ucast (ucast i :: u64) = i" by (rule bit_word_eqI) (simp add: bit_simps)
  qed
  have info: "pc_block_info_at ?c (ucast i) = block_info_at st i" for i using small by (simp add: pool_chain_of_def)
  obtain d m where d: "next_block_difficulty ?c (ucast t) = Inr (Some d)"
    and ctx: "ctx = \<lparr>tc_height = ucast t + 1, tc_previous_block_hash = bi_block_hash info, tc_difficulty = d,
      tc_major_version = block_major_version_for_index (ucast t + 1), tc_minor_version = minor_version_for (block_major_version_for_index (ucast t + 1)),
      tc_median_size = median_size st, tc_max_cumulative_size = max_block_cumulative_size (ucast t + 1),
      tc_already_generated_coins = bi_already_generated_coins info, tc_timestamp_median = m\<rparr>"
    using assms(1,3)
    by (auto simp: context_from_chain_def Let_def top info top_block_hash_def already_generated_coins_of_def read_chain_def and_then_def
        ok_or_def split: sum.splits option.splits)
  then show "tc_height ctx = ucast t + 1" "tc_major_version ctx = block_major_version_for_index (ucast t + 1)"
    "tc_median_size ctx = median_size st" "tc_already_generated_coins ctx = bi_already_generated_coins info"
    "tc_previous_block_hash ctx = bi_block_hash info" "tc_max_cumulative_size ctx = max_block_cumulative_size (ucast t + 1)"
    by simp_all
  show "difficulty_for_next_block st (main_chain t) t = Inr (Inr (Some (tc_difficulty ctx)))"
  proof (cases "simnet (cfg st)")
    case False
    then obtain wnd where w: "traverse (\<lambda>i. info_or_missing_at ?c (ucast i)) (difficulty_window_indexes t) = Inr wnd"
      "difficulty_for_next_block_from t wnd = Inr (Some d)"
      using d small(1) [of t] by (auto simp: next_block_difficulty_def pool_chain_of_def small(2) and_then_def of_panic_def Let_def split: sum.splits if_splits)
    have "traverse (info_or_missing st (main_chain t)) (difficulty_window_indexes t) = Inr wnd"
      by (rule traverse_transfer [OF w(1)])
        (auto dest!: window_below simp: info_or_missing_at_def info_or_missing_def info_in_view_def main_chain_def info read_chain_def and_then_def
          ok_or_def not_less split: sum.splits option.splits)
    then show ?thesis using False w(2) by (simp add: difficulty_for_next_block_def and_then_def ctx)
  qed (use d in \<open>simp add: difficulty_for_next_block_def next_block_difficulty_def pool_chain_of_def ctx\<close>)
qed

lemma fold_add: "fold (\<lambda>t a. a + g t) ts s = s + (\<Sum>t\<leftarrow>ts. g t)" for s :: u64
  by (induction ts arbitrary: s) (simp_all add: add.assoc)

lemma template_result:
  assumes "build_template_from_context c D generated system_now ctx txs addr reserve_size nonce options = Inr r"
  obtains address :: address and reserve keys cb f and m :: miner_tx where
    "construct_miner_tx D (tc_major_version ctx) (tc_height ctx) (tc_median_size ctx) (tc_already_generated_coins ctx) (br_cumulative_size r)
       (br_fee r) (view_public_key address) (spend_public_key address) reserve COINBASE_MAX_OUTS keys = Inr (cb, m)"
    "bt_base_transaction (br_block r) = with_extra f cb" "br_reward r = mt_reward m" "br_fee r = fold (\<lambda>t a. a + tt_fee t) txs 0"
    "br_cumulative_size r = fold (\<lambda>t s. s + of_nat (length (tt_blob t))) txs 0 + coinbase_size (bt_base_transaction (br_block r))"
    "bt_major_version (br_block r) = tc_major_version ctx" "bt_previous_block_hash (br_block r) = tc_previous_block_hash ctx"
    "bt_transaction_hashes (br_block r) = map tt_hash txs" "br_difficulty r = tc_difficulty ctx" "br_height r = tc_height ctx"
    "block_to_bytes (cn_fast_hash c) (br_block r) = Inr (br_blob r)" "br_tx_public_key r = mt_tx_public_key m"
    "bt_timestamp (br_block r) = clamp_timestamp ctx (case to_now options of Some t \<Rightarrow> t | None \<Rightarrow> system_now)"
proof -
  let ?fees = "fold (\<lambda>t a. a + tt_fee t) txs 0" and ?txs = "fold (\<lambda>t s. s + of_nat (length (tt_blob t))) txs (0 :: u64)"
  obtain address where p: "parse_address (cn_fast_hash c) (check_key c) addr = Inr address"
    using assms by (auto simp: build_template_from_context_def split: sum.splits)
  let ?reserve = "case nonce of Some n \<Rightarrow> n | None \<Rightarrow> replicate reserve_size 0"
  let ?keys = "case to_tx_key options of Some k \<Rightarrow> k | None \<Rightarrow> generated"
  let ?build = "\<lambda>size. map_sum (map_stop MinerTxFailed) id
    (construct_miner_tx D (tc_major_version ctx) (tc_height ctx) (tc_median_size ctx) (tc_already_generated_coins ctx)
      size ?fees (view_public_key address) (spend_public_key address) ?reserve COINBASE_MAX_OUTS ?keys)"
  obtain coinbase start miner cumulative where
      "rebuild ?build ?txs COINBASE_REBUILD_TRIES start = Inr (coinbase, miner, cumulative)"
    and r: "bt_base_transaction (br_block r) = coinbase" "br_reward r = mt_reward miner" "br_fee r = ?fees" "br_cumulative_size r = cumulative"
      "bt_major_version (br_block r) = tc_major_version ctx" "bt_previous_block_hash (br_block r) = tc_previous_block_hash ctx"
      "bt_transaction_hashes (br_block r) = map tt_hash txs" "br_difficulty r = tc_difficulty ctx" "br_height r = tc_height ctx"
      "block_to_bytes (cn_fast_hash c) (br_block r) = Inr (br_blob r)" "br_tx_public_key r = mt_tx_public_key miner"
      "bt_timestamp (br_block r) = clamp_timestamp ctx (case to_now options of Some t \<Rightarrow> t | None \<Rightarrow> system_now)"
    using assms by (auto simp: build_template_from_context_def p Let_def and_then_def split: sum.splits prod.splits if_splits)
  from rebuild_settles [OF this(1)] obtain cb f where "?build cumulative = Inr (cb, miner)"
    "coinbase = with_extra f cb" "cumulative = ?txs + coinbase_size coinbase" by blast
  moreover from this(1) have "construct_miner_tx D (tc_major_version ctx) (tc_height ctx) (tc_median_size ctx) (tc_already_generated_coins ctx)
      cumulative ?fees (view_public_key address) (spend_public_key address) ?reserve COINBASE_MAX_OUTS ?keys = Inr (cb, miner)"
    by (auto simp: map_sum_def split: sum.splits)
  ultimately show thesis using r by (intro that [of address ?reserve ?keys cb miner f]) simp_all
qed

text \<open>C6: A template is a block its chain asks for. Built over a chain state whose median is up to date, it extends the tip, has
  the version and the difficulty of the next height, and its coinbase passes the chain's coinbase check with the reward
  the template reports; that reward is the one the chain's reward rule grants for the size the block has with this very
  coinbase, so the reward check accepts it; the outputs are at most eleven, and the template's bytes are the block's.\<close>

theorem template_acceptable:
  assumes "context_from_chain (pool_chain_of st) = Inr ctx"
    and "build_template_from_context c D generated system_now ctx txs addr reserve_size nonce options = Inr r"
    and "infos_ok info t st" "median_size st = main_median info t"
    and "\<And>key. derived D key \<Longrightarrow> check_key c key"
  shows "let block = br_block r; coinbase = bt_base_transaction block; size = (\<Sum>t\<leftarrow>txs. of_nat (length (tt_blob t))) + coinbase_size coinbase in
    bt_previous_block_hash block = bi_block_hash (info t) \<and> claimed_index_of block = ucast t + 1 \<and>
    bt_major_version block = block_major_version_for_index (ucast t + 1) \<and>
    difficulty_for_next_block st (main_chain t) t = Inr (Inr (Some (br_difficulty r))) \<and>
    check_coinbase c block (ucast t + 1) = Inr (br_reward r) \<and>
    (\<exists>br. reward_check st (main_chain t) t block size (\<Sum>t\<leftarrow>txs. tt_fee t) (br_reward r) = Inr (info t, br)) \<and>
    length (outputs (prefix coinbase)) \<le> COINBASE_MAX_OUTS \<and> block_to_bytes (cn_fast_hash c) block = Inr (br_blob r)"
proof -
  have t: "tip st = Some t" "block_info_at st t = Inr (Some (info t))"
    using assms(3) block_info_at_ok [OF assms(3)] by (simp_all add: infos_ok_def)
  note ctx = context_of_state [OF assms(1) t]
  obtain address :: address and reserve keys cb f and m :: miner_tx where built: "construct_miner_tx D (tc_major_version ctx) (tc_height ctx) (tc_median_size ctx)
      (tc_already_generated_coins ctx) (br_cumulative_size r) (br_fee r) (view_public_key address) (spend_public_key address) reserve 11 keys = Inr (cb, m)"
    and r: "bt_base_transaction (br_block r) = with_extra f cb" "br_reward r = mt_reward m" "br_fee r = fold (\<lambda>t a. a + tt_fee t) txs 0"
      "br_cumulative_size r = fold (\<lambda>t s. s + of_nat (length (tt_blob t))) txs 0 + coinbase_size (bt_base_transaction (br_block r))"
      "bt_major_version (br_block r) = tc_major_version ctx" "bt_previous_block_hash (br_block r) = tc_previous_block_hash ctx"
      "br_difficulty r = tc_difficulty ctx" "block_to_bytes (cn_fast_hash c) (br_block r) = Inr (br_blob r)"
    using template_result [OF assms(2)] by metis
  have sums: "fold (\<lambda>t a. a + tt_fee t) txs 0 = (\<Sum>t\<leftarrow>txs. tt_fee t)"
    "fold (\<lambda>t s. s + of_nat (length (tt_blob t))) txs (0 :: u64) = (\<Sum>t\<leftarrow>txs. of_nat (length (tt_blob t)))"
    by (simp_all add: fold_add)
  obtain br where br: "get_block_reward (tc_major_version ctx) (tc_median_size ctx) (br_cumulative_size r) (tc_already_generated_coins ctx)
      (br_fee r) (tc_height ctx) = Inr (Some br)" "mt_reward m = reward br" "pays D (reward br) 11 cb" "inputs (prefix cb) = [Base (tc_height ctx)]"
      "signatures cb = []" "unlock_time (prefix cb) = tc_height ctx + CRYPTONOTE_MINED_MONEY_UNLOCK_WINDOW"
    using construct_miner_tx_pays [OF built] by blast
  have claimed: "claimed_index_of (br_block r) = ucast t + 1" using br(4) ctx(1) by (simp add: claimed_index_of_def coinbase_height_def r(1))
  have pay: "sum_list (map (\<lambda>v. unat (out_amount v)) (outputs (prefix cb))) = unat (reward br)" using br(3) by (simp add: pays_def value_out_def)
  then have "coinbase_outputs c 0 (outputs (prefix cb)) = Inr (br_reward r)"
    using coinbase_outputs_sum [of "outputs (prefix cb)" c 0] assms(5) br(2,3) r(2) by (simp add: pays_def unsigned_less [of "reward br", simplified])
  then have coinbase: "check_coinbase c (br_block r) (ucast t + 1) = Inr (br_reward r)"
    using br(4-6) ctx(1) by (simp add: check_coinbase_def r(1))
  obtain med where med: "reward_size_median st (main_chain t) t = Inr med" "main_median info t = max med (of_nat (full_reward_zone (bt_major_version (br_block r))))"
    using update_median_ok [OF assms(3)] t(1) assms(4) r(5) ctx(2)
    by (auto simp: update_block_median_size_def Let_def dest: arg_cong [of _ _ median_size] split: sum.splits)
  have "info_or_missing st (main_chain t) t = Inr (info t)" by (simp add: info_or_missing_def info_in_view_def main_chain_def t(2) ok_or_def)
  then have "reward_check st (main_chain t) t (br_block r) (br_cumulative_size r) (br_fee r) (br_reward r) = Inr (info t, br)"
    using br(1,2) r(2,5) ctx claimed med assms(4) by (simp add: reward_check_def get_block_reward_median)
  then show ?thesis
    using coinbase claimed ctx r br(3) by (auto simp: Let_def sums pays_def)
qed

section \<open>A template over a chain of one block\<close>

definition sample_keys :: derivations where
  "sample_keys = \<lparr>generate_key_derivation = \<lambda>_ _. Some (replicate 32 1), derive_public_key = \<lambda>_ _ _. Some (replicate 32 2)\<rparr>"

definition sample_options :: template_options where
  "sample_options = \<lparr>to_tx_key = Some (replicate 32 6, replicate 32 7), to_now = Some 70\<rparr>"

definition sample_address :: bytes where
  "sample_address = encode_addr (\<lambda>_. replicate 32 0) CRYPTONOTE_PUBLIC_ADDRESS_BASE58_PREFIX (replicate 32 4 @ replicate 32 5)"

definition first_context :: template_context where
  "first_context = \<lparr>tc_height = 1, tc_previous_block_hash = replicate 32 1, tc_difficulty = 1, tc_major_version = 1, tc_minor_version = 0,
     tc_median_size = main_median (\<lambda>i. one_block_info) 0, tc_max_cumulative_size = max_block_cumulative_size 1,
     tc_already_generated_coins = 5, tc_timestamp_median = None\<rparr>"

definition sample_coinbase :: transaction where
  "sample_coinbase = \<lparr>prefix = \<lparr>version = 1, unlock_time = 41, inputs = [Base 1],
     outputs = map (\<lambda>a. \<lparr>out_amount = a, out_key = replicate 32 2\<rparr>) [8, 20, 900, 20000, 900000, 1000000, 10000000],
     extra = 1 # replicate 32 7\<rparr>, signatures = []\<rparr>"

lemma sample_split: "decompose_amount 11920928 10 = [8, 20, 900, 20000, 900000, 1000000, 10000000]"
  by (simp add: decompose_amount_def decompose_loop.simps)

lemma sample_coinbase_size: "coinbase_size sample_coinbase = 288"
  by code_simp

lemma sample_address_parsed:
  "parse_address (\<lambda>_. replicate 32 0) (\<lambda>_. True) sample_address =
     Inr \<lparr>spend_public_key = replicate 32 4, view_public_key = replicate 32 5, addr_payment_id = None\<rparr>"
proof -
  have "decode_addr (\<lambda>_. replicate 32 0) sample_address = Inr (CRYPTONOTE_PUBLIC_ADDRESS_BASE58_PREFIX, replicate 32 4 @ replicate 32 5)"
    by (subst decode_addr_iff) (simp_all add: sample_address_def)
  moreover have "length sample_address = 98"
    unfolding sample_address_def by (subst length_encode_addr) (simp_all add: ENCODED_BLOCK_SIZES_def)
  ultimately show ?thesis by (simp add: parse_address_def)
qed

lemma first_version: "block_major_version_for_index 1 = 1" "template_timestamp_check_window 1 = 60"
  by code_simp+

lemma first_context_read: "context_from_chain (pool_chain_of first_chain) = Inr first_context"
proof -
  have "difficulty_window_indexes 0 = []" "difficulty_for_next_block_from 0 [] = Inr (Some 1)" by code_simp+
  then have "next_block_difficulty (pool_chain_of first_chain) 0 = Inr (Some 1)"
    by (simp add: next_block_difficulty_def pool_chain_of_def config_default_def of_panic_def)
  then show ?thesis
    using first_chain_info first_version
    by (simp add: context_from_chain_def pool_chain_of_def top_block_hash_def already_generated_coins_of_def read_chain_def ok_or_def
        template_timestamp_median_def first_context_def minor_version_for_def one_block_info_def)
      (simp add: first_chain_def one_block_chain_def one_block_info_def)
qed

lemma sample_built:
  assumes "current = 0 \<or> current = 288"
  shows "construct_miner_tx sample_keys 1 1 (main_median (\<lambda>i. one_block_info) 0) 5 current 0 view spend [] 11 (replicate 32 6, replicate 32 7) =
    Inr (sample_coinbase, \<lparr>mt_reward = 11920928, mt_tx_public_key = replicate 32 7\<rparr>)"
proof -
  have "median_value [100 :: u64] = 100" by code_simp
  then have "main_median (\<lambda>i. one_block_info) 0 = max 100 (of_nat (full_reward_zone 1))"
    using first_version by (simp add: main_median_def one_block_info_def CRYPTONOTE_REWARD_BLOCKS_WINDOW_def)
  moreover have "get_block_reward 1 100 current 5 0 1 = Inr (Some \<lparr>reward = 11920928, emission_change = 11920928\<rparr>)"
    using assms unfolding paid_reward [symmetric]
    by (auto simp: get_block_reward_def get_penalized_amount_def full_reward_zone_def word_le_nat_alt word_less_nat_alt max_def)
  moreover have "default_dust_threshold 1 = 10" "fold (\<lambda>a s. s + a) [8, 20, 900, 20000, 900000, 1000000, 10000000 :: u64] 0 = 11920928" by code_simp+
  moreover have "merge_outs 11 [8, 20, 900, 20000, 900000, 1000000, 10000000] = [8, 20, 900, 20000, 900000, 1000000, 10000000]"
    by (subst merge_outs.simps) simp
  ultimately show ?thesis
    using assms sample_split
    by (auto simp: construct_miner_tx_def get_block_reward_median of_panic_def sample_keys_def build_extra_def sample_coinbase_def
        CURRENT_TRANSACTION_VERSION_def CRYPTONOTE_MINED_MONEY_UNLOCK_WINDOW_def and_then_def)
qed

lemma sample_template:
  "\<exists>r. build_template_from_context sample_crypto sample_keys generated now first_context [] sample_address 0 None sample_options = Inr r"
proof -
  let ?build = "\<lambda>size. map_sum (map_stop MinerTxFailed) id
    (construct_miner_tx sample_keys 1 1 (main_median (\<lambda>i. one_block_info) 0) 5 size 0 (replicate 32 5) (replicate 32 4) [] 11 (replicate 32 6, replicate 32 7))"
  let ?m = "\<lparr>mt_reward = 11920928, mt_tx_public_key = replicate 32 7\<rparr> :: miner_tx"
  have b: "?build 0 = Inr (sample_coinbase, ?m)" "?build 288 = Inr (sample_coinbase, ?m)" using sample_built by simp_all
  have ten: "(10 :: nat) = Suc 9" by simp
  have "rebuild ?build 0 10 288 = Inr (sample_coinbase, ?m, 288)" unfolding ten rebuild.simps using b(2) sample_coinbase_size by simp
  moreover have "\<exists>bs. block_to_bytes (\<lambda>_. replicate 32 0) (next_block\<lparr>bt_base_transaction := sample_coinbase\<rparr>) = Inr bs"
    by (simp add: block_to_bytes_def next_block_def sample_coinbase_def tx_write_def Let_def block_versions word_le_nat_alt)
  moreover have "\<not> (2 :: u8) \<le> 1" by (simp add: word_le_nat_alt)
  ultimately show ?thesis
    using b(1) sample_address_parsed sample_coinbase_size
    by (auto simp: build_template_from_context_def first_context_def sample_options_def clamp_timestamp_def next_block_def sample_crypto_def Let_def)
qed

theorem template_acceptable_witness:
  "\<exists>r. build_template_from_context sample_crypto sample_keys ([], []) 0 first_context [] sample_address 0 None sample_options = Inr r \<and>
     check_coinbase sample_crypto (br_block r) 1 = Inr (br_reward r) \<and>
     difficulty_for_next_block first_chain (main_chain 0) 0 = Inr (Inr (Some (br_difficulty r)))"
proof -
  obtain r where r: "build_template_from_context sample_crypto sample_keys ([], []) 0 first_context [] sample_address 0 None sample_options = Inr r"
    using sample_template by blast
  have "median_size first_chain = main_median (\<lambda>i. one_block_info) 0" by (simp add: first_chain_def one_block_chain_def)
  from template_acceptable [OF first_context_read r first_chain_ok(3) this] r show ?thesis
    by (auto simp: Let_def sample_crypto_def)
qed

section \<open>The selection can be mined\<close>

lemma claim_images_iff:
  "claim_images spent ins = (True, s') \<longleftrightarrow>
     distinct (key_images_of ins) \<and> set (key_images_of ins) \<inter> spent = {} \<and> s' = spent \<union> set (key_images_of ins)"
  by (induction spent ins rule: claim_images.induct) auto

lemma claim_images_grows: "claim_images spent ins = (b, s') \<Longrightarrow> spent \<subseteq> s'"
  by (induction spent ins arbitrary: b s' rule: claim_images.induct) (auto split: if_splits)

text \<open>What the walk selects and what it drops.\<close>

definition selectable :: "crypto \<Rightarrow> pool_chain \<Rightarrow> revalidate_context \<Rightarrow> u64 \<Rightarrow> pool_entry \<Rightarrow> bool" where
  "selectable c chain rctx parent e \<longleftrightarrow>
     valid_for_block_template c e rctx \<and> spends_on_chain chain (pe_transaction e) parent = Inr False"

abbreviation entry_images :: "pool_entry \<Rightarrow> hash list" where
  "entry_images e \<equiv> key_images_of (inputs (prefix (pe_transaction e)))"

lemma nths_step:
  "\<exists>I. sel = nths es I \<Longrightarrow> \<exists>I. sel = nths (e # es) I" "\<exists>I. sel = nths es I \<Longrightarrow> \<exists>I. e # sel = nths (e # es) I"
proof -
  assume "\<exists>I. sel = nths es I"
  then obtain I where "sel = nths es I" by blast
  then have "sel = nths (e # es) (Suc ` I)" "e # sel = nths (e # es) (insert 0 (Suc ` I))"
    by (simp_all add: nths_Cons image_iff)
  then show "\<exists>I. sel = nths (e # es) I" "\<exists>I. e # sel = nths (e # es) I" by blast+
qed

lemma fill_loop_sound:
  assumes "fill_loop c chain rctx parent limit spent used es = (sel, invalid)" "used \<le> limit"
    "unat used + (\<Sum>e\<leftarrow>es. pe_size e) < 2 ^ 64"
  shows "unat used + (\<Sum>e\<leftarrow>sel. pe_size e) \<le> unat limit \<and> (\<forall>e \<in> set sel. selectable c chain rctx parent e) \<and>
    (\<exists>I. sel = nths es I) \<and> distinct (concat (map entry_images sel)) \<and> set (concat (map entry_images sel)) \<inter> spent = {} \<and>
    (\<forall>h \<in> set invalid. \<exists>e \<in> set es. pe_hash e = h \<and>
       (\<not> valid_for_block_template c e rctx \<or> spends_on_chain chain (pe_transaction e) parent = Inr True))"
  using assms
proof (induction es arbitrary: spent used sel invalid)
  case Nil
  then show ?case by (simp add: word_le_nat_alt)
next
  case (Cons e es)
  have small: "unat (used + of_nat (pe_size e)) = unat used + pe_size e" "unat (of_nat (pe_size e) :: u64) = pe_size e"
    using Cons.prems(3) by (simp_all add: unat_of_nat_less unat_add_small)
  have fits: "unat used + (\<Sum>e\<leftarrow>es. pe_size e) < 2 ^ 64" using Cons.prems(3) by simp
  let ?bad = "\<lambda>e. \<not> valid_for_block_template c e rctx \<or> spends_on_chain chain (pe_transaction e) parent = Inr True"
  consider (skip) spent' where "fill_loop c chain rctx parent limit spent' used es = (sel, invalid)" "spent \<subseteq> spent'"
    | (drop) invalid' where "fill_loop c chain rctx parent limit spent used es = (sel, invalid')" "invalid = pe_hash e # invalid'" "?bad e"
    | (take) sel' where "fill_loop c chain rctx parent limit (spent \<union> set (entry_images e)) (used + of_nat (pe_size e)) es = (sel', invalid)"
        "sel = e # sel'" "selectable c chain rctx parent e" "distinct (entry_images e)" "set (entry_images e) \<inter> spent = {}"
        "used + of_nat (pe_size e) \<le> limit"
    using Cons.prems(1)
    by (auto simp: selectable_def claim_images_iff not_less dest: claim_images_grows split: if_splits sum.splits bool.splits prod.splits)
  then show ?case
  proof cases
    case skip
    from Cons.IH [OF skip(1) Cons.prems(2) fits] show ?thesis using skip(2) nths_step(1) [of sel es e] by auto
  next
    case drop
    from Cons.IH [OF drop(1) Cons.prems(2) fits] show ?thesis using drop(2,3) nths_step(1) [of sel es e] by auto
  next
    case take
    have "unat (used + of_nat (pe_size e)) + (\<Sum>e\<leftarrow>es. pe_size e) < 2 ^ 64" using Cons.prems(3) by (simp add: small)
    from Cons.IH [OF take(1,6) this] show ?thesis using take(2-5) nths_step(2) [of sel' es e] by (auto simp: small)
  qed
qed

lemma listed_pooled:
  assumes "pool_ok p" shows "set (by_priority p) = pooled p"
proof -
  obtain xs where xs: "by_priority p = map snd xs" "mset xs = mset (entries p)" using by_priority_keys [OF assms] by metis
  from mset_eq_setD [OF xs(2)] show ?thesis by (simp add: xs(1) pooled_def)
qed

lemma template_order:
  assumes "pool_ok p" "for_block_template p = (regular, fusion)"
  shows "set (regular @ fusion) = pooled p" "(\<Sum>e\<leftarrow>regular @ fusion. pe_size e) = unat (size_bytes p)"
proof -
  have halves: "(\<Sum>e\<leftarrow>filter f xs. pe_size e) + (\<Sum>e\<leftarrow>filter (Not \<circ> f) xs. pe_size e) = (\<Sum>e\<leftarrow>xs. pe_size e)" for f xs
    by (induction xs) auto
  have sides: "set (filter f xs @ filter (Not \<circ> f) xs) = set xs" for f and xs :: "pool_entry list" by auto
  have rf: "regular = filter (\<lambda>e. pe_fee e \<noteq> 0) (by_priority p)" "fusion = filter (Not \<circ> (\<lambda>e. pe_fee e \<noteq> 0)) (by_priority p)"
    using assms(2) by (simp_all add: for_block_template_def)
  show "(\<Sum>e\<leftarrow>regular @ fusion. pe_size e) = unat (size_bytes p)"
    using halves [of "\<lambda>e. pe_fee e \<noteq> 0" "by_priority p"] size_by_priority [OF assms(1)] by (simp only: rf map_append sum_list_append)
  show "set (regular @ fusion) = pooled p" unfolding rf sides by (rule listed_pooled [OF assms(1)])
qed

text \<open>C7: What a template is filled with can be mined together. The selection keeps the order of the pool, fee-paying
  transactions first; it fits the size the template allows; every selected transaction is valid at the template's height,
  spends no key image the chain holds, and no two of them (nor one alone) spend an image twice. The pool is left
  consistent, still holds everything selected, and has lost only transactions that are invalid at that height or spent.\<close>

theorem template_selection_sound:
  assumes "healthy p" "fill_block_template c chain ctx p = (txs, p')"
  shows "let rctx = template_revalidate_context chain (tc_height ctx); parent = saturating_sub (tc_height ctx) 1 in
    \<exists>sel I. txs = map chosen sel \<and> sel = nths (fst (for_block_template p) @ snd (for_block_template p)) I \<and>
      set sel \<subseteq> pooled p' \<and> (\<Sum>t\<leftarrow>txs. length (tt_blob t)) \<le> unat (max_total_size ctx) \<and>
      (\<forall>e \<in> set sel. valid_for_block_template c e rctx \<and> spends_on_chain chain (pe_transaction e) parent = Inr False) \<and>
      distinct (concat (map (\<lambda>e. key_images_of (inputs (prefix (pe_transaction e)))) sel)) \<and> healthy p' \<and> pooled p' \<subseteq> pooled p \<and>
      (\<forall>e \<in> pooled p - pooled p'. \<not> valid_for_block_template c e rctx \<or> spends_on_chain chain (pe_transaction e) parent = Inr True)"
proof -
  let ?rctx = "template_revalidate_context chain (tc_height ctx)" and ?parent = "saturating_sub (tc_height ctx) 1"
  obtain regular fusion where rf: "for_block_template p = (regular, fusion)" by fastforce
  obtain sel invalid where l: "fill_loop c chain ?rctx ?parent (max_total_size ctx) {} 0 (regular @ fusion) = (sel, invalid)" by fastforce
  have ok: "pool_ok p" "entries_ok p" using assms(1) by (simp_all add: healthy_def pool_ok_def)
  note o = template_order [OF ok(1) rf]
  have r: "txs = map chosen sel" "p' = remove_all invalid p" using assms(2) rf l by (simp_all add: fill_block_template_def Let_def)
  have "unat (0 :: u64) + (\<Sum>e\<leftarrow>regular @ fusion. pe_size e) < 2 ^ 64" unfolding o(2) using unsigned_less [of "size_bytes p"] by simp
  note parts = fill_loop_sound [OF l word_zero_le this]
  note fits = parts [THEN conjunct1] and good = parts [THEN conjunct2, THEN conjunct1]
    and nths = parts [THEN conjunct2, THEN conjunct2, THEN conjunct1] and images = parts [THEN conjunct2, THEN conjunct2, THEN conjunct2, THEN conjunct1]
    and dropped = parts [THEN conjunct2, THEN conjunct2, THEN conjunct2, THEN conjunct2, THEN conjunct2]
  obtain I where I: "sel = nths (regular @ fusion) I" using nths by blast
  have q: "pooled p' = {e \<in> pooled p. pe_hash e \<notin> set invalid}" "healthy p'"
    using remove_all_ok(2) [OF ok(1)] removal_healthy(1) [OF assms(1)] by (simp_all add: r(2))
  have bad: "\<not> valid_for_block_template c e ?rctx \<or> spends_on_chain chain (pe_transaction e) ?parent = Inr True"
    if e: "e \<in> pooled p" "pe_hash e \<in> set invalid" for e
  proof -
    obtain e' where e': "e' \<in> set (regular @ fusion)" "pe_hash e' = pe_hash e"
      "\<not> valid_for_block_template c e' ?rctx \<or> spends_on_chain chain (pe_transaction e') ?parent = Inr True" using dropped e(2) by blast
    have "e' \<in> pooled p" using e'(1) o(1) by blast
    from pooled_unique [OF ok(2) this e(1) e'(2)] e'(3) show ?thesis by simp
  qed
  have "set sel \<subseteq> pooled p" using I o(1) set_nths_subset by fastforce
  then have "set sel \<subseteq> pooled p'" using bad good unfolding q(1) selectable_def by fastforce
  moreover have "(\<Sum>t\<leftarrow>txs. length (tt_blob t)) \<le> unat (max_total_size ctx)" using fits by (simp add: r(1) chosen_def comp_def)
  ultimately show ?thesis
    unfolding Let_def using r(1) I q bad good images rf
    by (intro exI [of _ sel] exI [of _ I] conjI) (auto simp: selectable_def)
qed

theorem template_selection_sound_witness:
  "healthy (snd (fill_block_template sample_crypto sample_pool_chain first_context sample_filled)) \<and>
   (\<Sum>t\<leftarrow>fst (fill_block_template sample_crypto sample_pool_chain first_context sample_filled). length (tt_blob t)) \<le> unat (max_total_size first_context)"
proof -
  obtain txs p' where f: "fill_block_template sample_crypto sample_pool_chain first_context sample_filled = (txs, p')" by fastforce
  from template_selection_sound [OF sample_filled_healthy(1) f]
  have "healthy p'" "(\<Sum>t\<leftarrow>txs. length (tt_blob t)) \<le> unat (max_total_size first_context)" by (auto simp: Let_def)
  then show ?thesis by (simp add: f)
qed

text \<open>C18: The coinbase always pays the block reward: a constructed coinbase has outputs that add up to exactly the reward the rule
  grants for the block's size, none of them zero and no more of them than allowed, one base input with the height, the
  unlock time of mined money and no signatures; and the code's check that the amounts add up can never fail.\<close>

theorem miner_tx_pays_reward:
  "construct_miner_tx D ver height median coins current fees view spend nonce max_outs keys \<noteq> Inl (Stopped (AmountMismatch s r)) \<and>
   (\<forall>tx m. construct_miner_tx D ver height median coins current fees view spend nonce max_outs keys = Inr (tx, m) \<longrightarrow>
     (\<exists>br. get_block_reward ver median current coins fees height = Inr (Some br) \<and> mt_reward m = reward br \<and>
        value_out tx = unat (reward br) \<and> length (outputs (prefix tx)) \<le> max_outs \<and> (\<forall>v \<in> set (outputs (prefix tx)). out_amount v \<noteq> 0) \<and>
        inputs (prefix tx) = [Base height] \<and> signatures tx = [] \<and> unlock_time (prefix tx) = height + CRYPTONOTE_MINED_MONEY_UNLOCK_WINDOW))"
proof (intro conjI allI impI)
  fix tx m assume "construct_miner_tx D ver height median coins current fees view spend nonce max_outs keys = Inr (tx, m)"
  from construct_miner_tx_pays [OF this] show "\<exists>br. get_block_reward ver median current coins fees height = Inr (Some br) \<and> mt_reward m = reward br \<and>
        value_out tx = unat (reward br) \<and> length (outputs (prefix tx)) \<le> max_outs \<and> (\<forall>v \<in> set (outputs (prefix tx)). out_amount v \<noteq> 0) \<and>
        inputs (prefix tx) = [Base height] \<and> signatures tx = [] \<and> unlock_time (prefix tx) = height + CRYPTONOTE_MINED_MONEY_UNLOCK_WINDOW"
    by (auto simp: pays_def)
qed (rule construct_miner_tx_no_mismatch)

theorem miner_tx_pays_reward_witness:
  "value_out sample_coinbase = 11920928 \<and> length (outputs (prefix sample_coinbase)) \<le> 11"
proof -
  have "value_out sample_coinbase = unat (11920928 :: u64) \<and> length (outputs (prefix sample_coinbase)) \<le> 11"
    using miner_tx_pays_reward [THEN conjunct2, rule_format, OF sample_built [of 0]] by force
  then show ?thesis by simp
qed

end
