(* ===== verification/Spec2Isabelle.thy ===== *)
theory Spec2Isabelle
  imports Windows Template_Rules
begin

text \<open>
  A verification development of the consensus core of wrkzcoin-rust, a CryptoNote node in Rust: what bytes are a
  transaction or a block, what a valid one is, how a block joins the stored chain or a branch of it and is taken off
  again, and how the transaction pool and the block templates follow. Paths below are under \<open>src/crates\<close>. Definitions
  keep the names of the code; a struct is a record, an enum a datatype, a \<open>Result\<close> a sum whose left side is the error, a
  machine integer a word of its width and \<open>usize\<close> a natural number. An operation with \<open>&mut self\<close> returns the new
  state, also when it fails, so an error path that has changed something already is visible. A panic is a value
  (\<open>panic\<close>, \<open>halt\<close>).

  \<^bold>\<open>How the parts interact.\<close> \<open>ChainState::add_block\<close> parses a block, finds its parent, checks it against the
  windows it reads from the store and puts it on the main chain or files it as an alternative block; a branch with more
  work replaces the main chain and, when one of its blocks fails, the old chain is put back. Validation asks the chain
  for key images and ring outputs through \<open>ChainAccess\<close>. The pool runs the same validation for a transaction that
  arrives alone, and \<open>add_block_with_pool\<close> sweeps it after each block. A template reads the chain through \<open>PoolChain\<close>,
  chooses pooled transactions and builds a coinbase which the chain then has to accept.

  \<^bold>\<open>Shared.\<close> \<open>Prelude\<close>: word types, the integer operations of the Rust library, little-endian bytes, the
  combinators of fallible code, the collections \<open>codec_simps\<close> and \<open>arith_simps\<close>. \<open>Constants\<close>: \<open>constants.rs\<close> and its
  schedules by height.

  \<^bold>\<open>Formats\<close> (\<open>wrkz-primitives\<close>).
  \<^item> \<open>Varint\<close> and \<open>Ser\<close>: \<open>varint.rs\<close>, \<open>ser.rs\<close>. The locale \<open>codec\<close> states that a writer and a reader are
    inverse and that only the writer's bytes are read; \<open>counted_codec\<close> lifts it to counted vectors, and every field of
    the wire formats is an interpretation.
  \<^item> \<open>Tx\<close>, \<open>Tx_Extra\<close>, \<open>Block\<close>, \<open>Base58\<close>: \<open>tx.rs\<close>, \<open>block.rs\<close>, \<open>base58.rs\<close>. Each format round trips and has one
    encoding per value, with the exception stated for a merge-mined parent block; an address parses exactly when it is
    an encoding. \<open>Block\<close> also has the proof-of-work rule and the genesis block.

  \<^bold>\<open>Rules.\<close>
  \<^item> \<open>Fees_Mixins\<close>, \<open>Difficulty\<close>: \<open>fees.rs\<close>, \<open>mixins.rs\<close>, \<open>difficulty.rs\<close>. The double arithmetic of the fee is modelled
    with its rounding and shown equal to integer steps; the live difficulty stays in its band; the version 4 divisor can
    wrap to zero.
  \<^item> \<open>Pow\<close>: \<open>wrkz-pow\<close>, files \<open>keccak.rs\<close>, \<open>tree.rs\<close>, \<open>lib.rs\<close>. A tree branch gives the root of the tree hash.
  \<^item> \<open>Reward\<close>, \<open>Checkpoints\<close>, \<open>Windows\<close>: \<open>wrkz-chain\<close>, files \<open>reward.rs\<close> with \<open>fusion.rs\<close>, \<open>checkpoints.rs\<close>, \<open>windows.rs\<close>. The
    reward is the new coins plus the fees, and where its sum wraps; the checkpoint zone and what disabling does to it;
    the fork windows are exact.
  \<^item> \<open>Validate\<close>: \<open>wrkz-chain/src/validate.rs\<close>. The batched validators agree with the sequential ones on every verdict.
    \<open>inputs_authorised\<close> and the sums \<open>value_in\<close> and \<open>value_out\<close> are the specification accepted transactions meet.
  \<^item> \<open>Parallel\<close>: \<open>wrkz-pow/src/parallel.rs\<close>. Workers over two shared atomics are an inductive step relation, where a load
    may return an older minimum; every run ends, in the index the sequential loop stops at.

  \<^bold>\<open>The chain\<close> (\<open>wrkz-chain/src/state.rs\<close>, \<open>keys.rs\<close>, \<open>records.rs\<close>, \<open>lib.rs\<close>).
  \<^item> \<open>Chain_Types\<close>: rules, errors, stored records. \<open>Chain_Store\<close>: the store as a map from key bytes to value bytes with
    atomic batches, its reads, \<open>push_ops\<close> and \<open>unwind_ops\<close>. \<open>Chain_Unwind\<close>: keys do not collide, and taking a block off
    undoes putting it on.
  \<^item> \<open>Chain_Open\<close>: \<open>open\<close>, body policy, imports. Prune passes delete only what they may and finish; the mode of a database
    is permanent.
  \<^item> \<open>Chain_Accept\<close>: \<open>add_block\<close> with both paths, the switch and the bookkeeping of alternative blocks. \<open>Chain_Branches\<close>:
    pruning keeps whole branches, forgetting takes a subtree. \<open>Chain_Rules\<close>: what an accepted block satisfies, which
    block is the tip afterwards, that a proof-of-work hash computed ahead changes nothing. The locale \<open>chain_reads\<close> is
    what validation relies on of the chain, interpreted for the reads of the store.

  \<^bold>\<open>The pool and templates\<close> (\<open>wrkz-mempool/src/pool.rs\<close>, \<open>chain.rs\<close>, \<open>template_builder.rs\<close>, \<open>coinbase.rs\<close>).
  \<^item> \<open>Pool\<close>: the operations. \<open>Pool_Ok\<close>: the invariant \<open>pool_ok\<close> and one lemma per index and operation. \<open>Pool_Steps\<close>:
    every operation as a step, and reachable pools are consistent. \<open>Pool_Order\<close>: the locale \<open>ordered_index\<close> of an ordered
    set, interpreted for the priority keys; listing is a stable sort and eviction keeps the best entries. \<open>Pool_Admit\<close>:
    what an admitted transaction satisfies, which rejections stand. \<open>Pool_Rules\<close>: the pool after a block.
  \<^item> \<open>Template\<close> and \<open>Template_Rules\<close>: the coinbase pays the reward, the template passes the checks of the chain it
    was built on, the chosen transactions can be mined together.

  \<^bold>\<open>Bounds.\<close> Loops are structural recursions or functions with a termination proof. Two walks carry a bound: \<open>leaf_walk\<close>
  the number of alternative blocks (a larger one changes nothing: \<open>leaf_walk_enough\<close> and the claim on leaf segments) and
  \<open>evict_loop\<close> the number of priority keys (\<open>evict_loop_ends\<close>: in a consistent pool it ends at the target and a larger
  bound changes nothing). The ten rounds of \<open>rebuild\<close> are the code's own. Word arithmetic wraps as in a release build. Sizes
  and counts that the theorems need to fit a word are named as hypotheses, \<open>room\<close> for the pool and \<open>block_fits\<close> for a
  block.

  \<^bold>\<open>Parameters.\<close> Code outside the repository or below its rules is an argument: the records \<open>crypto\<close> (fast hash, key
  checks, ring signatures), \<open>primitives\<close> (slow hash, argon2id), the Keccak permutation, the derivation of output keys and
  the clock. Where a theorem relies on one, the hypothesis is named: hashes of 32 bytes, derived keys that pass the key
  check, no other block with the same hash and other work.

  \<^bold>\<open>Not modelled.\<close> CryptoNight, argon2id and the curve (parameters); the storage engines and errors of the disk; the
  tools that replay, dump and export a chain; the peer-to-peer protocol, the node daemon, RPC and WebSocket servers; the
  wallet, its service and its application; the proof-of-work server, the simulated network and the fuzz targets. These
  are input and output around the operations above, or user programs over them. Display texts, logs, timings and
  metrics are left out throughout.
\<close>

end
